(* ===== verification/Rust_Prelude.thy ===== *)
theory Rust_Prelude
  imports Main "HOL-Library.Word"
begin

text \<open>
  The vocabulary the component theories share: the machine integer types of the kernel, the
  arithmetic operations of the Rust standard library it uses on them (saturating and checked
  operations, little- and big-endian byte codecs), the scan for the first free slot that
  every fixed-size table of the kernel starts with, and the copy of a slice into a buffer.
  A \<open>usize\<close> that is an index or a length is a \<open>nat\<close>; a field with a declared width is a word.
  A fixed array \<open>[T; N]\<close> is a list; where \<open>N\<close> is a constant that the build generates from
  the configuration, the length of the list stands for it.
\<close>

unbundle bit_operations_syntax

type_synonym u8 = "8 word"
type_synonym u16 = "16 word"
type_synonym u32 = "32 word"
type_synonym u64 = "64 word"

named_theorems table_simps \<open>facts on fixed-size tables of slots\<close>
named_theorems codec_simps \<open>facts on byte codecs\<close>

section \<open>The first slot that satisfies a condition\<close>

primrec first_idx :: "('a \<Rightarrow> bool) \<Rightarrow> 'a list \<Rightarrow> nat option" where
  "first_idx P [] = None"
| "first_idx P (x # xs) = (if P x then Some 0 else map_option Suc (first_idx P xs))"

section \<open>Outcomes\<close>

text \<open>
  The kernel is built with overflow checks and aborts on panic; an operation that may panic
  returns an outcome.
\<close>

datatype 'a outcome = Panic | Ret 'a

section \<open>Arithmetic of the standard library\<close>

definition saturating_add :: "'a::len word \<Rightarrow> 'a word \<Rightarrow> 'a word" where
  "saturating_add a b = (if unat a + unat b < 2 ^ LENGTH('a) then a + b else - 1)"

definition saturating_sub :: "'a::len word \<Rightarrow> 'a word \<Rightarrow> 'a word" where
  "saturating_sub a b = (if b \<le> a then a - b else 0)"

definition saturating_mul :: "'a::len word \<Rightarrow> 'a word \<Rightarrow> 'a word" where
  "saturating_mul a b = (if unat a * unat b < 2 ^ LENGTH('a) then a * b else - 1)"

definition checked_add :: "'a::len word \<Rightarrow> 'a word \<Rightarrow> 'a word option" where
  "checked_add a b = (if unat a + unat b < 2 ^ LENGTH('a) then Some (a + b) else None)"

definition checked_mul :: "'a::len word \<Rightarrow> 'a word \<Rightarrow> 'a word option" where
  "checked_mul a b = (if unat a * unat b < 2 ^ LENGTH('a) then Some (a * b) else None)"

section \<open>Signed integers\<close>

text \<open>
  A signed machine integer is an \<open>int\<close> within the range of its type; arithmetic that the source
  leaves unqualified panics when it leaves the range of the type.
\<close>

definition i16_MIN :: int where "i16_MIN = - 32768"
definition i16_MAX :: int where "i16_MAX = 32767"
definition i32_MIN :: int where "i32_MIN = - 2147483648"
definition i32_MAX :: int where "i32_MAX = 2147483647"
definition u32_MAX :: int where "u32_MAX = 4294967295"
definition i64_MIN :: int where "i64_MIN = - 9223372036854775808"
definition i64_MAX :: int where "i64_MAX = 9223372036854775807"

definition in_i16 :: "int \<Rightarrow> bool" where "in_i16 x \<longleftrightarrow> i16_MIN \<le> x \<and> x \<le> i16_MAX"
definition in_i32 :: "int \<Rightarrow> bool" where "in_i32 x \<longleftrightarrow> i32_MIN \<le> x \<and> x \<le> i32_MAX"
definition in_i64 :: "int \<Rightarrow> bool" where "in_i64 x \<longleftrightarrow> i64_MIN \<le> x \<and> x \<le> i64_MAX"

definition clamp :: "int \<Rightarrow> int \<Rightarrow> int \<Rightarrow> int" where
  "clamp lo hi x = (if x < lo then lo else if x > hi then hi else x)"

definition sat_i64 :: "int \<Rightarrow> int" where
  "sat_i64 x = clamp i64_MIN i64_MAX x"

definition checked_i64 :: "int \<Rightarrow> int outcome" where
  "checked_i64 x = (if in_i64 x then Ret x else Panic)"

definition tdiv :: "int \<Rightarrow> int \<Rightarrow> int" where
  "tdiv a b = sgn a * sgn b * (\<bar>a\<bar> div \<bar>b\<bar>)"

lemmas int_ranges = i16_MIN_def i16_MAX_def i32_MIN_def i32_MAX_def u32_MAX_def i64_MIN_def i64_MAX_def
  in_i16_def in_i32_def in_i64_def

section \<open>Byte codecs\<close>

definition u16_to_le :: "u16 \<Rightarrow> u8 list" where
  "u16_to_le w = [ucast w, ucast (drop_bit 8 w)]"

definition u16_from_le :: "u8 \<Rightarrow> u8 \<Rightarrow> u16" where
  "u16_from_le a b = ucast a OR push_bit 8 (ucast b)"

definition u32_to_le :: "u32 \<Rightarrow> u8 list" where
  "u32_to_le w = [ucast w, ucast (drop_bit 8 w), ucast (drop_bit 16 w), ucast (drop_bit 24 w)]"

definition u32_from_le :: "u8 \<Rightarrow> u8 \<Rightarrow> u8 \<Rightarrow> u8 \<Rightarrow> u32" where
  "u32_from_le a b c d =
     ucast a OR push_bit 8 (ucast b) OR push_bit 16 (ucast c) OR push_bit 24 (ucast d)"

section \<open>Copying a slice into a buffer\<close>

definition copy_at :: "'a list \<Rightarrow> nat \<Rightarrow> 'a list \<Rightarrow> 'a list" where
  "copy_at buf off src = take off buf @ src @ drop (off + length src) buf"

section \<open>Lemmas\<close>

lemma first_idx_Some_iff:
  "first_idx P xs = Some i \<longleftrightarrow> i < length xs \<and> P (xs ! i) \<and> (\<forall>j<i. \<not> P (xs ! j))"
proof (induction xs arbitrary: i)
  case Nil
  then show ?case by simp
next
  case (Cons x xs)
  show ?case
  proof (cases i)
    case 0
    then show ?thesis by auto
  next
    case (Suc k)
    then show ?thesis using Cons.IH [of k] by (auto simp: All_less_Suc2)
  qed
qed

lemma first_idx_None_iff [table_simps]: "first_idx P xs = None \<longleftrightarrow> (\<forall>x\<in>set xs. \<not> P x)"
  by (induction xs) auto

lemma first_idx_SomeD:
  assumes "first_idx P xs = Some i"
  shows "i < length xs" and "P (xs ! i)" and "\<And>j. j < i \<Longrightarrow> \<not> P (xs ! j)"
  using assms by (auto simp: first_idx_Some_iff)

lemma first_idx_replicate [simp]:
  "first_idx P (replicate n x) = (if n \<noteq> 0 \<and> P x then Some 0 else None)"
  by (cases n) (auto simp: table_simps)

lemma unat_saturating_add:
  "unat (saturating_add a b) = min (unat a + unat b) (2 ^ LENGTH('a) - 1)"
  for a b :: "'a::len word"
  by (auto simp: saturating_add_def unat_word_ariths unsigned_minus_1_eq_mask mask_eq_exp_minus_1)

lemma saturating_add_one: "unat a < 4294967295 \<Longrightarrow> saturating_add a 1 = a + 1" for a :: u32
  by (simp add: saturating_add_def)

lemma unat_u32_not_max: "x \<noteq> - 1 \<Longrightarrow> unat x < 4294967295" for x :: u32
proof (rule ccontr)
  assume x: "x \<noteq> - 1" "\<not> unat x < 4294967295"
  have "unat x < 4294967296"
    using unsigned_less [of x, where ?'a = nat] by simp
  then have "unat x = 4294967295"
    using x(2) by linarith
  also have "\<dots> = unat (- 1 :: u32)"
    by (simp add: unsigned_minus_1_eq_mask mask_eq_exp_minus_1)
  finally show False
    using x(1) by (simp only: word_unat_eq_iff)
qed

lemma unat_saturating_sub: "unat (saturating_sub a b) = unat a - unat b"
  by (auto simp: saturating_sub_def unat_sub word_le_nat_alt)

lemma checked_add_Some: "checked_add a b = Some c \<Longrightarrow> unat c = unat a + unat b"
  by (auto simp: checked_add_def unat_word_ariths split: if_splits)

lemma unat_u8_less: "unat a < 256" for a :: u8
  using unsigned_less [of a, where ?'a = nat] by simp

lemma unat_u16_less: "unat a < 65536" for a :: u16
  using unsigned_less [of a, where ?'a = nat] by simp

lemma unat_u32_less: "unat a < 4294967296" for a :: u32
  using unsigned_less [of a, where ?'a = nat] by simp

lemma bit_u8_less: "bit a n \<Longrightarrow> n < 8" for a :: u8
  using bit_imp_le_length [of a n] by simp

lemma bit_u32_from_le:
  "bit (u32_from_le a b c d) n \<longleftrightarrow>
     (if n < 8 then bit a n else if n < 16 then bit b (n - 8)
      else if n < 24 then bit c (n - 16) else bit d (n - 24))"
  by (auto simp: u32_from_le_def bit_simps dest: bit_u8_less)

lemma u32_le_roundtrip [codec_simps]:
  "u32_from_le (ucast w) (ucast (drop_bit 8 w)) (ucast (drop_bit 16 w)) (ucast (drop_bit 24 w)) = w"
  by (rule bit_word_eqI) (auto simp: bit_u32_from_le bit_simps)

lemma u16_le_roundtrip [codec_simps]: "u16_from_le (ucast w) (ucast (drop_bit 8 w)) = w"
  by (rule bit_word_eqI) (auto simp: u16_from_le_def bit_simps)

lemma u32_to_le_from_le [codec_simps]: "u32_to_le (u32_from_le a b c d) = [a, b, c, d]"
  unfolding u32_to_le_def
  by (simp, intro conjI; rule bit_word_eqI; simp add: bit_u32_from_le bit_simps)

lemma length_copy_at [simp]:
  "off + length src \<le> length buf \<Longrightarrow> length (copy_at buf off src) = length buf"
  by (simp add: copy_at_def)

end
