(* ===== verification/Bounded_Fifo.thy ===== *)
theory Bounded_Fifo
  imports Rust_Prelude
begin

text \<open>
  The interface of a bounded first-in first-out queue and what its clients rely on.  The
  kernel's channels and pipes keep their data in a ring: an array, a read position and a
  number of elements; \<open>ring_contents\<close> reads such a ring as a list.  The locale states the laws
  of a queue over an abstraction to lists; from them follows, for every sequence of pushes and
  pops, that what is delivered followed by what is still queued is what was queued followed
  by what was accepted: nothing is lost, duplicated or reordered.
\<close>

section \<open>Rings\<close>

definition ring_contents :: "'a list \<Rightarrow> nat \<Rightarrow> nat \<Rightarrow> 'a list" where
  "ring_contents buf h n = map (\<lambda>k. buf ! ((h + k) mod length buf)) [0..<n]"

lemma length_ring_contents [simp]: "length (ring_contents buf h n) = n"
  by (simp add: ring_contents_def)

lemma ring_contents_0 [simp]: "ring_contents buf h 0 = []"
  by (simp add: ring_contents_def)

lemma ring_index_distinct:
  fixes h k n m :: nat
  assumes "k < n" "n < m"
  shows "(h + k) mod m \<noteq> (h + n) mod m"
proof
  assume "(h + k) mod m = (h + n) mod m"
  then have "m dvd (h + n) - (h + k)"
    by (metis assms(1) mod_eq_dvd_iff_nat nat_add_left_cancel_le less_imp_le)
  then have "m dvd n - k"
    by simp
  then show False
    using assms by (auto dest: dvd_imp_le)
qed

lemma ring_contents_push:
  assumes "n < length buf"
  shows "ring_contents (buf[(h + n) mod length buf := x]) h (Suc n) = ring_contents buf h n @ [x]"
proof -
  have "0 < length buf"
    using assms by linarith
  then have "(h + n) mod length buf < length buf"
    by simp
  moreover have "(h + n) mod length buf \<noteq> (h + k) mod length buf" if "k < n" for k
    using ring_index_distinct [OF that assms] by (rule not_sym)
  ultimately show ?thesis
    by (simp add: ring_contents_def)
qed

lemma ring_contents_pop:
  "ring_contents buf h (Suc n) = buf ! (h mod length buf) # ring_contents buf (Suc h mod length buf) n"
  by (simp add: ring_contents_def upt_conv_Cons map_Suc_upt [symmetric] mod_add_left_eq
      del: upt_Suc)

section \<open>Queues\<close>

datatype 'a fifo_op = Push 'a | Pop

fun fifo_run ::
  "('a \<Rightarrow> 'q \<Rightarrow> 'q option) \<Rightarrow> ('q \<Rightarrow> ('a \<times> 'q) option) \<Rightarrow> 'q \<Rightarrow> 'a fifo_op list
   \<Rightarrow> 'q \<times> 'a list \<times> 'a list" where
  "fifo_run push pop q [] = (q, [], [])"
| "fifo_run push pop q (Push x # ops) =
     (case push x q of
        None \<Rightarrow> fifo_run push pop q ops
      | Some q' \<Rightarrow> (case fifo_run push pop q' ops of (q'', acc, del) \<Rightarrow> (q'', x # acc, del)))"
| "fifo_run push pop q (Pop # ops) =
     (case pop q of
        None \<Rightarrow> fifo_run push pop q ops
      | Some (x, q') \<Rightarrow> (case fifo_run push pop q' ops of (q'', acc, del) \<Rightarrow> (q'', acc, x # del)))"

locale bounded_fifo =
  fixes inv :: "'q \<Rightarrow> bool"
    and contents :: "'q \<Rightarrow> 'a list"
    and room :: nat
    and admissible :: "'a \<Rightarrow> bool"
    and push :: "'a \<Rightarrow> 'q \<Rightarrow> 'q option"
    and pop :: "'q \<Rightarrow> ('a \<times> 'q) option"
  assumes bounded: "inv q \<Longrightarrow> length (contents q) \<le> room"
    and push_None: "inv q \<Longrightarrow> push x q = None \<longleftrightarrow> \<not> admissible x \<or> length (contents q) = room"
    and push_Some: "inv q \<Longrightarrow> push x q = Some q' \<Longrightarrow> inv q' \<and> contents q' = contents q @ [x]"
    and pop_None: "inv q \<Longrightarrow> pop q = None \<longleftrightarrow> contents q = []"
    and pop_Some: "inv q \<Longrightarrow> pop q = Some (x, q') \<Longrightarrow> inv q' \<and> contents q = x # contents q'"
begin

lemma run_conserves:
  assumes "inv q" "fifo_run push pop q ops = (q', acc, del)"
  shows "inv q' \<and> contents q @ acc = del @ contents q'"
  using assms
proof (induction ops arbitrary: q acc del)
  case Nil
  then show ?case by simp
next
  case (Cons op ops)
  show ?case
  proof (cases op)
    case (Push x)
    show ?thesis
    proof (cases "push x q")
      case None
      then show ?thesis
        using Cons Push by simp
    next
      case (Some q1)
      then obtain acc1 where "fifo_run push pop q1 ops = (q', acc1, del)" "acc = x # acc1"
        using Cons.prems(2) Push by (auto split: prod.splits)
      then show ?thesis
        using Cons.IH push_Some [OF Cons.prems(1) Some] by fastforce
    qed
  next
    case Pop
    show ?thesis
    proof (cases "pop q")
      case None
      then show ?thesis
        using Cons Pop by simp
    next
      case (Some xq)
      then obtain x q1 del1 where "pop q = Some (x, q1)" "fifo_run push pop q1 ops = (q', acc, del1)"
          "del = x # del1"
        using Cons.prems(2) Pop by (auto split: prod.splits)
      then show ?thesis
        using Cons.IH pop_Some [OF Cons.prems(1)] by fastforce
    qed
  qed
qed

lemma push_succeeds:
  "inv q \<Longrightarrow> admissible x \<Longrightarrow> length (contents q) < room \<Longrightarrow> \<exists>q'. push x q = Some q'"
  using push_None by (metis less_irrefl option.exhaust)

lemma push_then_pops:
  assumes "inv q" "contents q = []" "push x q = Some q'"
  shows "\<exists>q''. pop q' = Some (x, q'') \<and> contents q'' = []"
proof -
  have q': "inv q'" "contents q' = [x]"
    using push_Some [OF assms(1,3)] assms(2) by simp_all
  then obtain y q'' where "pop q' = Some (y, q'')"
    using pop_None by (metis list.distinct(1) option.exhaust prod.exhaust)
  then show ?thesis
    using pop_Some [OF q'(1)] q'(2) by fastforce
qed

end

end
