(* ===== verification/Slot_Table.thy ===== *)
theory Slot_Table
  imports Rust_Prelude
begin

text \<open>
  The interface of a fixed-size table of slots, as the kernel uses it for capabilities,
  handles, channels, pipes, ports and interrupt bindings: an operation scans for the first
  slot that is not in use and claims it; a later operation may release it.  The locales fix
  the test for a slot in use and the way a slot is claimed and released; the lemmas proved
  from these laws are the accounting every such table satisfies, namely that a claim fails
  exactly when the table is full, that it never touches a slot in use, and that it changes
  the number of slots in use by one.
\<close>

definition in_use :: "('s \<Rightarrow> bool) \<Rightarrow> 's list \<Rightarrow> nat" where
  "in_use busy t = length (filter busy t)"

definition free_slot :: "('s \<Rightarrow> bool) \<Rightarrow> 's list \<Rightarrow> nat option" where
  "free_slot busy t = first_idx (\<lambda>s. \<not> busy s) t"

lemma in_use_le: "in_use busy t \<le> length t"
  by (simp add: in_use_def)

lemma in_use_update:
  "i < length t \<Longrightarrow>
     in_use busy (t[i := s]) + (if busy (t ! i) then 1 else 0)
     = in_use busy t + (if busy s then 1 else 0)"
proof (induction t arbitrary: i)
  case Nil
  then show ?case by simp
next
  case (Cons a t)
  then show ?case
    by (cases i) (auto simp: in_use_def split: if_splits)
qed

lemma in_use_pos: "i < length t \<Longrightarrow> busy (t ! i) \<Longrightarrow> 0 < in_use busy t"
  using nth_mem by (fastforce simp: in_use_def filter_empty_conv)

lemma free_slot_Some:
  "free_slot busy t = Some i \<longleftrightarrow> i < length t \<and> \<not> busy (t ! i) \<and> (\<forall>j<i. busy (t ! j))"
  by (simp add: free_slot_def first_idx_Some_iff)

lemma free_slot_None: "free_slot busy t = None \<longleftrightarrow> in_use busy t = length t"
proof -
  have "length (filter busy t) = length t \<longleftrightarrow> (\<forall>x\<in>set t. busy x)"
    by (metis filter_True length_filter_less less_irrefl)
  then show ?thesis
    by (simp add: free_slot_def in_use_def first_idx_None_iff)
qed

lemma free_slot_None_nth: "free_slot busy t = None \<longleftrightarrow> (\<forall>i<length t. busy (t ! i))"
  by (simp add: free_slot_def first_idx_None_iff all_set_conv_all_nth)

lemma free_slot_room: "in_use busy t < length t \<longleftrightarrow> (\<exists>i. free_slot busy t = Some i)"
  using free_slot_None [of busy t] in_use_le [of busy t]
  by (cases "free_slot busy t") auto

lemma free_slot_update_None:
  assumes "free_slot busy t = None" "i < length t" "\<not> busy s"
  shows "free_slot busy (t[i := s]) = Some i"
  using assms by (auto simp: free_slot_Some free_slot_None_nth)

section \<open>Tables whose slots are claimed\<close>

locale slot_table =
  fixes busy :: "'s \<Rightarrow> bool"
    and claim :: "'r \<Rightarrow> 's \<Rightarrow> 's"
    and request_ok :: "'r \<Rightarrow> bool"
  assumes claim_busy: "request_ok r \<Longrightarrow> busy (claim r s)"
begin

lemma claim_in_use:
  "free_slot busy t = Some i \<Longrightarrow> request_ok r \<Longrightarrow>
     in_use busy (t[i := claim r (t ! i)]) = Suc (in_use busy t)"
  using in_use_update [of i t busy "claim r (t ! i)"] claim_busy
  by (auto simp: free_slot_Some split: if_splits)

lemma claim_keeps_busy:
  "free_slot busy t = Some i \<Longrightarrow> j < length t \<Longrightarrow> busy (t ! j) \<Longrightarrow>
     j \<noteq> i \<and> t[i := claim r (t ! i)] ! j = t ! j"
  by (auto simp: free_slot_Some nth_list_update)

lemma claim_frame: "j \<noteq> i \<Longrightarrow> t[i := claim r (t ! i)] ! j = t ! j"
  by simp

end

section \<open>Tables whose slots are also released\<close>

locale slot_pool = slot_table busy claim request_ok
  for busy :: "'s \<Rightarrow> bool" and claim :: "'r \<Rightarrow> 's \<Rightarrow> 's" and request_ok :: "'r \<Rightarrow> bool" +
  fixes release :: "'s \<Rightarrow> 's"
  assumes release_free: "\<not> busy (release s)"
begin

lemma release_in_use:
  "i < length t \<Longrightarrow> busy (t ! i) \<Longrightarrow>
     Suc (in_use busy (t[i := release (t ! i)])) = in_use busy t"
  using in_use_update [of i t busy "release (t ! i)"] release_free
  by (auto split: if_splits)

lemma release_makes_room:
  "i < length t \<Longrightarrow> \<exists>j\<le>i. free_slot busy (t[i := release (t ! i)]) = Some j"
proof -
  let ?t = "t[i := release (t ! i)]"
  assume i: "i < length t"
  then have free: "i < length ?t" "\<not> busy (?t ! i)"
    by (simp_all add: release_free)
  then obtain j where j: "free_slot busy ?t = Some j"
    by (cases "free_slot busy ?t") (auto simp: free_slot_None_nth)
  then have "j \<le> i"
    using free by (metis free_slot_Some not_le)
  then show ?thesis
    using j by blast
qed

end

end
