(* ===== verification/Cap_Wire.thy ===== *)
theory Cap_Wire
  imports Rust_Prelude
begin

text \<open>
  The wire format of a capability (\<open>crates/abi/src/cap.rs\<close>): a 32-bit handle that packs the
  kind tag (bits 28--31), the permission bits (24--27), the generation of the slot (16--23)
  and the index of the slot in the table of the holder (0--15), with the permission algebra
  on the low four bits of a byte.
\<close>

type_synonym CapHandle = u32
type_synonym CapPerms = u8

definition CAP_NULL :: CapHandle where "CAP_NULL = 0"

definition handle_is_null :: "CapHandle \<Rightarrow> bool" where
  "handle_is_null h \<longleftrightarrow> h = 0"

datatype CapKind =
    KNull | KChannel | KShm | KPort | KIrq | KMmioRegion | KIoRing | KSensor | KGpio | KI2c
  | KPwm | KMotor | KFile | KSocket | KTask | KAiSession

fun kind_tag :: "CapKind \<Rightarrow> u8" where
  "kind_tag KNull = 0"
| "kind_tag KChannel = 1"
| "kind_tag KShm = 2"
| "kind_tag KPort = 3"
| "kind_tag KIrq = 4"
| "kind_tag KMmioRegion = 5"
| "kind_tag KIoRing = 6"
| "kind_tag KSensor = 7"
| "kind_tag KGpio = 8"
| "kind_tag KI2c = 9"
| "kind_tag KPwm = 10"
| "kind_tag KMotor = 11"
| "kind_tag KFile = 12"
| "kind_tag KSocket = 13"
| "kind_tag KTask = 14"
| "kind_tag KAiSession = 15"

definition kind_from_raw :: "u8 \<Rightarrow> CapKind option" where
  "kind_from_raw raw =
     (if raw = 0 then Some KNull else if raw = 1 then Some KChannel
      else if raw = 2 then Some KShm else if raw = 3 then Some KPort
      else if raw = 4 then Some KIrq else if raw = 5 then Some KMmioRegion
      else if raw = 6 then Some KIoRing else if raw = 7 then Some KSensor
      else if raw = 8 then Some KGpio else if raw = 9 then Some KI2c
      else if raw = 10 then Some KPwm else if raw = 11 then Some KMotor
      else if raw = 12 then Some KFile else if raw = 13 then Some KSocket
      else if raw = 14 then Some KTask else if raw = 15 then Some KAiSession
      else None)"

section \<open>Permissions\<close>

definition PERM_READ :: CapPerms where "PERM_READ = 1"
definition PERM_WRITE :: CapPerms where "PERM_WRITE = 2"
definition PERM_EXEC :: CapPerms where "PERM_EXEC = 4"
definition PERM_DUP :: CapPerms where "PERM_DUP = 8"
definition PERM_NONE :: CapPerms where "PERM_NONE = 0"
definition PERM_RW :: CapPerms where "PERM_RW = PERM_READ OR PERM_WRITE"
definition PERM_RW_DUP :: CapPerms where "PERM_RW_DUP = PERM_READ OR PERM_WRITE OR PERM_DUP"
definition PERM_ALL :: CapPerms where "PERM_ALL = 15"

definition perms_from_bits_truncate :: "u8 \<Rightarrow> CapPerms" where
  "perms_from_bits_truncate raw = raw AND 15"

definition perms_contains :: "CapPerms \<Rightarrow> CapPerms \<Rightarrow> bool" where
  "perms_contains p q \<longleftrightarrow> p AND q = q"

definition perms_union :: "CapPerms \<Rightarrow> CapPerms \<Rightarrow> CapPerms" where
  "perms_union p q = p OR q"

definition perms_intersection :: "CapPerms \<Rightarrow> CapPerms \<Rightarrow> CapPerms" where
  "perms_intersection p q = p AND q"

lemmas perms_defs = PERM_READ_def PERM_WRITE_def PERM_EXEC_def PERM_DUP_def PERM_NONE_def
  PERM_RW_def PERM_RW_DUP_def PERM_ALL_def

section \<open>Handles\<close>

definition pack :: "CapKind \<Rightarrow> CapPerms \<Rightarrow> u8 \<Rightarrow> u16 \<Rightarrow> CapHandle" where
  "pack k perms generation slot =
     push_bit 28 (ucast (kind_tag k) AND 0xF)
     OR push_bit 24 (ucast perms AND 0xF)
     OR push_bit 16 (ucast generation AND 0xFF)
     OR (ucast slot AND 0xFFFF)"

definition handle_kind :: "CapHandle \<Rightarrow> u8" where
  "handle_kind h = ucast (drop_bit 28 h AND 0xF)"

definition handle_perms :: "CapHandle \<Rightarrow> CapPerms" where
  "handle_perms h = perms_from_bits_truncate (ucast (drop_bit 24 h AND 0xF))"

definition handle_generation :: "CapHandle \<Rightarrow> u8" where
  "handle_generation h = ucast (drop_bit 16 h AND 0xFF)"

definition handle_slot :: "CapHandle \<Rightarrow> u16" where
  "handle_slot h = ucast (h AND 0xFFFF)"

section \<open>The kind tag\<close>

lemma kind_tag_less: "kind_tag k < 16"
  by (cases k) simp_all

lemma kind_from_raw_tag [simp]: "kind_from_raw (kind_tag k) = Some k"
  by (cases k) (simp_all add: kind_from_raw_def)

lemma kind_tag_inject [simp]: "kind_tag k = kind_tag k' \<longleftrightarrow> k = k'"
  by (metis kind_from_raw_tag option.inject)

lemma kind_from_raw_Some: "kind_from_raw raw = Some k \<Longrightarrow> kind_tag k = raw"
  by (auto simp: kind_from_raw_def split: if_splits)

section \<open>The permission algebra\<close>

lemma perms_contains_bits: "perms_contains p q \<longleftrightarrow> (\<forall>n. bit q n \<longrightarrow> bit p n)"
  by (auto simp: perms_contains_def bit_eq_iff bit_simps dest: bit_u8_less)

lemma perms_contains_refl [simp, intro]: "perms_contains p p"
  by (simp add: perms_contains_bits)

lemma perms_contains_trans: "perms_contains p q \<Longrightarrow> perms_contains q r \<Longrightarrow> perms_contains p r"
  by (simp add: perms_contains_bits)

lemma perms_contains_antisym: "perms_contains p q \<Longrightarrow> perms_contains q p \<Longrightarrow> p = q"
  by (auto simp: perms_contains_bits bit_eq_iff)

lemma perms_contains_none [simp]: "perms_contains p PERM_NONE"
  by (simp add: perms_contains_bits perms_defs)

lemma perms_union_least:
  "perms_contains r (perms_union p q) \<longleftrightarrow> perms_contains r p \<and> perms_contains r q"
  by (auto simp: perms_contains_bits perms_union_def bit_simps)

lemma perms_intersection_greatest:
  "perms_contains (perms_intersection p q) r \<longleftrightarrow> perms_contains p r \<and> perms_contains q r"
  by (auto simp: perms_contains_bits perms_intersection_def bit_simps)

section \<open>Field extraction\<close>

lemma mask_numerals:
  "(0xF :: 'a::len word) = mask 4" "(0xFF :: 'a::len word) = mask 8" "(0xFFFF :: 'a::len word) = mask 16"
  by (simp_all add: mask_eq_exp_minus_1)

lemma bit_u16_less: "bit a n \<Longrightarrow> n < 16" for a :: u16
  using bit_imp_le_length [of a n] by simp

lemma bit_kind_tag_less: "bit (kind_tag k) n \<Longrightarrow> n < 4"
proof -
  have "take_bit 4 (kind_tag k) = kind_tag k"
    by (cases k) simp_all
  then show "bit (kind_tag k) n \<Longrightarrow> n < 4"
    by (metis bit_take_bit_iff)
qed

lemma bit_pack:
  "bit (pack k p g s) n \<longleftrightarrow>
     (if n < 16 then bit s n else if n < 24 then bit g (n - 16)
      else if n < 28 then bit p (n - 24) else n < 32 \<and> bit (kind_tag k) (n - 28))"
  by (auto simp: pack_def mask_numerals bit_simps dest: bit_u8_less bit_u16_less bit_kind_tag_less)

lemma handle_slot_pack [simp]: "handle_slot (pack k p g s) = s"
  by (rule bit_word_eqI) (auto simp: handle_slot_def mask_numerals bit_simps bit_pack)

lemma handle_generation_pack [simp]: "handle_generation (pack k p g s) = g"
  by (rule bit_word_eqI) (auto simp: handle_generation_def mask_numerals bit_simps bit_pack)

lemma handle_kind_pack [simp]: "handle_kind (pack k p g s) = kind_tag k"
  by (rule bit_word_eqI)
    (auto simp: handle_kind_def mask_numerals bit_simps bit_pack dest: bit_kind_tag_less)

lemma handle_perms_pack [simp]: "handle_perms (pack k p g s) = perms_from_bits_truncate p"
  by (rule bit_word_eqI)
    (auto simp: handle_perms_def perms_from_bits_truncate_def mask_numerals bit_simps bit_pack)

lemma pack_not_null [simp]: "g \<noteq> 0 \<Longrightarrow> \<not> handle_is_null (pack k p g s)"
  using handle_generation_pack [of k p g s]
  by (auto simp: handle_is_null_def handle_generation_def)

lemma handle_of_fields:
  assumes "kind_from_raw (handle_kind h) = Some k"
  shows "pack k (handle_perms h) (handle_generation h) (handle_slot h) = h"
proof -
  have tag: "kind_tag k = handle_kind h"
    using assms by (rule kind_from_raw_Some)
  show ?thesis
    by (rule bit_word_eqI)
      (auto simp: bit_pack tag handle_kind_def handle_perms_def handle_generation_def
         handle_slot_def perms_from_bits_truncate_def mask_numerals bit_simps)
qed

end
