(* ===== verification/Degrade.thy ===== *)
theory Degrade
  imports Rust_Prelude
begin

text \<open>
  The graded degraded mode (\<open>crates/degrade-policy\<close> and the state kept in
  \<open>crates/ipc/src/cap.rs\<close>): four ordered levels, the speed ceiling of each, and the single
  global level that the capability checks read.
\<close>

definition DEGRADE_LEVEL_FULL :: u8 where "DEGRADE_LEVEL_FULL = 0"
definition DEGRADE_LEVEL_CAUTIOUS :: u8 where "DEGRADE_LEVEL_CAUTIOUS = 1"
definition DEGRADE_LEVEL_SLOW :: u8 where "DEGRADE_LEVEL_SLOW = 2"
definition DEGRADE_LEVEL_CONTAINED :: u8 where "DEGRADE_LEVEL_CONTAINED = 3"
definition DEGRADE_LEVEL_MAX :: u8 where "DEGRADE_LEVEL_MAX = DEGRADE_LEVEL_CONTAINED"

lemmas degrade_levels = DEGRADE_LEVEL_FULL_def DEGRADE_LEVEL_CAUTIOUS_def
  DEGRADE_LEVEL_SLOW_def DEGRADE_LEVEL_CONTAINED_def DEGRADE_LEVEL_MAX_def

definition level_cap_pct :: "u8 \<Rightarrow> int" where
  "level_cap_pct level =
     (if level = DEGRADE_LEVEL_FULL then 100
      else if level = DEGRADE_LEVEL_CAUTIOUS then 70
      else if level = DEGRADE_LEVEL_SLOW then 30
      else 0)"

definition degrade_level_set :: "u8 \<Rightarrow> u8" where
  "degrade_level_set level = min level DEGRADE_LEVEL_MAX"

definition degraded_set :: "bool \<Rightarrow> u8" where
  "degraded_set on =
     (if on then degrade_level_set DEGRADE_LEVEL_CONTAINED
      else degrade_level_set DEGRADE_LEVEL_FULL)"

definition degraded_active :: "u8 \<Rightarrow> bool" where
  "degraded_active level \<longleftrightarrow> level = DEGRADE_LEVEL_CONTAINED"

lemma degrade_level_set_le: "degrade_level_set l \<le> DEGRADE_LEVEL_MAX"
  by (simp add: degrade_level_set_def)

lemma level_cap_pct_unat:
  "level_cap_pct l = (if unat l = 0 then 100 else if unat l = 1 then 70 else if unat l = 2 then 30 else 0)"
  by (simp add: level_cap_pct_def degrade_levels word_unat_eq_iff)

lemma level_cap_pct_antimono: "l \<le> l' \<Longrightarrow> level_cap_pct l' \<le> level_cap_pct l"
  by (auto simp: level_cap_pct_unat word_le_nat_alt)

lemma level_cap_pct_range: "0 \<le> level_cap_pct l \<and> level_cap_pct l \<le> 100"
  by (simp add: level_cap_pct_def)

lemma degrade_level_set_cap: "level_cap_pct (degrade_level_set l) = level_cap_pct l"
  by (auto simp: level_cap_pct_unat degrade_level_set_def degrade_levels min_def word_le_nat_alt)

lemma degraded_active_level_set:
  "degraded_active (degrade_level_set l) \<longleftrightarrow> level_cap_pct l = 0"
  by (auto simp: level_cap_pct_unat degrade_level_set_def degraded_active_def degrade_levels
      min_def word_le_nat_alt word_unat_eq_iff)

lemma degraded_active_set [simp]: "degraded_active (degraded_set on) = on"
  by (simp add: degraded_set_def degrade_level_set_def degraded_active_def degrade_levels)

end
