(* ===== verification/Cap_Table.thy ===== *)
theory Cap_Table
  imports Cap_Wire Slot_Table Degrade
begin

text \<open>
  The capability table of one task (\<open>CapTable\<close> of \<open>crates/ipc/src/cap.rs\<close>).  A table is a
  list of 256 slots; the typed handle \<open>Cap<T>\<close> is the wire handle together with the kind
  \<open>T::KIND\<close>, which is an argument of the typed operations.  The global degrade level is an
  argument of the operations that read it.
\<close>

definition MAX_CAPS_PER_TASK :: nat where "MAX_CAPS_PER_TASK = 256"

record CapSlot =
  cs_kind :: CapKind
  cs_perms :: CapPerms
  cs_generation :: u8
  cs_resource :: u32

type_synonym CapTable = "CapSlot list"

datatype CapError = Stale | WrongKind | MissingPerms | Contained

definition slot_EMPTY :: CapSlot where
  "slot_EMPTY = \<lparr>cs_kind = KNull, cs_perms = PERM_NONE, cs_generation = 0, cs_resource = 0\<rparr>"

definition is_occupied :: "CapSlot \<Rightarrow> bool" where
  "is_occupied s \<longleftrightarrow> cs_kind s \<noteq> KNull"

definition table_empty :: CapTable where
  "table_empty = replicate MAX_CAPS_PER_TASK slot_EMPTY"

definition allocate_slot :: "CapTable \<Rightarrow> u16 option" where
  "allocate_slot t = map_option of_nat (free_slot is_occupied t)"

definition bump_generation :: "CapTable \<Rightarrow> nat \<Rightarrow> u8" where
  "bump_generation t slot_idx =
     (case checked_add (cs_generation (t ! slot_idx)) 1 of
        Some n \<Rightarrow> if n \<noteq> 0 then n else 1
      | None \<Rightarrow> 1)"

definition grant_raw ::
  "CapTable \<Rightarrow> CapKind \<Rightarrow> CapPerms \<Rightarrow> u32 \<Rightarrow> CapHandle option \<times> CapTable" where
  "grant_raw t k perms resource =
     (if k = KNull then (None, t)
      else case allocate_slot t of
        None \<Rightarrow> (None, t)
      | Some slot \<Rightarrow>
          (let slot_idx = unat slot; next_gen = bump_generation t slot_idx
           in (Some (pack k perms next_gen slot),
               t[slot_idx := \<lparr>cs_kind = k, cs_perms = perms, cs_generation = next_gen,
                              cs_resource = resource\<rparr>])))"

definition inspect_raw :: "CapTable \<Rightarrow> CapHandle \<Rightarrow> CapError + (CapKind \<times> CapPerms \<times> u32)" where
  "inspect_raw t raw =
     (if handle_is_null raw then Inl Stale
      else let slot_idx = unat (handle_slot raw) in
        if slot_idx \<ge> MAX_CAPS_PER_TASK then Inl Stale
        else let slot = t ! slot_idx in
          if \<not> is_occupied slot then Inl Stale
          else if cs_generation slot \<noteq> handle_generation raw then Inl Stale
          else if kind_tag (cs_kind slot) \<noteq> handle_kind raw then Inl WrongKind
          else Inr (cs_kind slot, cs_perms slot, cs_resource slot))"

definition cap_get :: "u8 \<Rightarrow> CapTable \<Rightarrow> CapKind \<Rightarrow> CapHandle \<Rightarrow> CapPerms \<Rightarrow> CapError + u32" where
  "cap_get level t T raw need =
     (if handle_is_null raw then Inl Stale
      else let slot_idx = unat (handle_slot raw) in
        if slot_idx \<ge> MAX_CAPS_PER_TASK then Inl Stale
        else let slot = t ! slot_idx in
          if \<not> is_occupied slot then Inl Stale
          else if cs_generation slot \<noteq> handle_generation raw then Inl Stale
          else if cs_kind slot \<noteq> T then Inl WrongKind
          else if \<not> perms_contains (cs_perms slot) need then Inl MissingPerms
          else if perms_contains need PERM_WRITE \<and> degraded_active level then Inl Contained
          else Inr (cs_resource slot))"

definition cap_revoke :: "CapTable \<Rightarrow> CapHandle \<Rightarrow> CapTable" where
  "cap_revoke t raw =
     (if handle_is_null raw then t
      else let slot_idx = unat (handle_slot raw) in
        if slot_idx \<ge> MAX_CAPS_PER_TASK then t
        else let slot = t ! slot_idx in
          if is_occupied slot \<and> cs_generation slot = handle_generation raw
          then t[slot_idx := slot\<lparr>cs_kind := KNull, cs_perms := PERM_NONE, cs_resource := 0\<rparr>]
          else t)"

definition table_occupied :: "CapTable \<Rightarrow> nat" where
  "table_occupied t = in_use is_occupied t"

definition holds_kind_with :: "CapTable \<Rightarrow> CapKind \<Rightarrow> CapPerms \<Rightarrow> bool" where
  "holds_kind_with t k need =
     (if k = KNull then False
      else list_ex (\<lambda>s. is_occupied s \<and> cs_kind s = k \<and> perms_contains (cs_perms s) need) t)"

definition holds_kind_resource_with ::
  "u8 \<Rightarrow> CapTable \<Rightarrow> CapKind \<Rightarrow> u32 \<Rightarrow> CapPerms \<Rightarrow> bool" where
  "holds_kind_resource_with level t k resource need =
     (if k = KNull then False
      else if perms_contains need PERM_WRITE \<and> degraded_active level then False
      else list_ex (\<lambda>s. is_occupied s \<and> cs_kind s = k \<and> cs_resource s = resource
                        \<and> perms_contains (cs_perms s) need) t)"

section \<open>Histories of a table\<close>

datatype cap_op = OpGrant CapKind CapPerms u32 | OpRevoke CapHandle

fun cap_step :: "CapTable \<Rightarrow> cap_op \<Rightarrow> CapTable" where
  "cap_step t (OpGrant k p r) = snd (grant_raw t k p r)"
| "cap_step t (OpRevoke h) = cap_revoke t h"

definition cap_run :: "CapTable \<Rightarrow> cap_op list \<Rightarrow> CapTable" where
  "cap_run t ops = foldl cap_step t ops"

fun grant_lands :: "nat \<Rightarrow> CapTable \<Rightarrow> cap_op \<Rightarrow> bool" where
  "grant_lands i t (OpGrant k p r) \<longleftrightarrow> k \<noteq> KNull \<and> free_slot is_occupied t = Some i"
| "grant_lands i t (OpRevoke h) \<longleftrightarrow> False"

fun grants_at :: "nat \<Rightarrow> CapTable \<Rightarrow> cap_op list \<Rightarrow> nat" where
  "grants_at i t [] = 0"
| "grants_at i t (op # ops) =
     (if grant_lands i t op then 1 else 0) + grants_at i (cap_step t op) ops"

section \<open>Invariant\<close>

definition table_inv :: "CapTable \<Rightarrow> bool" where
  "table_inv t \<longleftrightarrow> length t = MAX_CAPS_PER_TASK
     \<and> list_all (\<lambda>s. is_occupied s \<longrightarrow> cs_generation s \<noteq> 0) t"

definition next_generation :: "u8 \<Rightarrow> u8" where
  "next_generation g = (if g = 255 then 1 else g + 1)"

lemma bump_generation_eq: "bump_generation t i = next_generation (cs_generation (t ! i))"
  using unat_u8_less [of "cs_generation (t ! i)"]
  by (auto simp: bump_generation_def checked_add_def next_generation_def word_unat_eq_iff
      unat_word_ariths)

lemma next_generation_nonzero [simp]: "next_generation g \<noteq> 0"
  using unat_u8_less [of g]
  by (auto simp: next_generation_def word_unat_eq_iff unat_word_ariths)

lemma unat_next_generation:
  "unat (next_generation g) = (if g = 0 then 1 else unat g mod 255 + 1)"
  using unat_u8_less [of g]
  by (cases "unat g = 255")
    (auto simp: next_generation_def word_unat_eq_iff unat_word_ariths mod_less)

lemma unat_next_generation_funpow:
  "g \<noteq> 0 \<Longrightarrow> unat ((next_generation ^^ n) g) = (unat g - 1 + n) mod 255 + 1"
proof (induction n)
  case 0
  then show ?case
    using unat_u8_less [of g] by (simp add: unat_gt_0 Suc_leI)
next
  case (Suc n)
  let ?h = "(next_generation ^^ n) g"
  have "unat ?h = (unat g - 1 + n) mod 255 + 1"
    using Suc by simp
  then have "?h \<noteq> 0"
    by (metis add_is_0 one_neq_zero unat_0)
  then show ?case
    using Suc by (simp add: unat_next_generation mod_Suc_eq)
qed

lemma next_generation_cycle:
  assumes "g \<noteq> 0"
  shows "(next_generation ^^ n) g = g \<longleftrightarrow> 255 dvd n"
proof -
  have g: "unat g - 1 < 255" "0 < unat g"
    using assms unat_u8_less [of g] by (auto simp: unat_gt_0)
  have "(next_generation ^^ n) g = g \<longleftrightarrow> (unat g - 1 + n) mod 255 = unat g - 1"
    using g unat_next_generation_funpow [OF assms, of n] by (auto simp: word_unat_eq_iff)
  also have "\<dots> \<longleftrightarrow> (unat g - 1 + n) mod 255 = (unat g - 1) mod 255"
    using g by simp
  also have "\<dots> \<longleftrightarrow> 255 dvd n"
    by (subst mod_eq_dvd_iff_nat) simp_all
  finally show ?thesis .
qed

section \<open>The table as a pool of slots\<close>

definition granted_slot :: "CapKind \<times> CapPerms \<times> u32 \<Rightarrow> CapSlot \<Rightarrow> CapSlot" where
  "granted_slot req s =
     (case req of (k, p, r) \<Rightarrow>
        \<lparr>cs_kind = k, cs_perms = p, cs_generation = next_generation (cs_generation s),
         cs_resource = r\<rparr>)"

definition cleared_slot :: "CapSlot \<Rightarrow> CapSlot" where
  "cleared_slot s = s\<lparr>cs_kind := KNull, cs_perms := PERM_NONE, cs_resource := 0\<rparr>"

interpretation cap_pool: slot_pool is_occupied granted_slot "\<lambda>(k, p, r). k \<noteq> KNull" cleared_slot
  by unfold_locales (auto simp: is_occupied_def granted_slot_def cleared_slot_def)

lemma table_inv_length: "table_inv t \<Longrightarrow> length t = 256"
  by (simp add: table_inv_def MAX_CAPS_PER_TASK_def)

lemma table_inv_generation:
  "table_inv t \<Longrightarrow> i < 256 \<Longrightarrow> is_occupied (t ! i) \<Longrightarrow> cs_generation (t ! i) \<noteq> 0"
  by (auto simp: table_inv_def MAX_CAPS_PER_TASK_def list_all_length)

lemma free_slot_u16:
  assumes "length t = 256" "free_slot busy t = Some i"
  shows "i < 256" and "unat (of_nat i :: u16) = i"
proof -
  show i: "i < 256"
    using assms by (simp add: free_slot_Some)
  show "unat (of_nat i :: u16) = i"
    using i by (simp add: unsigned_of_nat take_bit_nat_eq_self)
qed

lemma grant_raw_eq:
  assumes "length t = 256"
  shows "grant_raw t k p r =
    (if k = KNull then (None, t)
     else case free_slot is_occupied t of
       None \<Rightarrow> (None, t)
     | Some i \<Rightarrow> (Some (pack k p (next_generation (cs_generation (t ! i))) (of_nat i)),
                  t[i := granted_slot (k, p, r) (t ! i)]))"
  using free_slot_u16(2) [OF assms]
  by (auto simp: grant_raw_def allocate_slot_def Let_def bump_generation_eq granted_slot_def
      split: option.splits)

lemma cap_revoke_eq:
  "cap_revoke t h =
     (let i = unat (handle_slot h) in
      if \<not> handle_is_null h \<and> i < 256 \<and> is_occupied (t ! i)
         \<and> cs_generation (t ! i) = handle_generation h
      then t[i := cleared_slot (t ! i)] else t)"
  by (auto simp: cap_revoke_def Let_def MAX_CAPS_PER_TASK_def cleared_slot_def)

lemma granted_slot_simps [simp]:
  "cs_kind (granted_slot (k, p, r) s) = k" "cs_perms (granted_slot (k, p, r) s) = p"
  "cs_resource (granted_slot (k, p, r) s) = r"
  "cs_generation (granted_slot q s) = next_generation (cs_generation s)"
  by (simp_all add: granted_slot_def split: prod.splits)

lemma cleared_slot_simps [simp]:
  "cs_kind (cleared_slot s) = KNull" "cs_generation (cleared_slot s) = cs_generation s"
  "\<not> is_occupied (cleared_slot s)"
  by (simp_all add: cleared_slot_def is_occupied_def)

lemma table_inv_empty [simp]: "table_inv table_empty"
  by (simp add: table_inv_def table_empty_def slot_EMPTY_def is_occupied_def list_all_length)

lemma table_inv_update:
  "table_inv t \<Longrightarrow> (is_occupied s \<Longrightarrow> cs_generation s \<noteq> 0) \<Longrightarrow> table_inv (t[i := s])"
  by (auto simp: table_inv_def list_all_iff dest!: set_update_subset_insert [THEN subsetD])

lemma table_inv_grant: "table_inv t \<Longrightarrow> table_inv (snd (grant_raw t k p r))"
  by (auto simp: grant_raw_eq table_inv_length intro: table_inv_update split: option.splits)

lemma table_inv_revoke: "table_inv t \<Longrightarrow> table_inv (cap_revoke t h)"
  by (auto simp: cap_revoke_eq Let_def intro: table_inv_update)

lemma table_inv_step: "table_inv t \<Longrightarrow> table_inv (cap_step t op)"
  by (cases op) (simp_all add: table_inv_grant table_inv_revoke)

lemma cap_run_simps [simp]:
  "cap_run t [] = t" "cap_run t (op # ops) = cap_run (cap_step t op) ops"
  "cap_run t (ops @ ops') = cap_run (cap_run t ops) ops'"
  by (simp_all add: cap_run_def)

lemma table_inv_run: "table_inv t \<Longrightarrow> table_inv (cap_run t ops)"
  by (induction ops arbitrary: t) (simp_all add: table_inv_step)

section \<open>Dereference\<close>

lemma cap_get_Inr_iff:
  "cap_get level t T h need = Inr r \<longleftrightarrow>
     (let s = t ! unat (handle_slot h) in
      \<not> handle_is_null h \<and> unat (handle_slot h) < 256 \<and> is_occupied s
      \<and> cs_generation s = handle_generation h \<and> cs_kind s = T
      \<and> perms_contains (cs_perms s) need
      \<and> \<not> (perms_contains need PERM_WRITE \<and> degraded_active level) \<and> cs_resource s = r)"
  by (auto simp: cap_get_def Let_def MAX_CAPS_PER_TASK_def)

lemma cap_get_Stale_iff:
  "cap_get level t T h need = Inl Stale \<longleftrightarrow>
     (let s = t ! unat (handle_slot h) in
      handle_is_null h \<or> 256 \<le> unat (handle_slot h) \<or> \<not> is_occupied s
      \<or> cs_generation s \<noteq> handle_generation h)"
  by (auto simp: cap_get_def Let_def MAX_CAPS_PER_TASK_def)

lemma inspect_raw_Inr_iff:
  "inspect_raw t h = Inr (k, p, r) \<longleftrightarrow>
     (let s = t ! unat (handle_slot h) in
      \<not> handle_is_null h \<and> unat (handle_slot h) < 256 \<and> is_occupied s
      \<and> cs_generation s = handle_generation h \<and> kind_tag (cs_kind s) = handle_kind h
      \<and> k = cs_kind s \<and> p = cs_perms s \<and> r = cs_resource s)"
  by (auto simp: inspect_raw_def Let_def MAX_CAPS_PER_TASK_def)

lemma cap_get_cong_slot:
  "t ! unat (handle_slot h) = t' ! unat (handle_slot h) \<Longrightarrow>
     cap_get level t T h need = cap_get level t' T h need"
  by (simp add: cap_get_def Let_def)

lemma cap_get_after_grant:
  assumes "table_inv t" "grant_raw t k p r = (Some h, t')"
  shows "cap_get level t' k h need =
    (if \<not> perms_contains p need then Inl MissingPerms
     else if perms_contains need PERM_WRITE \<and> degraded_active level then Inl Contained
     else Inr r)"
proof -
  have len: "length t = 256"
    using assms by (simp add: table_inv_length)
  obtain i where i: "free_slot is_occupied t = Some i" and k: "k \<noteq> KNull"
    and h: "h = pack k p (next_generation (cs_generation (t ! i))) (of_nat i)"
    and t': "t' = t[i := granted_slot (k, p, r) (t ! i)]"
    using assms(2) by (auto simp: grant_raw_eq len split: if_splits option.splits)
  show ?thesis
    using free_slot_u16 [OF len i] len k
    by (auto simp: cap_get_def h t' MAX_CAPS_PER_TASK_def is_occupied_def)
qed

lemma grant_keeps_live_slots:
  assumes "table_inv t" "j < 256" "is_occupied (t ! j)"
  shows "snd (grant_raw t k p r) ! j = t ! j"
  using assms cap_pool.claim_keeps_busy [of t _ j "(k, p, r)"]
  by (auto simp: grant_raw_eq table_inv_length split: option.splits)

lemma cap_get_other_handles:
  assumes "table_inv t" "cap_get level t T h need \<noteq> Inl Stale"
  shows "cap_get level (snd (grant_raw t k p r)) T h need = cap_get level t T h need"
proof (rule cap_get_cong_slot)
  show "snd (grant_raw t k p r) ! unat (handle_slot h) = t ! unat (handle_slot h)"
    using assms by (auto simp: cap_get_Stale_iff Let_def intro: grant_keeps_live_slots)
qed

section \<open>Generations along a history\<close>

lemma step_generation:
  assumes "table_inv t" "i < 256"
  shows "cs_generation (cap_step t op ! i) =
    (if grant_lands i t op then next_generation (cs_generation (t ! i)) else cs_generation (t ! i))"
  using assms
  by (cases op)
    (auto simp: grant_raw_eq table_inv_length cap_revoke_eq Let_def nth_list_update
      split: option.splits)

lemma run_generation:
  assumes "table_inv t" "i < 256"
  shows "cs_generation (cap_run t ops ! i) =
    (next_generation ^^ grants_at i t ops) (cs_generation (t ! i))"
  using assms
proof (induction ops arbitrary: t)
  case Nil
  then show ?case by simp
next
  case (Cons op ops)
  then show ?case
    using step_generation [of t i op] table_inv_step [of t op]
    by (simp add: funpow_swap1)
qed

lemma step_occupied:
  assumes "table_inv t" "i < 256" "\<not> is_occupied (t ! i)" "\<not> grant_lands i t op"
  shows "\<not> is_occupied (cap_step t op ! i)"
  using assms
  by (cases op)
    (auto simp: grant_raw_eq table_inv_length cap_revoke_eq Let_def nth_list_update free_slot_Some
      split: option.splits)

lemma run_free:
  assumes "table_inv t" "i < 256" "\<not> is_occupied (t ! i)" "grants_at i t ops = 0"
  shows "\<not> is_occupied (cap_run t ops ! i)"
  using assms
proof (induction ops arbitrary: t)
  case (Cons op ops)
  then show ?case
    using step_occupied [of t i op] table_inv_step [of t op] by (auto split: if_splits)
qed simp

text \<open>
  C11. A revoked capability stays dead: whatever grants and revocations follow, and for every
  kind, permission mask and degrade level, dereferencing the old handle is refused as stale
  as long as fewer than 255 of the later grants reuse its slot.
\<close>

theorem revoked_handle_stays_stale:
  assumes inv: "table_inv t" and live: "cap_get level t T h need \<noteq> Inl Stale"
    and few: "grants_at (unat (handle_slot h)) (cap_revoke t h) ops < 255"
  shows "cap_get level' (cap_run (cap_revoke t h) ops) T' h need' = Inl Stale"
proof -
  let ?i = "unat (handle_slot h)" and ?t = "cap_revoke t h"
  let ?n = "grants_at ?i ?t ops"
  have i: "?i < 256" "\<not> handle_is_null h" "is_occupied (t ! ?i)"
    "cs_generation (t ! ?i) = handle_generation h"
    using live by (auto simp: cap_get_Stale_iff Let_def)
  have t: "?t = t[?i := cleared_slot (t ! ?i)]"
    using i by (simp add: cap_revoke_eq Let_def)
  have inv': "table_inv ?t"
    using inv by (rule table_inv_revoke)
  have gen: "cs_generation (?t ! ?i) = handle_generation h" "\<not> is_occupied (?t ! ?i)"
    using i inv by (simp_all add: t table_inv_length)
  have g0: "handle_generation h \<noteq> 0"
    using table_inv_generation [OF inv i(1) i(3)] i(4) by simp
  show ?thesis
  proof (cases "?n = 0")
    case True
    then show ?thesis
      using run_free [OF inv' i(1) gen(2)] by (simp add: cap_get_Stale_iff Let_def)
  next
    case False
    then have "\<not> 255 dvd ?n"
      using few by (auto dest: dvd_imp_le)
    then have "cs_generation (cap_run ?t ops ! ?i) \<noteq> handle_generation h"
      using next_generation_cycle [OF g0] run_generation [OF inv' i(1), of ops] gen(1) by simp
    then show ?thesis
      by (simp add: cap_get_Stale_iff Let_def)
  qed
qed

theorem revoked_handle_stays_stale_witness:
  "cap_get 0 (cap_run (cap_revoke (snd (grant_raw table_empty KChannel 3 7)) 0x13010000)
     [OpGrant KChannel 3 9]) KChannel 0x13010000 1 = Inl Stale"
proof (rule revoked_handle_stays_stale [where level = 0 and T = KChannel and need = 1])
  show "table_inv (snd (grant_raw table_empty KChannel 3 7))"
    by (simp add: table_inv_grant)
  show "cap_get 0 (snd (grant_raw table_empty KChannel 3 7)) KChannel 0x13010000 1 \<noteq> Inl Stale"
    by code_simp
  show "grants_at (unat (handle_slot 0x13010000))
     (cap_revoke (snd (grant_raw table_empty KChannel 3 7)) 0x13010000) [OpGrant KChannel 3 9] < 255"
    by simp
qed

section \<open>Generations wrap around\<close>

definition only_slot0 :: "u8 \<Rightarrow> CapTable" where
  "only_slot0 g = table_empty[0 := slot_EMPTY\<lparr>cs_generation := g\<rparr>]"

primrec regrant_rounds :: "nat \<Rightarrow> u8 \<Rightarrow> u32 \<Rightarrow> cap_op list" where
  "regrant_rounds 0 g r = []"
| "regrant_rounds (Suc n) g r =
     OpGrant KChannel PERM_RW r # OpRevoke (pack KChannel PERM_RW (next_generation g) 0)
     # regrant_rounds n (next_generation g) r"

lemma only_slot0_free: "free_slot is_occupied (only_slot0 g) = Some 0" "length (only_slot0 g) = 256"
  by (simp_all add: only_slot0_def free_slot_Some table_empty_def MAX_CAPS_PER_TASK_def
      is_occupied_def slot_EMPTY_def)

lemma only_slot0_grant:
  "grant_raw (only_slot0 g) KChannel PERM_RW r =
     (Some (pack KChannel PERM_RW (next_generation g) 0),
      table_empty[0 := granted_slot (KChannel, PERM_RW, r) (slot_EMPTY\<lparr>cs_generation := g\<rparr>)])"
  by (simp add: grant_raw_eq only_slot0_free)
    (simp add: only_slot0_def table_empty_def MAX_CAPS_PER_TASK_def granted_slot_def)

lemma only_slot0_round:
  "cap_revoke (snd (grant_raw (only_slot0 g) KChannel PERM_RW r))
     (pack KChannel PERM_RW (next_generation g) 0) = only_slot0 (next_generation g)"
  by (simp add: only_slot0_grant cap_revoke_eq)
    (simp add: only_slot0_def table_empty_def MAX_CAPS_PER_TASK_def granted_slot_def
      cleared_slot_def is_occupied_def slot_EMPTY_def PERM_NONE_def)

lemma regrant_rounds_run:
  "cap_run (only_slot0 g) (regrant_rounds n g r) = only_slot0 ((next_generation ^^ n) g)"
  by (induction n arbitrary: g) (simp_all add: only_slot0_round funpow_swap1)

text \<open>
  C40. The bound of 255 is sharp: there is a history in which a handle to channel 7 is revoked,
  its slot is granted and revoked 254 times and then granted once more for channel 9, and the
  revoked handle opens channel 9.
\<close>

theorem generation_wrap_revives_handle:
  "fst (grant_raw table_empty KChannel PERM_RW 7) = Some (pack KChannel PERM_RW 1 0)
   \<and> (let t = cap_revoke (snd (grant_raw table_empty KChannel PERM_RW 7)) (pack KChannel PERM_RW 1 0)
      in cap_get 0 (cap_run t (regrant_rounds 254 1 9 @ [OpGrant KChannel PERM_RW 9]))
           KChannel (pack KChannel PERM_RW 1 0) PERM_READ = Inr 9)"
proof -
  have empty: "table_empty = only_slot0 0"
    by (rule nth_equalityI)
      (auto simp: only_slot0_def table_empty_def MAX_CAPS_PER_TASK_def slot_EMPTY_def nth_list_update)
  have g1: "next_generation 0 = 1"
    by (simp add: next_generation_def)
  have "next_generation ((next_generation ^^ 254) 1) = (next_generation ^^ 255) 1"
    by (metis Suc_numeral comp_apply funpow.simps(2) semiring_norm(5))
  then have g255: "next_generation ((next_generation ^^ 254) 1) = 1"
    using next_generation_cycle [of 1 255] by simp
  have "cap_get 0 (snd (grant_raw (only_slot0 ((next_generation ^^ 254) 1)) KChannel PERM_RW 9))
      KChannel (pack KChannel PERM_RW 1 0) PERM_READ = Inr 9"
    unfolding only_slot0_grant g255
    by (simp add: cap_get_Inr_iff table_empty_def MAX_CAPS_PER_TASK_def is_occupied_def
        granted_slot_def g255 perms_contains_def perms_defs)
  then show ?thesis
    unfolding empty using only_slot0_round [of 0 7]
    by (simp add: only_slot0_grant g1 regrant_rounds_run)
qed

section \<open>Authority comes from grants\<close>

definition grants_cover :: "cap_op list \<Rightarrow> CapTable \<Rightarrow> bool" where
  "grants_cover ops t \<longleftrightarrow>
     (\<forall>s\<in>set t. is_occupied s \<longrightarrow> OpGrant (cs_kind s) (cs_perms s) (cs_resource s) \<in> set ops)"

lemma grants_cover_step:
  assumes "table_inv t" "grants_cover ops t"
  shows "grants_cover (ops @ [op]) (cap_step t op)"
  using assms
  by (cases op)
    (auto simp: grants_cover_def grant_raw_eq table_inv_length cap_revoke_eq Let_def
      split: option.splits dest!: set_update_subset_insert [THEN subsetD])

lemma grants_cover_run: "grants_cover ops (cap_run table_empty ops)"
proof (induction ops rule: rev_induct)
  case Nil
  then show ?case
    by (simp add: grants_cover_def table_empty_def slot_EMPTY_def is_occupied_def)
next
  case (snoc op ops)
  then show ?case
    using grants_cover_step [OF table_inv_run [OF table_inv_empty]] by simp
qed

text \<open>
  C13. A table never yields authority that was not granted into it: if a handle dereferences to
  a resource after any history of grants and revocations from the empty table, the history
  contains a grant of that kind on that resource with at least the permissions asked for.
\<close>

theorem authority_from_grant:
  assumes "cap_get level (cap_run table_empty ops) T h need = Inr r"
  shows "\<exists>p. OpGrant T p r \<in> set ops \<and> perms_contains p need"
proof -
  let ?t = "cap_run table_empty ops" and ?i = "unat (handle_slot h)"
  have "?i < length ?t" "is_occupied (?t ! ?i)" "cs_kind (?t ! ?i) = T"
    "perms_contains (cs_perms (?t ! ?i)) need" "cs_resource (?t ! ?i) = r"
    using assms table_inv_length [OF table_inv_run [OF table_inv_empty, of ops]]
    by (auto simp: cap_get_Inr_iff Let_def)
  then show ?thesis
    using grants_cover_run [of ops] nth_mem [of ?i ?t] by (auto simp: grants_cover_def)
qed

theorem authority_from_grant_witness:
  "\<exists>p. OpGrant KMotor p 1 \<in> set [OpGrant KMotor 3 1] \<and> perms_contains p 2"
  by (rule authority_from_grant [where level = 0 and h = "0xB3010000"]) code_simp

end
