(* ===== verification/Cap_Gate.thy ===== *)
theory Cap_Gate
  imports Cap_Table
begin

text \<open>
  The contract of the typed \<open>*_cap\<close> entry points: an operation that dereferences a capability
  of a fixed kind with a fixed permission mask before it touches the resource named by the
  slot.  \<open>view\<close> is the state of one resource.  From the two laws of the interface, that a failed
  dereference changes nothing and that a successful one changes only the resource it returned,
  follows the confinement of every sequence of such calls to the resources the table holds.
\<close>

definition table_holds :: "CapTable \<Rightarrow> CapKind \<Rightarrow> CapPerms \<Rightarrow> u32 \<Rightarrow> bool" where
  "table_holds t T need r \<longleftrightarrow>
     (\<exists>s\<in>set t. is_occupied s \<and> cs_kind s = T \<and> perms_contains (cs_perms s) need \<and> cs_resource s = r)"

lemma cap_get_holds:
  assumes "length t = 256" "cap_get level t T h need = Inr r"
  shows "table_holds t T need r"
proof -
  have "t ! unat (handle_slot h) \<in> set t"
    using assms by (auto simp: cap_get_Inr_iff Let_def)
  then show ?thesis
    using assms(2) unfolding table_holds_def cap_get_Inr_iff Let_def by blast
qed

lemma cap_get_contained:
  "degraded_active level \<Longrightarrow> perms_contains need PERM_WRITE \<Longrightarrow> \<exists>e. cap_get level t T h need = Inl e"
  by (auto simp: cap_get_def Let_def)

fun gate_run ::
  "('h \<Rightarrow> 'a \<Rightarrow> 'st \<Rightarrow> 'o \<times> 'st) \<Rightarrow> 'st \<Rightarrow> ('h \<times> 'a) list \<Rightarrow> 'st" where
  "gate_run op st [] = st"
| "gate_run op st ((h, a) # calls) = gate_run op (snd (op h a st)) calls"

locale resource_gate =
  fixes target :: CapKind
    and need :: CapPerms
    and op :: "u8 \<Rightarrow> CapTable \<Rightarrow> CapHandle \<Rightarrow> 'a \<Rightarrow> 'st \<Rightarrow> ('e + 'o) \<times> 'st"
    and view :: "'st \<Rightarrow> u32 \<Rightarrow> 'v"
  assumes refuse: "cap_get level t target h need = Inl e \<Longrightarrow> \<exists>e'. op level t h a st = (Inl e', st)"
    and footprint: "cap_get level t target h need = Inr r \<Longrightarrow> r' \<noteq> r \<Longrightarrow>
      view (snd (op level t h a st)) r' = view st r'"
begin

lemma success_authorised:
  assumes "length t = 256" "op level t h a st = (Inr x, st')"
  shows "\<exists>r. cap_get level t target h need = Inr r \<and> table_holds t target need r"
  using assms refuse [of level t h _ a st] cap_get_holds
  by (cases "cap_get level t target h need") auto

lemma change_authorised:
  assumes "length t = 256" "view (snd (op level t h a st)) r \<noteq> view st r"
  shows "table_holds t target need r"
proof (cases "cap_get level t target h need")
  case (Inl e)
  then show ?thesis
    using refuse [OF Inl, of a st] assms(2) by auto
next
  case (Inr r')
  then show ?thesis
    using footprint [OF Inr, of r a st] cap_get_holds [OF assms(1) Inr] assms(2) by auto
qed

lemma run_confined:
  assumes "length t = 256" "\<not> table_holds t target need r"
  shows "view (gate_run (op level t) st calls) r = view st r"
proof (induction calls arbitrary: st)
  case (Cons c calls)
  obtain h a where c: "c = (h, a)"
    by fastforce
  have "view (snd (op level t h a st)) r = view st r"
    using change_authorised [OF assms(1)] assms(2) by blast
  then show ?case
    using Cons c by simp
qed simp

lemma run_contained:
  assumes "degraded_active level" "perms_contains need PERM_WRITE"
  shows "gate_run (op level t) st calls = st"
proof (induction calls arbitrary: st)
  case (Cons c calls)
  obtain h a where c: "c = (h, a)"
    by fastforce
  obtain e where "cap_get level t target h need = Inl e"
    using cap_get_contained [OF assms] by blast
  then show ?case
    using refuse [of level t h e a st] Cons c by auto
qed simp

end

end
