(* ===== verification/Channels.thy ===== *)
theory Channels
  imports Bounded_Fifo Slot_Table Cap_Gate
begin

text \<open>
  The message channels of \<open>crates/ipc/src/channel.rs\<close>: a pool of channels, each a ring of
  eight messages of at most 64 bytes, with the owner that may receive and destroy.  The pool
  is a list whose length is the configured \<open>MAX_CHANNELS\<close>; \<open>caller_ctx\<close>, the TID of the caller
  and whether it is a kernel task, is an argument of the operations that read it.
\<close>

definition MSG_MAX_LEN :: nat where "MSG_MAX_LEN = 64"

definition RING_CAP :: nat where "RING_CAP = 8"

record Message =
  msg_data :: "u8 list"
  msg_len :: u16

datatype ChannelState = ChFree | ChActive

record Channel =
  ch_state :: ChannelState
  ch_ring :: "Message list"
  ch_head :: u32
  ch_tail :: u32
  ch_tx_count :: u32
  ch_rx_count :: u32
  ch_owner :: u32

type_synonym ChannelPool = "Channel list"

definition message_zeroed :: Message where
  "message_zeroed = \<lparr>msg_data = replicate MSG_MAX_LEN 0, msg_len = 0\<rparr>"

definition channel_zeroed :: Channel where
  "channel_zeroed =
     \<lparr>ch_state = ChFree, ch_ring = replicate RING_CAP message_zeroed, ch_head = 0, ch_tail = 0,
      ch_tx_count = 0, ch_rx_count = 0, ch_owner = 0\<rparr>"

definition ch_count :: "Channel \<Rightarrow> nat" where
  "ch_count c =
     (let t = unat (ch_tail c); h = unat (ch_head c)
      in if t \<ge> h then t - h else RING_CAP - h + t)"

definition ch_is_full :: "Channel \<Rightarrow> bool" where
  "ch_is_full c \<longleftrightarrow> (ch_tail c + 1) mod of_nat RING_CAP = ch_head c"

definition ch_is_empty :: "Channel \<Rightarrow> bool" where
  "ch_is_empty c \<longleftrightarrow> ch_head c = ch_tail c"

definition channel_pool_new :: "nat \<Rightarrow> ChannelPool" where
  "channel_pool_new max_channels = replicate max_channels channel_zeroed"

definition channel_create :: "u32 \<Rightarrow> ChannelPool \<Rightarrow> nat option \<times> ChannelPool" where
  "channel_create caller pool =
     (case first_idx (\<lambda>c. ch_state c = ChFree) pool of
        None \<Rightarrow> (None, pool)
      | Some i \<Rightarrow>
          (Some i, pool[i := channel_zeroed\<lparr>ch_state := ChActive, ch_owner := caller\<rparr>]))"

definition channel_owner :: "ChannelPool \<Rightarrow> nat \<Rightarrow> u32 option" where
  "channel_owner pool ch =
     (if ch \<ge> length pool then None
      else if ch_state (pool ! ch) = ChActive then Some (ch_owner (pool ! ch)) else None)"

text \<open>The part of \<open>channel_send\<close> that stores a message, and of \<open>recv_core\<close> that takes one.\<close>

definition ch_put :: "u8 list \<Rightarrow> Channel \<Rightarrow> Channel" where
  "ch_put data c =
     (let slot = unat (ch_tail c); dst = ch_ring c ! slot
      in c\<lparr>ch_ring := (ch_ring c)[slot := \<lparr>msg_data = copy_at (msg_data dst) 0 data,
                                          msg_len = of_nat (length data)\<rparr>],
           ch_tail := (ch_tail c + 1) mod of_nat RING_CAP,
           ch_tx_count := ch_tx_count c + 1\<rparr>)"

definition ch_take :: "u8 list \<Rightarrow> Channel \<Rightarrow> nat \<times> u8 list \<times> Channel" where
  "ch_take buf c =
     (let msg = ch_ring c ! unat (ch_head c);
          n = min (unat (msg_len msg)) (length buf)
      in (n, copy_at buf 0 (take n (msg_data msg)),
          c\<lparr>ch_head := (ch_head c + 1) mod of_nat RING_CAP, ch_rx_count := ch_rx_count c + 1\<rparr>))"

definition channel_send :: "ChannelPool \<Rightarrow> nat \<Rightarrow> u8 list \<Rightarrow> int \<times> ChannelPool" where
  "channel_send pool ch data =
     (if ch \<ge> length pool \<or> length data > MSG_MAX_LEN then (-1, pool)
      else let chan = pool ! ch in
        if ch_state chan \<noteq> ChActive then (-1, pool)
        else if ch_is_full chan then (-1, pool)
        else (0, pool[ch := ch_put data chan]))"

definition recv_core ::
  "ChannelPool \<Rightarrow> nat \<Rightarrow> u8 list \<Rightarrow> u32 option \<Rightarrow> int \<times> u8 list \<times> ChannelPool" where
  "recv_core pool ch buf gate =
     (if ch \<ge> length pool then (-1, buf, pool)
      else let chan = pool ! ch in
        if ch_state chan \<noteq> ChActive then (-1, buf, pool)
        else if (case gate of Some caller \<Rightarrow> ch_owner chan \<noteq> caller | None \<Rightarrow> False)
        then (-1, buf, pool)
        else if ch_is_empty chan then (0, buf, pool)
        else (case ch_take buf chan of (n, buf', chan') \<Rightarrow> (int n, buf', pool[ch := chan'])))"

definition channel_recv ::
  "u32 \<times> bool \<Rightarrow> ChannelPool \<Rightarrow> nat \<Rightarrow> u8 list \<Rightarrow> int \<times> u8 list \<times> ChannelPool" where
  "channel_recv ctx pool ch buf =
     (case ctx of (caller, privileged) \<Rightarrow>
        recv_core pool ch buf (if privileged then None else Some caller))"

definition channel_destroy :: "u32 \<times> bool \<Rightarrow> ChannelPool \<Rightarrow> nat \<Rightarrow> int \<times> ChannelPool" where
  "channel_destroy ctx pool ch =
     (case ctx of (caller, privileged) \<Rightarrow>
        if ch \<ge> length pool then (-1, pool)
        else if \<not> privileged \<and> ch_state (pool ! ch) = ChActive \<and> ch_owner (pool ! ch) \<noteq> caller
        then (-1, pool)
        else (0, pool[ch := channel_zeroed]))"

section \<open>Typed entry points\<close>

datatype ChannelCapError = ChCap CapError | ChClosed | ChFull | ChEmpty | ChBadArg

definition channel_send_cap ::
  "u8 \<Rightarrow> CapTable \<Rightarrow> CapHandle \<Rightarrow> u8 list \<Rightarrow> ChannelPool \<Rightarrow> (ChannelCapError + unit) \<times> ChannelPool"
where
  "channel_send_cap level table cap data pool =
     (if length data > MSG_MAX_LEN then (Inl ChBadArg, pool)
      else case cap_get level table KChannel cap PERM_WRITE of
        Inl e \<Rightarrow> (Inl (ChCap e), pool)
      | Inr r \<Rightarrow>
          (case channel_send pool (unat r) data of
             (rc, pool') \<Rightarrow>
               if rc = 0 then (Inr (), pool')
               else if unat r \<ge> length pool' \<or> ch_state (pool' ! unat r) \<noteq> ChActive
               then (Inl ChClosed, pool')
               else (Inl ChFull, pool')))"

definition channel_recv_cap ::
  "u8 \<Rightarrow> CapTable \<Rightarrow> CapHandle \<Rightarrow> u8 list \<Rightarrow> ChannelPool
   \<Rightarrow> (ChannelCapError + nat \<times> u8 list) \<times> ChannelPool"
where
  "channel_recv_cap level table cap buf pool =
     (case cap_get level table KChannel cap PERM_READ of
        Inl e \<Rightarrow> (Inl (ChCap e), pool)
      | Inr r \<Rightarrow>
          (case recv_core pool (unat r) buf None of
             (n, buf', pool') \<Rightarrow>
               if n > 0 then (Inr (nat n, buf'), pool')
               else if n = 0 then (Inl ChEmpty, pool')
               else (Inl ChClosed, pool')))"

section \<open>The ring\<close>

definition msg_bytes :: "Message \<Rightarrow> u8 list" where
  "msg_bytes m = take (unat (msg_len m)) (msg_data m)"

definition message_ok :: "Message \<Rightarrow> bool" where
  "message_ok m \<longleftrightarrow> length (msg_data m) = MSG_MAX_LEN \<and> unat (msg_len m) \<le> MSG_MAX_LEN"

definition channel_inv :: "Channel \<Rightarrow> bool" where
  "channel_inv c \<longleftrightarrow> length (ch_ring c) = RING_CAP \<and> list_all message_ok (ch_ring c)
     \<and> unat (ch_head c) < RING_CAP \<and> unat (ch_tail c) < RING_CAP"

definition ch_contents :: "Channel \<Rightarrow> u8 list list" where
  "ch_contents c = map msg_bytes (ring_contents (ch_ring c) (unat (ch_head c)) (ch_count c))"

lemma length_ch_contents [simp]: "length (ch_contents c) = ch_count c"
  by (simp add: ch_contents_def)

lemma next_pos:
  fixes w :: u32
  assumes "unat w < RING_CAP"
  shows "unat ((w + 1) mod of_nat RING_CAP) = Suc (unat w) mod RING_CAP"
    and "unat ((w + 1) mod of_nat RING_CAP) < RING_CAP"
  using assms by (simp_all add: RING_CAP_def unat_mod unat_word_ariths)

lemma ch_tail_pos:
  "channel_inv c \<Longrightarrow> (unat (ch_head c) + ch_count c) mod RING_CAP = unat (ch_tail c)"
  by (auto simp: channel_inv_def ch_count_def RING_CAP_def Let_def)

lemma ch_count_less: "channel_inv c \<Longrightarrow> ch_count c < RING_CAP"
  by (auto simp: channel_inv_def ch_count_def RING_CAP_def Let_def)

lemma ch_is_empty_count: "channel_inv c \<Longrightarrow> ch_is_empty c \<longleftrightarrow> ch_count c = 0"
  by (auto simp: channel_inv_def ch_count_def RING_CAP_def Let_def ch_is_empty_def word_unat_eq_iff)

lemma ch_is_full_count:
  assumes "channel_inv c"
  shows "ch_is_full c \<longleftrightarrow> ch_count c = 7"
  using assms next_pos(1) [of "ch_tail c"]
  by (auto simp: channel_inv_def ch_count_def RING_CAP_def Let_def ch_is_full_def word_unat_eq_iff
      mod_Suc split: if_splits)

definition chan_push :: "u8 list \<Rightarrow> Channel \<Rightarrow> Channel option" where
  "chan_push data c =
     (if length data > MSG_MAX_LEN \<or> ch_is_full c then None else Some (ch_put data c))"

definition chan_pop :: "Channel \<Rightarrow> (u8 list \<times> Channel) option" where
  "chan_pop c =
     (if ch_is_empty c then None
      else case ch_take (replicate MSG_MAX_LEN 0) c of (n, buf, c') \<Rightarrow> Some (take n buf, c'))"

lemma channel_inv_zeroed [simp]: "channel_inv channel_zeroed"
  by (simp add: channel_inv_def channel_zeroed_def message_zeroed_def message_ok_def MSG_MAX_LEN_def
      RING_CAP_def list_all_length)

lemma ch_count_step:
  fixes h t :: u32
  assumes "unat h < RING_CAP" "unat t < RING_CAP" "ch_head c = h" "ch_tail c = t"
  shows "ch_count c < 7 \<Longrightarrow> ch_count (c\<lparr>ch_tail := (t + 1) mod of_nat RING_CAP\<rparr>) = Suc (ch_count c)"
    and "ch_count c \<noteq> 0 \<Longrightarrow> Suc (ch_count (c\<lparr>ch_head := (h + 1) mod of_nat RING_CAP\<rparr>)) = ch_count c"
  using assms next_pos(1) [OF assms(1)] next_pos(1) [OF assms(2)]
  by (auto simp: ch_count_def Let_def RING_CAP_def mod_Suc split: if_splits)

lemma ch_count_cong [simp]:
  "ch_count (c\<lparr>ch_ring := r, ch_tail := t, ch_tx_count := x\<rparr>) = ch_count (c\<lparr>ch_tail := t\<rparr>)"
  "ch_count (c\<lparr>ch_head := h, ch_rx_count := x\<rparr>) = ch_count (c\<lparr>ch_head := h\<rparr>)"
  "ch_count (c\<lparr>ch_state := s, ch_owner := w\<rparr>) = ch_count c"
  by (simp_all add: ch_count_def)

lemma msg_bytes_put:
  "length (msg_data m) = MSG_MAX_LEN \<Longrightarrow> length data \<le> MSG_MAX_LEN \<Longrightarrow>
     message_ok \<lparr>msg_data = copy_at (msg_data m) 0 data, msg_len = of_nat (length data)\<rparr>
     \<and> msg_bytes \<lparr>msg_data = copy_at (msg_data m) 0 data, msg_len = of_nat (length data)\<rparr> = data"
  by (auto simp: message_ok_def msg_bytes_def MSG_MAX_LEN_def copy_at_def unsigned_of_nat
      take_bit_nat_eq_self)

lemma ch_put_refines:
  assumes inv: "channel_inv c" and len: "length data \<le> MSG_MAX_LEN" and nf: "\<not> ch_is_full c"
  shows "channel_inv (ch_put data c)" and "ch_contents (ch_put data c) = ch_contents c @ [data]"
proof -
  let ?m = "ch_ring c ! unat (ch_tail c)"
  let ?m' = "\<lparr>msg_data = copy_at (msg_data ?m) 0 data, msg_len = of_nat (length data)\<rparr>"
  have pos: "unat (ch_head c) < RING_CAP" "unat (ch_tail c) < RING_CAP" "length (ch_ring c) = RING_CAP"
    using inv by (simp_all add: channel_inv_def)
  have cnt: "ch_count c < 7"
    using ch_count_less [OF inv] nf ch_is_full_count [OF inv] by (simp add: RING_CAP_def)
  have m: "message_ok ?m'" "msg_bytes ?m' = data"
    using msg_bytes_put [of ?m data] inv pos len
    by (auto simp: channel_inv_def list_all_length message_ok_def)
  show "channel_inv (ch_put data c)"
    using inv pos m(1) next_pos(2) [OF pos(2)]
    by (auto simp: channel_inv_def ch_put_def Let_def list_all_iff
        dest!: set_update_subset_insert [THEN subsetD])
  have tail: "unat (ch_tail c) = (unat (ch_head c) + ch_count c) mod length (ch_ring c)"
    using ch_tail_pos [OF inv] pos(3) by simp
  have "ch_contents (ch_put data c) =
      map msg_bytes (ring_contents ((ch_ring c)[unat (ch_tail c) := ?m']) (unat (ch_head c)) (Suc (ch_count c)))"
    using ch_count_step(1) [OF pos(1,2) refl refl cnt] by (simp add: ch_contents_def ch_put_def Let_def)
  also have "\<dots> = map msg_bytes (ring_contents (ch_ring c) (unat (ch_head c)) (ch_count c) @ [?m'])"
    unfolding tail using cnt pos(3) by (subst ring_contents_push) (simp_all add: RING_CAP_def)
  finally show "ch_contents (ch_put data c) = ch_contents c @ [data]"
    using m(2) by (simp add: ch_contents_def)
qed

lemma ch_take_refines:
  assumes inv: "channel_inv c" and ne: "\<not> ch_is_empty c" and tk: "ch_take buf c = (n, buf', c')"
  shows "channel_inv c'" and "ch_contents c = hd (ch_contents c) # ch_contents c'"
    and "n = min (length (hd (ch_contents c))) (length buf)"
    and "buf' = copy_at buf 0 (take n (hd (ch_contents c)))"
proof -
  let ?m = "ch_ring c ! unat (ch_head c)"
  have pos: "unat (ch_head c) < RING_CAP" "unat (ch_tail c) < RING_CAP" "length (ch_ring c) = RING_CAP"
    using inv by (simp_all add: channel_inv_def)
  have c': "c' = c\<lparr>ch_head := (ch_head c + 1) mod of_nat RING_CAP, ch_rx_count := ch_rx_count c + 1\<rparr>"
    using tk by (simp add: ch_take_def Let_def)
  show "channel_inv c'"
    using inv next_pos(2) [OF pos(1)] by (simp add: channel_inv_def c')
  have cnt: "ch_count c = Suc (ch_count c')"
    using ch_count_step(2) [OF pos(1,2) refl refl] ne ch_is_empty_count [OF inv] by (simp add: c')
  have cons: "ch_contents c = msg_bytes ?m # ch_contents c'"
    unfolding ch_contents_def cnt ring_contents_pop
    using next_pos(1) [OF pos(1)] pos by (simp add: c')
  then show "ch_contents c = hd (ch_contents c) # ch_contents c'"
    by simp
  have ok: "unat (msg_len ?m) \<le> length (msg_data ?m)"
    using inv pos by (simp add: channel_inv_def list_all_length message_ok_def)
  then show n: "n = min (length (hd (ch_contents c))) (length buf)"
    using tk cons by (auto simp: ch_take_def Let_def msg_bytes_def)
  show "buf' = copy_at buf 0 (take n (hd (ch_contents c)))"
    using tk cons ok by (auto simp: ch_take_def Let_def msg_bytes_def min_def)
qed

lemma ch_contents_bound: "channel_inv c \<Longrightarrow> m \<in> set (ch_contents c) \<Longrightarrow> length m \<le> MSG_MAX_LEN"
  by (auto simp: ch_contents_def ring_contents_def channel_inv_def list_all_length message_ok_def
      msg_bytes_def RING_CAP_def min_def MSG_MAX_LEN_def)

lemma chan_pop_Some:
  assumes inv: "channel_inv c" and pop: "chan_pop c = Some (x, c')"
  shows "channel_inv c' \<and> ch_contents c = x # ch_contents c'"
proof -
  obtain n buf where ne: "\<not> ch_is_empty c" and tk: "ch_take (replicate MSG_MAX_LEN 0) c = (n, buf, c')"
    and x: "x = take n buf"
    using pop by (auto simp: chan_pop_def split: if_splits prod.splits)
  note r = ch_take_refines [OF inv ne tk]
  have "hd (ch_contents c) \<in> set (ch_contents c)"
    using r(2) by (metis list.set_intros(1))
  then have "length (hd (ch_contents c)) \<le> MSG_MAX_LEN"
    by (rule ch_contents_bound [OF inv])
  then have "x = hd (ch_contents c)"
    using r(3,4) x by (simp add: copy_at_def)
  then show ?thesis
    using r(1,2) by simp
qed

interpretation chan: bounded_fifo channel_inv ch_contents 7 "\<lambda>m. length m \<le> MSG_MAX_LEN" chan_push chan_pop
proof (unfold_locales, goal_cases)
  case (1 c)
  then show ?case
    using ch_count_less [of c] by (simp add: RING_CAP_def)
next
  case (2 c m)
  then show ?case
    by (auto simp: chan_push_def ch_is_full_count)
next
  case (3 c m c')
  then show ?case
    using ch_put_refines by (auto simp: chan_push_def split: if_splits)
next
  case (4 c)
  then show ?case
    by (auto simp: chan_pop_def ch_is_empty_count simp flip: length_0_conv split: prod.splits)
next
  case (5 c m c')
  then show ?case
    by (rule chan_pop_Some)
qed

section \<open>The pool\<close>

definition channel_busy :: "Channel \<Rightarrow> bool" where
  "channel_busy c \<longleftrightarrow> ch_state c = ChActive"

definition channel_opened :: "u32 \<Rightarrow> Channel \<Rightarrow> Channel" where
  "channel_opened caller c = channel_zeroed\<lparr>ch_state := ChActive, ch_owner := caller\<rparr>"

interpretation chan_pool: slot_pool channel_busy channel_opened "\<lambda>_. True" "\<lambda>_. channel_zeroed"
  by unfold_locales (simp_all add: channel_busy_def channel_opened_def channel_zeroed_def)

lemma channel_create_eq:
  "channel_create caller pool =
     (case free_slot channel_busy pool of
        None \<Rightarrow> (None, pool)
      | Some i \<Rightarrow> (Some i, pool[i := channel_opened caller (pool ! i)]))"
proof -
  have "(\<lambda>c. ch_state c = ChFree) = (\<lambda>c. \<not> channel_busy c)"
    by (rule ext) (metis ChannelState.exhaust ChannelState.distinct(1) channel_busy_def)
  then show ?thesis
    by (simp add: channel_create_def free_slot_def channel_opened_def split: option.split)
qed

definition pool_inv :: "ChannelPool \<Rightarrow> bool" where
  "pool_inv pool \<longleftrightarrow> list_all channel_inv pool"

lemma pool_inv_update: "pool_inv pool \<Longrightarrow> channel_inv c \<Longrightarrow> pool_inv (pool[i := c])"
  by (auto simp: pool_inv_def list_all_iff dest!: set_update_subset_insert [THEN subsetD])

lemma pool_inv_nth: "pool_inv pool \<Longrightarrow> i < length pool \<Longrightarrow> channel_inv (pool ! i)"
  by (simp add: pool_inv_def list_all_length)

lemma channel_inv_opened [simp]: "channel_inv (channel_opened caller c)"
  using channel_inv_zeroed by (simp add: channel_inv_def channel_opened_def)

lemma channel_send_cases:
  assumes "pool_inv pool"
  shows "channel_send pool ch data =
    (if ch < length pool \<and> channel_busy (pool ! ch) \<and> length data \<le> MSG_MAX_LEN
        \<and> length (ch_contents (pool ! ch)) < 7
     then (0, pool[ch := ch_put data (pool ! ch)]) else (-1, pool))"
proof -
  have "ch < length pool \<Longrightarrow> ch_is_full (pool ! ch) \<longleftrightarrow> \<not> ch_count (pool ! ch) < 7"
    using ch_is_full_count ch_count_less [of "pool ! ch"] pool_inv_nth [OF assms]
    by (auto simp: RING_CAP_def)
  then show ?thesis
    by (auto simp: channel_send_def Let_def channel_busy_def)
qed

lemma pool_inv_send: "pool_inv pool \<Longrightarrow> pool_inv (snd (channel_send pool ch data))"
  using chan.push_Some [OF pool_inv_nth, of pool ch data]
  by (auto simp: channel_send_def Let_def chan_push_def intro!: pool_inv_update)

lemma recv_core_cases:
  "recv_core pool ch buf gate =
     (if ch < length pool \<and> channel_busy (pool ! ch)
         \<and> (case gate of Some caller \<Rightarrow> ch_owner (pool ! ch) = caller | None \<Rightarrow> True)
      then if ch_is_empty (pool ! ch) then (0, buf, pool)
           else case ch_take buf (pool ! ch) of (n, buf', c') \<Rightarrow> (int n, buf', pool[ch := c'])
      else (-1, buf, pool))"
  by (auto simp: recv_core_def Let_def channel_busy_def split: option.splits prod.splits)

lemma pool_inv_recv:
  assumes "pool_inv pool" "recv_core pool ch buf gate = (n, buf', pool')"
  shows "pool_inv pool'"
  using assms ch_take_refines(1) [OF pool_inv_nth [OF assms(1)]]
  by (auto simp: recv_core_cases intro: pool_inv_update split: if_splits prod.splits option.splits)

lemma pool_inv_create: "pool_inv pool \<Longrightarrow> pool_inv (snd (channel_create caller pool))"
  by (auto simp: channel_create_eq intro: pool_inv_update split: option.splits)

lemma pool_inv_destroy: "pool_inv pool \<Longrightarrow> pool_inv (snd (channel_destroy ctx pool ch))"
  by (auto simp: channel_destroy_def intro: pool_inv_update split: prod.splits)

lemma ch_put_same [simp]:
  "ch_owner (ch_put d c) = ch_owner c" "channel_busy (ch_put d c) = channel_busy c"
  by (simp_all add: ch_put_def Let_def channel_busy_def)

lemma ch_take_same:
  "ch_take buf c = (n, buf', c') \<Longrightarrow> ch_owner c' = ch_owner c \<and> channel_busy c' = channel_busy c"
  by (auto simp: ch_take_def Let_def channel_busy_def)

section \<open>Histories of one channel\<close>

datatype chan_call =
    CCreate u32 | CSend nat "u8 list" | CRecv "u32 \<times> bool" nat | CDestroy "u32 \<times> bool" nat

text \<open>
  \<open>chan_trace ch\<close> runs calls on the pool and collects, for the channel \<open>ch\<close>, the messages that
  \<open>channel_send\<close> accepted (it returned 0) and those that \<open>channel_recv\<close> handed to a caller with
  a 64-byte buffer (it returned a positive length), with the caller.
\<close>

fun chan_trace ::
  "nat \<Rightarrow> ChannelPool \<Rightarrow> chan_call list
   \<Rightarrow> ChannelPool \<times> u8 list list \<times> ((u32 \<times> bool) \<times> u8 list) list" where
  "chan_trace ch pool [] = (pool, [], [])"
| "chan_trace ch pool (CCreate caller # cs) = chan_trace ch (snd (channel_create caller pool)) cs"
| "chan_trace ch pool (CDestroy ctx k # cs) = chan_trace ch (snd (channel_destroy ctx pool k)) cs"
| "chan_trace ch pool (CSend k data # cs) =
     (case channel_send pool k data of
        (rc, pool') \<Rightarrow>
          (case chan_trace ch pool' cs of
             (q, acc, del) \<Rightarrow> (q, if k = ch \<and> rc = 0 then data # acc else acc, del)))"
| "chan_trace ch pool (CRecv ctx k # cs) =
     (case channel_recv ctx pool k (replicate MSG_MAX_LEN 0) of
        (n, buf, pool') \<Rightarrow>
          (case chan_trace ch pool' cs of
             (q, acc, del) \<Rightarrow>
               (q, acc, if k = ch \<and> n > 0 then (ctx, take (nat n) buf) # del else del)))"

fun may_destroy :: "nat \<Rightarrow> u32 \<Rightarrow> chan_call \<Rightarrow> bool" where
  "may_destroy ch own (CDestroy ctx k) \<longleftrightarrow> k = ch \<and> (snd ctx \<or> fst ctx = own)"
| "may_destroy ch own c \<longleftrightarrow> False"

definition nonempty :: "u8 list list \<Rightarrow> u8 list list" where
  "nonempty ms = filter (\<lambda>m. m \<noteq> []) ms"

definition live_channel :: "nat \<Rightarrow> u32 \<Rightarrow> ChannelPool \<Rightarrow> bool" where
  "live_channel ch own pool \<longleftrightarrow> pool_inv pool \<and> ch < length pool \<and> channel_busy (pool ! ch)
     \<and> ch_owner (pool ! ch) = own"

lemma nonempty_simps [simp]:
  "nonempty [] = []" "nonempty (m # ms) = (if m = [] then nonempty ms else m # nonempty ms)"
  "nonempty (ms @ ms') = nonempty ms @ nonempty ms'"
  by (simp_all add: nonempty_def)

lemma live_create:
  assumes "live_channel ch own pool"
  shows "live_channel ch own (snd (channel_create caller pool))"
    and "snd (channel_create caller pool) ! ch = pool ! ch"
proof -
  show eq: "snd (channel_create caller pool) ! ch = pool ! ch"
    using assms chan_pool.claim_keeps_busy [of pool _ ch caller]
    by (auto simp: channel_create_eq live_channel_def split: option.splits)
  show "live_channel ch own (snd (channel_create caller pool))"
    using assms pool_inv_create [of pool caller] eq
    by (auto simp: live_channel_def channel_create_eq split: option.splits)
qed

lemma live_destroy:
  assumes "live_channel ch own pool" "\<not> may_destroy ch own (CDestroy ctx k)"
  shows "live_channel ch own (snd (channel_destroy ctx pool k))"
    and "snd (channel_destroy ctx pool k) ! ch = pool ! ch"
proof -
  have inv: "pool_inv (snd (channel_destroy ctx pool k))"
    using assms(1) pool_inv_destroy by (simp add: live_channel_def)
  show eq: "snd (channel_destroy ctx pool k) ! ch = pool ! ch"
    using assms
    by (cases "k = ch") (auto simp: live_channel_def channel_destroy_def channel_busy_def case_prod_beta)
  show "live_channel ch own (snd (channel_destroy ctx pool k))"
    using assms(1) inv eq by (auto simp: live_channel_def channel_destroy_def case_prod_beta)
qed

lemma live_send:
  assumes "live_channel ch own pool" "channel_send pool k data = (rc, pool')"
  shows "live_channel ch own pool'"
    and "ch_contents (pool' ! ch) = ch_contents (pool ! ch) @ (if k = ch \<and> rc = 0 then [data] else [])"
proof -
  have inv: "pool_inv pool" "channel_inv (pool ! ch)"
    using assms(1) pool_inv_nth by (auto simp: live_channel_def)
  show "live_channel ch own pool'"
    using assms pool_inv_send [OF inv(1), of k data]
    by (cases "k = ch") (auto simp: live_channel_def channel_send_cases [OF inv(1)] split: if_splits)
  show "ch_contents (pool' ! ch) = ch_contents (pool ! ch) @ (if k = ch \<and> rc = 0 then [data] else [])"
  proof (cases "k = ch \<and> rc = 0")
    case True
    then have "length data \<le> MSG_MAX_LEN" "\<not> ch_is_full (pool ! ch)"
        "pool' = pool[ch := ch_put data (pool ! ch)]"
      using assms(2) by (auto simp: channel_send_def Let_def split: if_splits)
    then show ?thesis
      using ch_put_refines(2) [OF inv(2)] True assms(1) by (simp add: live_channel_def)
  next
    case False
    then show ?thesis
      using assms(2) by (cases "k = ch") (auto simp: channel_send_def Let_def split: if_splits)
  qed
qed

lemma live_recv_other:
  assumes "live_channel ch own pool" "recv_core pool k buf gate = (n, buf', pool')"
  shows "live_channel ch own pool'" and "k \<noteq> ch \<Longrightarrow> pool' ! ch = pool ! ch"
proof -
  have "pool_inv pool'"
    using assms pool_inv_recv by (auto simp: live_channel_def)
  then show "live_channel ch own pool'"
    using assms ch_take_same [of buf "pool ! ch"]
    by (cases "k = ch") (auto simp: live_channel_def recv_core_cases split: if_splits prod.splits)
  show "k \<noteq> ch \<Longrightarrow> pool' ! ch = pool ! ch"
    using assms(2) by (auto simp: recv_core_cases split: if_splits prod.splits)
qed

lemma recv_core_taken:
  assumes "recv_core pool ch buf gate = (n, buf', pool')" "n > 0 \<or> pool' \<noteq> pool"
  obtains m c' where "ch < length pool" "\<not> ch_is_empty (pool ! ch)"
    "ch_take buf (pool ! ch) = (m, buf', c')" "n = int m" "pool' = pool[ch := c']"
    "\<And>caller. gate = Some caller \<Longrightarrow> ch_owner (pool ! ch) = caller"
proof -
  let ?c = "pool ! ch"
  let ?ok = "ch < length pool \<and> channel_busy ?c
    \<and> (case gate of Some caller \<Rightarrow> ch_owner ?c = caller | None \<Rightarrow> True)"
  have ok: "?ok" "\<not> ch_is_empty ?c"
    using assms unfolding recv_core_cases by (simp_all only: split: if_splits) auto
  obtain m b c' where tk: "ch_take buf ?c = (m, b, c')"
    by (metis prod.exhaust)
  have "n = int m" "buf' = b" "pool' = pool[ch := c']"
    using assms(1) ok tk unfolding recv_core_cases by simp_all
  then show thesis
    using that [of m c'] ok tk by (cases gate) simp_all
qed

lemma live_recv:
  assumes live: "live_channel ch own pool"
    and recv: "channel_recv ctx pool ch (replicate MSG_MAX_LEN 0) = (n, buf, pool')"
  shows "nonempty (ch_contents (pool ! ch)) =
      (if n > 0 then [take (nat n) buf] else []) @ nonempty (ch_contents (pool' ! ch))"
    and "n > 0 \<Longrightarrow> snd ctx \<or> fst ctx = own"
proof -
  let ?gate = "if snd ctx then None else Some (fst ctx)"
  have rc: "recv_core pool ch (replicate MSG_MAX_LEN 0) ?gate = (n, buf, pool')"
    using recv by (simp add: channel_recv_def case_prod_beta)
  have inv: "channel_inv (pool ! ch)" and lt: "ch < length pool" and own: "ch_owner (pool ! ch) = own"
    using live pool_inv_nth by (auto simp: live_channel_def)
  show "snd ctx \<or> fst ctx = own" if "n > 0"
  proof -
    have "?gate = Some (fst ctx) \<Longrightarrow> ch_owner (pool ! ch) = fst ctx"
      using that by (rule recv_core_taken [OF rc disjI1]) blast+
    then show ?thesis
      using own by (cases "snd ctx") simp_all
  qed
  show "nonempty (ch_contents (pool ! ch)) =
      (if n > 0 then [take (nat n) buf] else []) @ nonempty (ch_contents (pool' ! ch))"
  proof (cases "n > 0 \<or> pool' \<noteq> pool")
    case True
    obtain m c' where ne: "\<not> ch_is_empty (pool ! ch)"
        and tk: "ch_take (replicate MSG_MAX_LEN 0) (pool ! ch) = (m, buf, c')"
        and n: "n = int m" and p': "pool' = pool[ch := c']"
      by (rule recv_core_taken [OF rc True])
    have "chan_pop (pool ! ch) = Some (take m buf, c')"
      using tk ne by (simp add: chan_pop_def)
    then have pop: "ch_contents (pool ! ch) = take m buf # ch_contents c'"
      using chan_pop_Some [OF inv] by blast
    define x where "x = hd (ch_contents (pool ! ch))"
    have "m \<le> length x" "buf = copy_at (replicate MSG_MAX_LEN 0) 0 (take m x)"
      using ch_take_refines(3,4) [OF inv ne tk] unfolding x_def by auto
    then have "length (take m buf) = m"
      by (simp add: copy_at_def)
    then have "take m buf = [] \<longleftrightarrow> m = 0"
      by (metis length_0_conv)
    then show ?thesis
      unfolding pop using p' lt n by simp
  next
    case False
    then show ?thesis by simp
  qed
qed


definition demo_channels :: ChannelPool where
  "demo_channels = snd (channel_create 5 (channel_pool_new 2))"


text \<open>
  C28. The exact behaviour of a send: it is accepted if and only if the index names a live
  channel, the message has at most 64 bytes and fewer than seven messages are queued; it then
  appends the message to that channel and leaves every other channel alone, and otherwise the
  pool is unchanged and the result is -1.
\<close>

theorem channel_send_accepts_iff:
  assumes "pool_inv pool"
  shows "channel_send pool ch data = (rc, pool') \<Longrightarrow>
    (if ch < length pool \<and> ch_state (pool ! ch) = ChActive \<and> length data \<le> 64
        \<and> length (ch_contents (pool ! ch)) < 7
     then rc = 0 \<and> ch_contents (pool' ! ch) = ch_contents (pool ! ch) @ [data]
          \<and> (\<forall>k. k \<noteq> ch \<longrightarrow> pool' ! k = pool ! k)
     else rc = -1 \<and> pool' = pool)"
  using channel_send_cases [OF assms, of ch data]
    ch_put_refines(2) [OF pool_inv_nth [OF assms], of ch data]
    ch_is_full_count [OF pool_inv_nth [OF assms], of ch]
  by (auto simp: channel_busy_def MSG_MAX_LEN_def split: if_splits)

theorem channel_send_accepts_iff_witness:
  "fst (channel_send demo_channels 0 [7]) = 0 \<and> pool_inv demo_channels"
proof -
  have inv: "pool_inv demo_channels"
    by code_simp
  have "0 < length demo_channels" "ch_state (demo_channels ! 0) = ChActive" "ch_contents (demo_channels ! 0) = []"
    by code_simp+
  then have "fst (channel_send demo_channels 0 [7]) = 0"
    using channel_send_accepts_iff [OF inv, of 0 "[7]" "fst (channel_send demo_channels 0 [7])"
        "snd (channel_send demo_channels 0 [7])"] by simp
  then show ?thesis
    using inv by simp
qed

section \<open>Capability-gated channels\<close>

definition channel_view :: "ChannelPool \<Rightarrow> u32 \<Rightarrow> Channel option" where
  "channel_view pool r = (if unat r < length pool then Some (pool ! unat r) else None)"

lemma channel_send_length [simp]: "length (snd (channel_send pool ch data)) = length pool"
  by (simp add: channel_send_def Let_def)

lemma channel_send_frame: "k \<noteq> ch \<Longrightarrow> snd (channel_send pool ch data) ! k = pool ! k"
  by (simp add: channel_send_def Let_def)

lemma recv_core_frame:
  "recv_core pool ch buf gate = (n, buf', pool') \<Longrightarrow>
     length pool' = length pool \<and> (k \<noteq> ch \<longrightarrow> pool' ! k = pool ! k)"
  by (auto simp: recv_core_cases split: if_splits prod.splits)

interpretation send_gate: resource_gate KChannel PERM_WRITE channel_send_cap channel_view
proof (unfold_locales, goal_cases)
  case (1 level t h e a st)
  then show ?case
    by (auto simp: channel_send_cap_def)
next
  case (2 level t h r r' a st)
  then show ?case
    using channel_send_frame [of "unat r'" "unat r" st a] channel_send_length [of st "unat r" a]
    by (auto simp: channel_send_cap_def channel_view_def word_unat_eq_iff case_prod_beta
        simp del: channel_send_length)
qed

interpretation recv_gate: resource_gate KChannel PERM_READ channel_recv_cap channel_view
proof (unfold_locales, goal_cases)
  case (1 level t h e a st)
  then show ?case
    by (auto simp: channel_recv_cap_def)
next
  case (2 level t h r r' a st)
  then show ?case
    using recv_core_frame [of st "unat r" a None _ _ _ "unat r'"]
    by (cases "recv_core st (unat r) a None")
      (auto simp: channel_recv_cap_def channel_view_def word_unat_eq_iff)
qed

text \<open>
  C18. A task confined to a capability table cannot reach a channel the table does not name:
  every sequence of capability-gated sends leaves a channel without a WRITE capability as it
  was, every sequence of gated receives one without a READ capability, and in contained
  degraded mode no gated send changes any channel.
\<close>

theorem channel_caps_confine:
  assumes "table_inv t"
  shows "(\<not> table_holds t KChannel PERM_WRITE r \<longrightarrow>
      channel_view (gate_run (channel_send_cap level t) pool sends) r = channel_view pool r)
    \<and> (\<not> table_holds t KChannel PERM_READ r \<longrightarrow>
      channel_view (gate_run (channel_recv_cap level t) pool recvs) r = channel_view pool r)
    \<and> (degraded_active level \<longrightarrow> gate_run (channel_send_cap level t) pool sends = pool)"
  using send_gate.run_confined [OF table_inv_length [OF assms]]
    recv_gate.run_confined [OF table_inv_length [OF assms]] send_gate.run_contained
  by auto

theorem channel_caps_confine_witness:
  "channel_view (gate_run (channel_send_cap 0 table_empty) demo_channels [(0x12010000, [1])]) 0
   = channel_view demo_channels 0"
proof -
  have "\<not> table_holds table_empty KChannel PERM_WRITE 0"
    by (simp add: table_holds_def table_empty_def slot_EMPTY_def is_occupied_def)
  then show ?thesis
    using channel_caps_confine [OF table_inv_empty] by blast
qed

text \<open>
  A zero-length message is accepted and later reported as an empty ring: the gated receive
  answers \<open>Empty\<close> although it has consumed the message.
\<close>

lemma empty_message_reads_as_empty:
  assumes "pool_inv pool" "cap_get level t KChannel cap PERM_READ = Inr r"
    and "unat r < length pool" "ch_state (pool ! unat r) = ChActive"
    and "ch_contents (pool ! unat r) = [] # rest"
  shows "\<exists>pool'. channel_recv_cap level t cap buf pool = (Inl ChEmpty, pool')
    \<and> ch_contents (pool' ! unat r) = rest"
proof -
  let ?c = "pool ! unat r"
  have inv: "channel_inv ?c"
    using assms(1,3) by (rule pool_inv_nth)
  have ne: "\<not> ch_is_empty ?c"
    using ch_is_empty_count [OF inv] assms(5) by (metis length_ch_contents list.size(3) list.distinct(1) length_0_conv)
  obtain n buf' c' where tk: "ch_take buf ?c = (n, buf', c')"
    by (metis prod.exhaust)
  have "n = 0" "ch_contents c' = rest"
    using ch_take_refines(2,3) [OF inv ne tk] assms(5) by simp_all
  then show ?thesis
    using assms tk ne by (simp add: channel_recv_cap_def recv_core_cases channel_busy_def)
qed

lemma empty_message_reads_as_empty_witness:
  "\<exists>pool'. channel_recv_cap 0 (snd (grant_raw table_empty KChannel 3 0)) 0x13010000 [0]
       (snd (channel_send demo_channels 0 [])) = (Inl ChEmpty, pool')
     \<and> ch_contents (pool' ! unat (0 :: u32)) = []"
  by (rule empty_message_reads_as_empty) code_simp+

end
