(* ===== verification/Pipes.thy ===== *)
theory Pipes
  imports Bounded_Fifo Slot_Table
begin

text \<open>
  The byte pipes of \<open>crates/ipc/src/pipe.rs\<close>: a pool of rings of 4096 bytes, one slot per
  pipe for both ends, with the owner that may use it.  The pool is a list whose length is the
  configured \<open>MAX_PIPES\<close>; the caller context (TID, kernel task) is an argument.  A raw buffer
  pointer with a count is modelled by whether it is null and the bytes that are transferred.
  The build aborts on arithmetic overflow, so the allocation of a pipe, which increments the
  next identifier, has a panicking outcome.
\<close>

definition PIPE_BUF_SIZE :: nat where "PIPE_BUF_SIZE = 4096"

datatype PipeState = PipeFree | PipeActive | PipeReadClosed | PipeWriteClosed | PipeClosed

record Pipe =
  p_buffer :: "u8 list"
  p_read_pos :: u32
  p_write_pos :: u32
  p_state :: PipeState
  p_readers :: u32
  p_writers :: u32
  p_waiting_readers :: u32
  p_waiting_writers :: u32
  p_id :: u32
  p_owner :: u32

record PipePool =
  pp_pipes :: "Pipe list"
  pp_next_id :: u32

definition pipe_access_ok :: "u32 \<times> bool \<Rightarrow> Pipe \<Rightarrow> bool" where
  "pipe_access_ok ctx p = (case ctx of (caller, privileged) \<Rightarrow> privileged \<or> p_owner p = caller)"

definition pipe_zeroed :: Pipe where
  "pipe_zeroed =
     \<lparr>p_buffer = replicate PIPE_BUF_SIZE 0, p_read_pos = 0, p_write_pos = 0, p_state = PipeFree,
      p_readers = 0, p_writers = 0, p_waiting_readers = 0, p_waiting_writers = 0, p_id = 0,
      p_owner = 0\<rparr>"

definition p_is_empty :: "Pipe \<Rightarrow> bool" where
  "p_is_empty p \<longleftrightarrow> p_read_pos p = p_write_pos p"

definition p_is_full :: "Pipe \<Rightarrow> bool" where
  "p_is_full p \<longleftrightarrow> unat (p_write_pos p + 1) mod PIPE_BUF_SIZE = unat (p_read_pos p)"

definition p_available :: "Pipe \<Rightarrow> nat" where
  "p_available p =
     (let w = unat (p_write_pos p); r = unat (p_read_pos p)
      in if w \<ge> r then w - r else PIPE_BUF_SIZE - r + w)"

definition p_space :: "Pipe \<Rightarrow> nat" where
  "p_space p = PIPE_BUF_SIZE - 1 - p_available p"

definition pipe_pool_new :: "nat \<Rightarrow> PipePool" where
  "pipe_pool_new max_pipes = \<lparr>pp_pipes = replicate max_pipes pipe_zeroed, pp_next_id = 1\<rparr>"

definition pipe_alloc :: "PipePool \<Rightarrow> (nat option \<times> PipePool) outcome" where
  "pipe_alloc pool =
     (case first_idx (\<lambda>p. p_state p = PipeFree) (pp_pipes pool) of
        None \<Rightarrow> Ret (None, pool)
      | Some i \<Rightarrow>
          (case checked_add (pp_next_id pool) 1 of
             None \<Rightarrow> Panic
           | Some n \<Rightarrow>
               Ret (Some i, pool\<lparr>pp_pipes := (pp_pipes pool)
                                   [i := pipe_zeroed\<lparr>p_state := PipeActive, p_id := pp_next_id pool\<rparr>],
                                 pp_next_id := n\<rparr>)))"

definition pipe_init :: "PipePool \<Rightarrow> PipePool" where
  "pipe_init pool = pool\<lparr>pp_pipes := map (\<lambda>p. p\<lparr>p_state := PipeFree, p_id := 0\<rparr>) (pp_pipes pool)\<rparr>"

definition pipe_create :: "u32 \<Rightarrow> PipePool \<Rightarrow> ((nat \<times> nat) option \<times> PipePool) outcome" where
  "pipe_create caller pool =
     (case pipe_alloc pool of
        Panic \<Rightarrow> Panic
      | Ret (None, pool') \<Rightarrow> Ret (None, pool')
      | Ret (Some idx, pool') \<Rightarrow>
          Ret (Some (idx, idx),
               pool'\<lparr>pp_pipes := (pp_pipes pool')
                  [idx := (pp_pipes pool' ! idx)\<lparr>p_readers := 1, p_writers := 1, p_owner := caller\<rparr>]\<rparr>))"

definition pipe_owner :: "PipePool \<Rightarrow> nat \<Rightarrow> u32 option" where
  "pipe_owner pool idx =
     (if idx \<ge> length (pp_pipes pool) then None
      else if p_state (pp_pipes pool ! idx) = PipeFree then None
      else Some (p_owner (pp_pipes pool ! idx)))"

primrec pipe_read_loop :: "nat \<Rightarrow> Pipe \<Rightarrow> u8 list \<times> Pipe" where
  "pipe_read_loop 0 p = ([], p)"
| "pipe_read_loop (Suc n) p =
     (let b = p_buffer p ! (unat (p_read_pos p) mod PIPE_BUF_SIZE);
          p' = p\<lparr>p_read_pos := (p_read_pos p + 1) mod of_nat PIPE_BUF_SIZE\<rparr>
      in case pipe_read_loop n p' of (bs, p'') \<Rightarrow> (b # bs, p''))"

primrec pipe_write_loop :: "u8 list \<Rightarrow> Pipe \<Rightarrow> Pipe" where
  "pipe_write_loop [] p = p"
| "pipe_write_loop (b # bs) p =
     pipe_write_loop bs
       (p\<lparr>p_buffer := (p_buffer p)[unat (p_write_pos p) mod PIPE_BUF_SIZE := b],
          p_write_pos := (p_write_pos p + 1) mod of_nat PIPE_BUF_SIZE\<rparr>)"

definition pipe_read ::
  "u32 \<times> bool \<Rightarrow> PipePool \<Rightarrow> nat \<Rightarrow> bool \<Rightarrow> nat \<Rightarrow> int \<times> u8 list \<times> PipePool" where
  "pipe_read ctx pool idx buf_is_null count =
     (if idx \<ge> length (pp_pipes pool) then (-1, [], pool)
      else if buf_is_null then (-1, [], pool)
      else let pipe = pp_pipes pool ! idx in
        if p_state pipe = PipeFree then (-1, [], pool)
        else if \<not> pipe_access_ok ctx pipe then (-1, [], pool)
        else if p_is_empty pipe
        then (if p_state pipe = PipeWriteClosed \<or> p_state pipe = PipeClosed then 0 else -2, [], pool)
        else let to_read = min count (p_available pipe) in
          (case pipe_read_loop to_read pipe of
             (bs, pipe') \<Rightarrow> (int to_read, bs, pool\<lparr>pp_pipes := (pp_pipes pool)[idx := pipe']\<rparr>)))"

definition pipe_write ::
  "u32 \<times> bool \<Rightarrow> PipePool \<Rightarrow> nat \<Rightarrow> bool \<Rightarrow> u8 list \<Rightarrow> int \<times> PipePool" where
  "pipe_write ctx pool idx buf_is_null data =
     (if idx \<ge> length (pp_pipes pool) then (-1, pool)
      else if buf_is_null then (-1, pool)
      else let pipe = pp_pipes pool ! idx in
        if p_state pipe = PipeFree \<or> p_state pipe = PipeReadClosed \<or> p_state pipe = PipeClosed
        then (-1, pool)
        else if \<not> pipe_access_ok ctx pipe then (-1, pool)
        else let to_write = min (length data) (p_space pipe) in
          (int to_write,
           pool\<lparr>pp_pipes := (pp_pipes pool)[idx := pipe_write_loop (take to_write data) pipe]\<rparr>))"

definition pipe_read_buf ::
  "u32 \<times> bool \<Rightarrow> PipePool \<Rightarrow> nat \<Rightarrow> u8 list \<Rightarrow> int \<times> u8 list \<times> PipePool" where
  "pipe_read_buf ctx pool idx buf =
     (if buf = [] then (0, buf, pool)
      else case pipe_read ctx pool idx False (length buf) of
        (rc, bs, pool') \<Rightarrow> (rc, copy_at buf 0 bs, pool'))"

definition pipe_write_buf :: "u32 \<times> bool \<Rightarrow> PipePool \<Rightarrow> nat \<Rightarrow> u8 list \<Rightarrow> int \<times> PipePool" where
  "pipe_write_buf ctx pool idx buf =
     (if buf = [] then (0, pool) else pipe_write ctx pool idx False buf)"

definition pipe_close_read :: "u32 \<times> bool \<Rightarrow> PipePool \<Rightarrow> nat \<Rightarrow> int \<times> PipePool" where
  "pipe_close_read ctx pool idx =
     (if idx \<ge> length (pp_pipes pool) then (-1, pool)
      else let pipe = pp_pipes pool ! idx in
        if p_state pipe = PipeFree then (-1, pool)
        else if \<not> pipe_access_ok ctx pipe then (-1, pool)
        else let p1 = (if p_readers pipe > 0 then pipe\<lparr>p_readers := p_readers pipe - 1\<rparr> else pipe);
                 p2 = (if p_readers p1 = 0
                       then p1\<lparr>p_state := if p_writers p1 = 0 then PipeClosed else PipeReadClosed\<rparr>
                       else p1)
          in (0, pool\<lparr>pp_pipes := (pp_pipes pool)[idx := p2]\<rparr>))"

definition pipe_close_write :: "u32 \<times> bool \<Rightarrow> PipePool \<Rightarrow> nat \<Rightarrow> int \<times> PipePool" where
  "pipe_close_write ctx pool idx =
     (if idx \<ge> length (pp_pipes pool) then (-1, pool)
      else let pipe = pp_pipes pool ! idx in
        if p_state pipe = PipeFree then (-1, pool)
        else if \<not> pipe_access_ok ctx pipe then (-1, pool)
        else let p1 = (if p_writers pipe > 0 then pipe\<lparr>p_writers := p_writers pipe - 1\<rparr> else pipe);
                 p2 = (if p_writers p1 = 0
                       then p1\<lparr>p_state := if p_readers p1 = 0 then PipeClosed else PipeWriteClosed\<rparr>
                       else p1)
          in (0, pool\<lparr>pp_pipes := (pp_pipes pool)[idx := p2]\<rparr>))"

definition pipe_available :: "u32 \<times> bool \<Rightarrow> PipePool \<Rightarrow> nat \<Rightarrow> nat" where
  "pipe_available ctx pool idx =
     (if idx \<ge> length (pp_pipes pool) then 0
      else if \<not> pipe_access_ok ctx (pp_pipes pool ! idx) then 0
      else p_available (pp_pipes pool ! idx))"

definition pipe_space :: "u32 \<times> bool \<Rightarrow> PipePool \<Rightarrow> nat \<Rightarrow> nat" where
  "pipe_space ctx pool idx =
     (if idx \<ge> length (pp_pipes pool) then 0
      else if \<not> pipe_access_ok ctx (pp_pipes pool ! idx) then 0
      else p_space (pp_pipes pool ! idx))"

section \<open>The ring\<close>

definition pipe_inv :: "Pipe \<Rightarrow> bool" where
  "pipe_inv p \<longleftrightarrow> length (p_buffer p) = PIPE_BUF_SIZE \<and> unat (p_read_pos p) < PIPE_BUF_SIZE
     \<and> unat (p_write_pos p) < PIPE_BUF_SIZE"

definition pipe_contents :: "Pipe \<Rightarrow> u8 list" where
  "pipe_contents p = ring_contents (p_buffer p) (unat (p_read_pos p)) (p_available p)"

definition pipe_push :: "u8 \<Rightarrow> Pipe \<Rightarrow> Pipe option" where
  "pipe_push b p = (if p_is_full p then None else Some (pipe_write_loop [b] p))"

definition pipe_pop :: "Pipe \<Rightarrow> (u8 \<times> Pipe) option" where
  "pipe_pop p =
     (if p_is_empty p then None
      else case pipe_read_loop 1 p of (bs, p') \<Rightarrow> Some (hd bs, p'))"

lemma length_pipe_contents [simp]: "length (pipe_contents p) = p_available p"
  by (simp add: pipe_contents_def)

lemma pipe_next_pos:
  fixes w :: u32
  assumes "unat w < PIPE_BUF_SIZE"
  shows "unat ((w + 1) mod of_nat PIPE_BUF_SIZE) = Suc (unat w) mod PIPE_BUF_SIZE"
    and "unat ((w + 1) mod of_nat PIPE_BUF_SIZE) < PIPE_BUF_SIZE"
    and "unat (w + 1) mod PIPE_BUF_SIZE = Suc (unat w) mod PIPE_BUF_SIZE"
  using assms by (simp_all add: PIPE_BUF_SIZE_def unat_mod unat_word_ariths)

lemma pipe_write_pos:
  "pipe_inv p \<Longrightarrow> (unat (p_read_pos p) + p_available p) mod PIPE_BUF_SIZE = unat (p_write_pos p)"
  by (auto simp: pipe_inv_def p_available_def PIPE_BUF_SIZE_def Let_def)

lemma p_available_less: "pipe_inv p \<Longrightarrow> p_available p < PIPE_BUF_SIZE"
  by (auto simp: pipe_inv_def p_available_def PIPE_BUF_SIZE_def Let_def)

lemma p_is_empty_available: "pipe_inv p \<Longrightarrow> p_is_empty p \<longleftrightarrow> p_available p = 0"
  by (auto simp: pipe_inv_def p_available_def PIPE_BUF_SIZE_def Let_def p_is_empty_def word_unat_eq_iff)

lemma p_is_full_available:
  assumes "pipe_inv p"
  shows "p_is_full p \<longleftrightarrow> p_available p = PIPE_BUF_SIZE - 1"
  using assms pipe_next_pos(3) [of "p_write_pos p"]
  by (auto simp: pipe_inv_def p_available_def PIPE_BUF_SIZE_def Let_def p_is_full_def mod_Suc
      split: if_splits)

lemma p_available_step:
  fixes r w :: u32
  assumes "unat r < PIPE_BUF_SIZE" "unat w < PIPE_BUF_SIZE" "p_read_pos p = r" "p_write_pos p = w"
  shows "p_available p < PIPE_BUF_SIZE - 1 \<Longrightarrow>
      p_available (p\<lparr>p_buffer := b, p_write_pos := (w + 1) mod of_nat PIPE_BUF_SIZE\<rparr>) = Suc (p_available p)"
    and "p_available p \<noteq> 0 \<Longrightarrow>
      Suc (p_available (p\<lparr>p_read_pos := (r + 1) mod of_nat PIPE_BUF_SIZE\<rparr>)) = p_available p"
  using assms pipe_next_pos(1) [OF assms(1)] pipe_next_pos(1) [OF assms(2)]
  by (auto simp: p_available_def Let_def PIPE_BUF_SIZE_def mod_Suc split: if_splits)

lemma pipe_push_byte:
  assumes inv: "pipe_inv p" and nf: "p_available p < PIPE_BUF_SIZE - 1"
  shows "pipe_inv (pipe_write_loop [b] p) \<and> pipe_contents (pipe_write_loop [b] p) = pipe_contents p @ [b]"
proof -
  have pos: "unat (p_read_pos p) < PIPE_BUF_SIZE" "unat (p_write_pos p) < PIPE_BUF_SIZE"
      "length (p_buffer p) = PIPE_BUF_SIZE"
    using inv by (simp_all add: pipe_inv_def)
  have w: "unat (p_write_pos p) mod PIPE_BUF_SIZE
      = (unat (p_read_pos p) + p_available p) mod length (p_buffer p)"
    using pipe_write_pos [OF inv] pos by simp
  have "p_available p < length (p_buffer p)"
    using p_available_less [OF inv] pos by simp
  then have "pipe_contents (pipe_write_loop [b] p) = pipe_contents p @ [b]"
    using p_available_step(1) [OF pos(1,2) refl refl nf] ring_contents_push [of "p_available p" "p_buffer p"]
    by (simp add: pipe_contents_def w)
  then show ?thesis
    using pos pipe_next_pos(2) [OF pos(2)] by (simp add: pipe_inv_def)
qed

lemma pipe_pop_byte:
  assumes inv: "pipe_inv p" and ne: "p_available p \<noteq> 0"
  shows "\<exists>b p'. pipe_read_loop 1 p = ([b], p') \<and> pipe_inv p' \<and> pipe_contents p = b # pipe_contents p'
    \<and> p' = p\<lparr>p_read_pos := (p_read_pos p + 1) mod of_nat PIPE_BUF_SIZE\<rparr>"
proof -
  let ?p = "p\<lparr>p_read_pos := (p_read_pos p + 1) mod of_nat PIPE_BUF_SIZE\<rparr>"
  have pos: "unat (p_read_pos p) < PIPE_BUF_SIZE" "unat (p_write_pos p) < PIPE_BUF_SIZE"
      "length (p_buffer p) = PIPE_BUF_SIZE"
    using inv by (simp_all add: pipe_inv_def)
  have "p_available p = Suc (p_available ?p)"
    using p_available_step(2) [OF pos(1,2) refl refl ne] by simp
  then have "pipe_contents p = p_buffer p ! (unat (p_read_pos p) mod PIPE_BUF_SIZE) # pipe_contents ?p"
    using pipe_next_pos(1) [OF pos(1)] pos by (simp add: pipe_contents_def ring_contents_pop)
  then show ?thesis
    using pos pipe_next_pos(2) [OF pos(1)] by (simp add: pipe_inv_def Let_def)
qed

interpretation pipe: bounded_fifo pipe_inv pipe_contents "PIPE_BUF_SIZE - 1" "\<lambda>_. True" pipe_push pipe_pop
proof (unfold_locales, goal_cases)
  case (1 p)
  then show ?case
    using p_available_less [of p] by simp
next
  case (2 p b)
  then show ?case
    by (simp add: pipe_push_def p_is_full_available)
next
  case (3 p b p')
  then show ?case
    using pipe_push_byte [of p b] p_available_less [of p] p_is_full_available [of p]
    by (auto simp: pipe_push_def simp del: pipe_write_loop.simps split: if_splits)
next
  case (4 p)
  then show ?case
    by (auto simp: pipe_pop_def p_is_empty_available simp flip: length_0_conv split: prod.splits)
next
  case (5 p b p')
  then show ?case
    using pipe_pop_byte [of p] p_is_empty_available [of p]
    by (auto simp: pipe_pop_def simp del: pipe_read_loop.simps split: if_splits)
qed

lemma pipe_read_loop_refines:
  assumes "pipe_inv p" "n \<le> p_available p" "pipe_read_loop n p = (bs, p')"
  shows "pipe_inv p' \<and> pipe_contents p = bs @ pipe_contents p' \<and> length bs = n
    \<and> p_state p' = p_state p \<and> p_owner p' = p_owner p"
  using assms
proof (induction n arbitrary: p bs)
  case 0
  then show ?case by simp
next
  case (Suc n)
  obtain b p1 where 1: "pipe_read_loop 1 p = ([b], p1)" "pipe_inv p1" "pipe_contents p = b # pipe_contents p1"
      "p1 = p\<lparr>p_read_pos := (p_read_pos p + 1) mod of_nat PIPE_BUF_SIZE\<rparr>"
    using pipe_pop_byte [OF Suc.prems(1)] Suc.prems(2) by auto
  have "p_available p = Suc (p_available p1)"
    using 1(3) by (metis length_Cons length_pipe_contents)
  moreover obtain bs' where "pipe_read_loop n p1 = (bs', p')" "bs = b # bs'"
    using Suc.prems(3) 1(1,4) by (auto simp: Let_def split: prod.splits)
  ultimately show ?case
    using Suc.IH [OF 1(2), of bs'] Suc.prems(2) 1(3,4) by simp
qed

lemma pipe_write_loop_refines:
  assumes "pipe_inv p" "length bs \<le> p_space p"
  shows "pipe_inv (pipe_write_loop bs p) \<and> pipe_contents (pipe_write_loop bs p) = pipe_contents p @ bs
    \<and> p_state (pipe_write_loop bs p) = p_state p \<and> p_owner (pipe_write_loop bs p) = p_owner p"
  using assms
proof (induction bs arbitrary: p)
  case Nil
  then show ?case by simp
next
  case (Cons b bs)
  let ?p = "pipe_write_loop [b] p"
  have "p_available p < PIPE_BUF_SIZE - 1"
    using Cons.prems by (simp add: p_space_def)
  then have p: "pipe_inv ?p" "pipe_contents ?p = pipe_contents p @ [b]"
    using pipe_push_byte [OF Cons.prems(1)] by simp_all
  then have "p_available ?p = Suc (p_available p)"
    by (metis length_append_singleton length_pipe_contents)
  then have "length bs \<le> p_space ?p"
    using Cons.prems(2) by (simp add: p_space_def)
  then show ?case
    using Cons.IH [OF p(1)] p(2) by simp
qed

section \<open>The pool\<close>

definition pipe_busy :: "Pipe \<Rightarrow> bool" where
  "pipe_busy p \<longleftrightarrow> p_state p \<noteq> PipeFree"

definition pipe_opened :: "u32 \<times> u32 \<Rightarrow> Pipe \<Rightarrow> Pipe" where
  "pipe_opened req p =
     (case req of (ident, caller) \<Rightarrow>
        pipe_zeroed\<lparr>p_state := PipeActive, p_id := ident, p_readers := 1, p_writers := 1, p_owner := caller\<rparr>)"

interpretation pipe_pool: slot_table pipe_busy pipe_opened "\<lambda>_. True"
  by unfold_locales (simp add: pipe_busy_def pipe_opened_def split: prod.splits)

definition pipe_pool_inv :: "PipePool \<Rightarrow> bool" where
  "pipe_pool_inv pool \<longleftrightarrow> list_all pipe_inv (pp_pipes pool) \<and> length (pp_pipes pool) < 2 ^ 32 - 1
     \<and> unat (pp_next_id pool) = Suc (in_use pipe_busy (pp_pipes pool))"

lemma pipe_inv_zeroed: "pipe_inv pipe_zeroed"
  by (simp add: pipe_inv_def pipe_zeroed_def PIPE_BUF_SIZE_def)

lemma pipe_inv_opened: "pipe_inv (pipe_opened req p)"
  using pipe_inv_zeroed by (simp add: pipe_inv_def pipe_opened_def split: prod.splits)

lemma pipe_busy_zeroed [simp]: "\<not> pipe_busy pipe_zeroed"
  by (simp add: pipe_busy_def pipe_zeroed_def)

lemma pipe_pool_inv_new: "n < 2 ^ 32 - 1 \<Longrightarrow> pipe_pool_inv (pipe_pool_new n)"
  by (simp add: pipe_pool_inv_def pipe_pool_new_def pipe_inv_zeroed list_all_length in_use_def)

lemma pipe_create_eq:
  assumes "pipe_pool_inv pool"
  shows "pipe_create caller pool =
    (case free_slot pipe_busy (pp_pipes pool) of
       None \<Rightarrow> Ret (None, pool)
     | Some i \<Rightarrow> Ret (Some (i, i),
         \<lparr>pp_pipes = (pp_pipes pool)[i := pipe_opened (pp_next_id pool, caller) (pp_pipes pool ! i)],
          pp_next_id = pp_next_id pool + 1\<rparr>))"
proof (cases "free_slot pipe_busy (pp_pipes pool)")
  case None
  then show ?thesis
    by (simp add: pipe_create_def pipe_alloc_def free_slot_def pipe_busy_def)
next
  case (Some i)
  then have i: "i < length (pp_pipes pool)"
    by (simp add: free_slot_Some)
  have fi: "first_idx (\<lambda>p. p_state p = PipeFree) (pp_pipes pool) = Some i"
    using Some by (simp add: free_slot_def pipe_busy_def)
  have "in_use pipe_busy (pp_pipes pool) < length (pp_pipes pool)"
    using Some free_slot_room by blast
  then have "checked_add (pp_next_id pool) 1 = Some (pp_next_id pool + 1)"
    using assms by (simp add: checked_add_def pipe_pool_inv_def)
  then show ?thesis
    using Some i fi by (simp add: pipe_create_def pipe_alloc_def pipe_opened_def)
qed

lemma pipe_pool_inv_update:
  assumes "pipe_pool_inv pool" "pipe_inv p" "i < length (pp_pipes pool)"
    and "pipe_busy p = pipe_busy (pp_pipes pool ! i)"
  shows "pipe_pool_inv (pool\<lparr>pp_pipes := (pp_pipes pool)[i := p]\<rparr>)"
  using assms in_use_update [of i "pp_pipes pool" pipe_busy p]
  by (auto simp: pipe_pool_inv_def list_all_iff dest!: set_update_subset_insert [THEN subsetD])

lemma pipe_pool_inv_nth: "pipe_pool_inv pool \<Longrightarrow> i < length (pp_pipes pool) \<Longrightarrow> pipe_inv (pp_pipes pool ! i)"
  by (simp add: pipe_pool_inv_def list_all_length)

lemma pipe_pool_inv_create:
  assumes inv: "pipe_pool_inv pool" and create: "pipe_create caller pool = Ret (r, pool')"
  shows "pipe_pool_inv pool'"
proof (cases "free_slot pipe_busy (pp_pipes pool)")
  case None
  then show ?thesis
    using assms by (simp add: pipe_create_eq)
next
  case (Some i)
  have "in_use pipe_busy (pp_pipes pool) < length (pp_pipes pool)"
    using Some free_slot_room by blast
  then have "unat (pp_next_id pool + 1) = Suc (unat (pp_next_id pool))"
    using inv by (simp add: pipe_pool_inv_def unat_word_ariths)
  then show ?thesis
    using assms Some pipe_pool.claim_in_use [OF Some, of "(pp_next_id pool, caller)"]
    by (auto simp: pipe_create_eq pipe_pool_inv_def list_all_iff pipe_inv_opened
        dest!: set_update_subset_insert [THEN subsetD])
qed

section \<open>Histories\<close>

datatype pipe_call =
    PCreate u32 | PRead "u32 \<times> bool" nat nat | PWrite "u32 \<times> bool" nat "u8 list"
  | PCloseRead "u32 \<times> bool" nat | PCloseWrite "u32 \<times> bool" nat

text \<open>
  \<open>pipe_trace k\<close> runs calls and collects, for the pipe in slot \<open>k\<close>, the bytes accepted by writes
  and the bytes handed out by reads with their reader; it is undefined after a panic.
\<close>

fun pipe_trace ::
  "nat \<Rightarrow> PipePool \<Rightarrow> pipe_call list
   \<Rightarrow> (PipePool \<times> u8 list \<times> ((u32 \<times> bool) \<times> u8 list) list) outcome" where
  "pipe_trace k pool [] = Ret (pool, [], [])"
| "pipe_trace k pool (PCreate caller # cs) =
     (case pipe_create caller pool of Panic \<Rightarrow> Panic | Ret (r, pool') \<Rightarrow> pipe_trace k pool' cs)"
| "pipe_trace k pool (PCloseRead ctx i # cs) = pipe_trace k (snd (pipe_close_read ctx pool i)) cs"
| "pipe_trace k pool (PCloseWrite ctx i # cs) = pipe_trace k (snd (pipe_close_write ctx pool i)) cs"
| "pipe_trace k pool (PWrite ctx i data # cs) =
     (case pipe_write ctx pool i False data of
        (rc, pool') \<Rightarrow>
          (case pipe_trace k pool' cs of
             Panic \<Rightarrow> Panic
           | Ret (q, acc, del) \<Rightarrow> Ret (q, (if i = k then take (nat rc) data else []) @ acc, del)))"
| "pipe_trace k pool (PRead ctx i count # cs) =
     (case pipe_read ctx pool i False count of
        (rc, bs, pool') \<Rightarrow>
          (case pipe_trace k pool' cs of
             Panic \<Rightarrow> Panic
           | Ret (q, acc, del) \<Rightarrow> Ret (q, acc, if i = k \<and> bs \<noteq> [] then (ctx, bs) # del else del)))"

definition live_pipe :: "nat \<Rightarrow> u32 \<Rightarrow> PipePool \<Rightarrow> bool" where
  "live_pipe k own pool \<longleftrightarrow> pipe_pool_inv pool \<and> k < length (pp_pipes pool)
     \<and> pipe_busy (pp_pipes pool ! k) \<and> p_owner (pp_pipes pool ! k) = own"

lemma live_pipe_update:
  assumes "live_pipe k own pool" "i < length (pp_pipes pool)" "pipe_inv p"
    "pipe_busy p = pipe_busy (pp_pipes pool ! i)" "p_owner p = p_owner (pp_pipes pool ! i)"
  shows "live_pipe k own (pool\<lparr>pp_pipes := (pp_pipes pool)[i := p]\<rparr>)"
  using assms pipe_pool_inv_update [of pool p i]
  by (cases "i = k") (auto simp: live_pipe_def)

lemma live_pipe_create:
  assumes live: "live_pipe k own pool"
  obtains r pool' where "pipe_create caller pool = Ret (r, pool')" "live_pipe k own pool'"
    "pp_pipes pool' ! k = pp_pipes pool ! k"
proof (cases "free_slot pipe_busy (pp_pipes pool)")
  case None
  then show thesis
    using that [of None pool] live by (simp add: pipe_create_eq live_pipe_def)
next
  case (Some i)
  let ?pool = "\<lparr>pp_pipes = (pp_pipes pool)[i := pipe_opened (pp_next_id pool, caller) (pp_pipes pool ! i)],
    pp_next_id = pp_next_id pool + 1\<rparr>"
  have c: "pipe_create caller pool = Ret (Some (i, i), ?pool)"
    using Some live by (simp add: pipe_create_eq live_pipe_def)
  have "i \<noteq> k"
    using pipe_pool.claim_keeps_busy [OF Some, of k] live by (auto simp: live_pipe_def)
  then show thesis
    using that [OF c] pipe_pool_inv_create [OF _ c] live by (simp add: live_pipe_def)
qed

lemma close_pipe:
  assumes "pipe_inv p"
  shows "pipe_inv (p\<lparr>p_readers := x, p_state := s\<rparr>)" "pipe_inv (p\<lparr>p_readers := x\<rparr>)"
    "pipe_inv (p\<lparr>p_writers := x, p_state := s\<rparr>)" "pipe_inv (p\<lparr>p_writers := x\<rparr>)"
    "pipe_inv (p\<lparr>p_state := s\<rparr>)"
  using assms by (simp_all add: pipe_inv_def)

lemma pipe_contents_close [simp]:
  "pipe_contents (p\<lparr>p_readers := x, p_state := s\<rparr>) = pipe_contents p"
  "pipe_contents (p\<lparr>p_readers := x\<rparr>) = pipe_contents p"
  "pipe_contents (p\<lparr>p_writers := x, p_state := s\<rparr>) = pipe_contents p"
  "pipe_contents (p\<lparr>p_writers := x\<rparr>) = pipe_contents p"
  "pipe_contents (p\<lparr>p_state := s\<rparr>) = pipe_contents p"
  by (simp_all add: pipe_contents_def p_available_def)

lemma live_pipe_close_read:
  assumes "live_pipe k own pool"
  shows "live_pipe k own (snd (pipe_close_read ctx pool i))
    \<and> pipe_contents (pp_pipes (snd (pipe_close_read ctx pool i)) ! k) = pipe_contents (pp_pipes pool ! k)"
  using assms close_pipe [OF pipe_pool_inv_nth [of pool i]]
  by (cases "i = k")
    (auto simp: pipe_close_read_def Let_def live_pipe_def pipe_busy_def intro!: pipe_pool_inv_update)

lemma live_pipe_close_write:
  assumes "live_pipe k own pool"
  shows "live_pipe k own (snd (pipe_close_write ctx pool i))
    \<and> pipe_contents (pp_pipes (snd (pipe_close_write ctx pool i)) ! k) = pipe_contents (pp_pipes pool ! k)"
  using assms close_pipe [OF pipe_pool_inv_nth [of pool i]]
  by (cases "i = k")
    (auto simp: pipe_close_write_def Let_def live_pipe_def pipe_busy_def intro!: pipe_pool_inv_update)

lemma live_pipe_write:
  assumes live: "live_pipe k own pool" and w: "pipe_write ctx pool i False data = (rc, pool')"
  shows "live_pipe k own pool'
    \<and> pipe_contents (pp_pipes pool' ! k)
      = pipe_contents (pp_pipes pool ! k) @ (if i = k then take (nat rc) data else [])"
proof (cases "rc = -1")
  case True
  then show ?thesis
    using live w by (auto simp: pipe_write_def Let_def split: if_splits)
next
  case False
  let ?p = "pp_pipes pool ! i"
  let ?bs = "take (min (length data) (p_space ?p)) data"
  have i: "i < length (pp_pipes pool)" and rc: "rc = int (length ?bs)"
    and p': "pool' = pool\<lparr>pp_pipes := (pp_pipes pool)[i := pipe_write_loop ?bs ?p]\<rparr>"
    using w False by (auto simp: pipe_write_def Let_def min.commute split: if_splits)
  have "pipe_inv ?p"
    using live i pipe_pool_inv_nth by (simp add: live_pipe_def)
  then have r: "pipe_inv (pipe_write_loop ?bs ?p)"
      "pipe_contents (pipe_write_loop ?bs ?p) = pipe_contents ?p @ ?bs"
      "pipe_busy (pipe_write_loop ?bs ?p) = pipe_busy ?p" "p_owner (pipe_write_loop ?bs ?p) = p_owner ?p"
    using pipe_write_loop_refines [of ?p ?bs] by (simp_all add: pipe_busy_def)
  have "take (nat rc) data = ?bs"
    by (simp add: rc min_def)
  then show ?thesis
    using live_pipe_update [OF live i r(1,3,4)] r(2) i p' by (cases "i = k") simp_all
qed

lemma live_pipe_read:
  assumes live: "live_pipe k own pool" and rd: "pipe_read ctx pool i False count = (rc, bs, pool')"
  shows "live_pipe k own pool'
    \<and> pipe_contents (pp_pipes pool ! k) = (if i = k then bs else []) @ pipe_contents (pp_pipes pool' ! k)
    \<and> (i = k \<and> bs \<noteq> [] \<longrightarrow> snd ctx \<or> fst ctx = own)"
proof (cases "bs = [] \<and> pool' = pool")
  case True
  then show ?thesis
    using live by simp
next
  case False
  let ?p = "pp_pipes pool ! i"
  let ?n = "min count (p_available ?p)"
  have i: "i < length (pp_pipes pool)" and acc: "pipe_access_ok ctx ?p"
    and data: "\<not> p_is_empty ?p" "p_state ?p \<noteq> PipeFree"
    using rd False by (cases "i < length (pp_pipes pool)"; cases "pipe_access_ok ctx ?p";
        cases "p_is_empty ?p"; cases "p_state ?p = PipeFree"; simp add: pipe_read_def Let_def)+
  obtain bs' p' where loop': "pipe_read_loop ?n ?p = (bs', p')"
    by fastforce
  have loop: "pipe_read_loop ?n ?p = (bs, p')"
    and p': "pool' = pool\<lparr>pp_pipes := (pp_pipes pool)[i := p']\<rparr>"
    using rd i acc data loop' by (simp_all add: pipe_read_def Let_def)
  have "pipe_inv ?p"
    using live i pipe_pool_inv_nth by (simp add: live_pipe_def)
  then have r: "pipe_inv p'" "pipe_contents ?p = bs @ pipe_contents p'"
      "pipe_busy p' = pipe_busy ?p" "p_owner p' = p_owner ?p"
    using pipe_read_loop_refines [OF _ _ loop] by (simp_all add: pipe_busy_def)
  then show ?thesis
    using live_pipe_update [OF live i r(1,3,4)] i p' acc live
    by (cases "i = k") (auto simp: pipe_access_ok_def live_pipe_def split: prod.splits)
qed


definition demo_pipe :: PipePool where
  "demo_pipe = \<lparr>pp_pipes = [pipe_opened (1, 5) pipe_zeroed], pp_next_id = 2\<rparr>"

lemma demo_pipe_live: "live_pipe 0 5 demo_pipe"
  by (simp add: live_pipe_def demo_pipe_def pipe_pool_inv_def pipe_inv_opened in_use_def)
    (simp add: pipe_opened_def pipe_busy_def)


section \<open>Closed pipes\<close>

fun pipe_step :: "PipePool \<Rightarrow> pipe_call \<Rightarrow> PipePool" where
  "pipe_step pool (PCreate caller) =
     (case pipe_create caller pool of Panic \<Rightarrow> pool | Ret (r, pool') \<Rightarrow> pool')"
| "pipe_step pool (PRead ctx i count) = snd (snd (pipe_read ctx pool i False count))"
| "pipe_step pool (PWrite ctx i data) = snd (pipe_write ctx pool i False data)"
| "pipe_step pool (PCloseRead ctx i) = snd (pipe_close_read ctx pool i)"
| "pipe_step pool (PCloseWrite ctx i) = snd (pipe_close_write ctx pool i)"

definition pipes_full :: "PipePool \<Rightarrow> bool" where
  "pipes_full pool \<longleftrightarrow> list_all pipe_busy (pp_pipes pool)"

lemma pipes_full_update: "pipes_full pool \<Longrightarrow> pipe_busy p \<Longrightarrow> pipes_full (pool\<lparr>pp_pipes := (pp_pipes pool)[i := p]\<rparr>)"
  by (auto simp: pipes_full_def list_all_iff dest!: set_update_subset_insert [THEN subsetD])

lemma pipe_loops_state:
  "p_state (pipe_write_loop bs p) = p_state p" "p_state (snd (pipe_read_loop n p)) = p_state p"
proof -
  show "p_state (pipe_write_loop bs p) = p_state p"
    by (induction bs arbitrary: p) simp_all
  show "p_state (snd (pipe_read_loop n p)) = p_state p"
    by (induction n arbitrary: p) (simp_all add: Let_def case_prod_beta)
qed

lemma pipe_create_full:
  assumes "pipes_full pool"
  shows "pipe_create caller pool = Ret (None, pool)"
proof -
  have "first_idx (\<lambda>p. p_state p = PipeFree) (pp_pipes pool) = None"
    using assms by (auto simp: pipes_full_def list_all_iff pipe_busy_def first_idx_None_iff)
  then show ?thesis
    by (simp add: pipe_create_def pipe_alloc_def)
qed

lemma pipes_full_step: "pipes_full pool \<Longrightarrow> pipes_full (pipe_step pool c)"
  by (cases c)
    (auto simp: pipe_create_full pipe_read_def pipe_write_def pipe_close_read_def pipe_close_write_def
      Let_def case_prod_beta pipe_busy_def pipe_loops_state intro!: pipes_full_update)

lemma pipes_full_run: "pipes_full pool \<Longrightarrow> pipes_full (foldl pipe_step pool cs)"
  by (induction cs arbitrary: pool) (simp_all add: pipes_full_step)

text \<open>
  Pipe slots are never reclaimed: closing both ends leaves the slot in state \<open>Closed\<close>, and
  no operation but the boot-time \<open>pipe_init\<close> returns a slot to \<open>Free\<close>.  Once every slot has been used, each later
  \<open>pipe_create\<close> fails, whatever reads, writes and closes happen in between.
\<close>

lemma pipe_slots_never_reclaimed:
  assumes "pipes_full pool"
  shows "pipe_create caller (foldl pipe_step pool cs) = Ret (None, foldl pipe_step pool cs)"
  using pipe_create_full [OF pipes_full_run [OF assms]] .

lemma pipe_slots_never_reclaimed_witness:
  "pipe_create 9 (foldl pipe_step demo_pipe [PCloseRead (5, False) 0, PCloseWrite (5, False) 0])
   = Ret (None, foldl pipe_step demo_pipe [PCloseRead (5, False) 0, PCloseWrite (5, False) 0])"
proof (rule pipe_slots_never_reclaimed)
  show "pipes_full demo_pipe"
    by (simp add: pipes_full_def demo_pipe_def pipe_busy_def pipe_opened_def)
qed

text \<open>
  The write end can be used after it is closed: closing the write end of a live pipe puts
  it in state \<open>WriteClosed\<close>, in which a reader of the empty pipe is told end of file, but
  \<open>pipe_write\<close> still accepts data, and the next read returns it.
\<close>

lemma pipe_write_after_close:
  assumes live: "live_pipe k own pool" and st: "p_state (pp_pipes pool ! k) = PipeActive"
    and ends: "p_readers (pp_pipes pool ! k) = 1" "p_writers (pp_pipes pool ! k) = 1"
    and empty: "pipe_contents (pp_pipes pool ! k) = []"
  shows "\<exists>pool1 pool2. pipe_close_write (own, False) pool k = (0, pool1)
    \<and> fst (pipe_read (own, False) pool1 k False 1) = 0
    \<and> pipe_write (own, False) pool1 k False [b] = (1, pool2)
    \<and> fst (pipe_read (own, False) pool2 k False 1) = 1
    \<and> fst (snd (pipe_read (own, False) pool2 k False 1)) = [b]"
proof -
  let ?p = "(pp_pipes pool ! k)\<lparr>p_writers := 0, p_state := PipeWriteClosed\<rparr>"
  let ?pool1 = "pool\<lparr>pp_pipes := (pp_pipes pool)[k := ?p]\<rparr>"
  let ?q = "pipe_write_loop [b] ?p"
  have k: "k < length (pp_pipes pool)" and own: "p_owner (pp_pipes pool ! k) = own"
    and inv: "pipe_inv (pp_pipes pool ! k)"
    using live pipe_pool_inv_nth by (auto simp: live_pipe_def)
  have p: "pipe_inv ?p" "pipe_contents ?p = []"
    using close_pipe(3) [OF inv] empty by (simp_all del: One_nat_def)
  then have a0: "p_available ?p = 0"
    by (metis length_pipe_contents list.size(3))
  have q: "pipe_inv ?q" "pipe_contents ?q = [b]"
    using pipe_push_byte [OF p(1), of b] a0 p(2) by (simp_all add: PIPE_BUF_SIZE_def)
  then have a1: "p_available ?q = 1"
    by (metis length_pipe_contents One_nat_def length_Cons list.size(3))
  obtain p' where rd: "pipe_read_loop 1 ?q = ([b], p')"
    using pipe_pop_byte [OF q(1)] a1 q(2) by auto
  have cl: "pipe_close_write (own, False) pool k = (0, ?pool1)"
    using k st ends own by (simp add: pipe_close_write_def Let_def pipe_access_ok_def)
  have e: "p_is_empty ?p" "\<not> p_is_empty ?q"
    using p_is_empty_available [OF p(1)] p_is_empty_available [OF q(1)] a0 a1 by simp_all
  have r1: "fst (pipe_read (own, False) ?pool1 k False 1) = 0"
    using k own e(1) by (simp add: pipe_read_def Let_def pipe_access_ok_def)
  have w: "pipe_write (own, False) ?pool1 k False [b] = (1, ?pool1\<lparr>pp_pipes := (pp_pipes ?pool1)[k := ?q]\<rparr>)"
    using k own a0
    by (simp add: pipe_write_def Let_def pipe_access_ok_def p_space_def PIPE_BUF_SIZE_def)
  have st': "p_state ?q = PipeWriteClosed" "p_owner ?q = own"
    using own by simp_all
  have r2: "pipe_read (own, False) (?pool1\<lparr>pp_pipes := (pp_pipes ?pool1)[k := ?q]\<rparr>) k False 1
      = (1, [b], ?pool1\<lparr>pp_pipes := (pp_pipes ?pool1)[k := p']\<rparr>)"
    using k e(2) a1 rd st'
    by (simp add: pipe_read_def Let_def pipe_access_ok_def del: pipe_write_loop.simps pipe_read_loop.simps)
  show ?thesis
    using cl r1 w r2 by auto
qed

lemma pipe_write_after_close_witness:
  "\<exists>pool1 pool2. pipe_close_write (5, False) demo_pipe 0 = (0, pool1)
    \<and> fst (pipe_read (5, False) pool1 0 False 1) = 0
    \<and> pipe_write (5, False) pool1 0 False [42] = (1, pool2)
    \<and> fst (pipe_read (5, False) pool2 0 False 1) = 1
    \<and> fst (snd (pipe_read (5, False) pool2 0 False 1)) = [42]"
proof (rule pipe_write_after_close [OF demo_pipe_live])
  show "pipe_contents (pp_pipes demo_pipe ! 0) = []"
    by (simp add: demo_pipe_def pipe_contents_def p_available_def pipe_opened_def pipe_zeroed_def)
qed (simp_all add: demo_pipe_def pipe_opened_def)

end
