(* ===== verification/Handles.thy ===== *)
theory Handles
  imports Slot_Table
begin

text \<open>
  The legacy global handle table of \<open>crates/ipc/src/handle.rs\<close>: 256 entries that name a
  resource, the permissions on it and the task that owns the entry.
\<close>

definition MAX_HANDLES_GLOBAL :: nat where "MAX_HANDLES_GLOBAL = 256"

datatype HandleKind =
    HNone | HSensor u8 | HGpio u32 | HI2c u8 u8 | HPwm u8 | HMotor u32 | HIrq u32
  | HMmioRegion u64 u64

record HandlePerms =
  hp_read :: bool
  hp_write :: bool
  hp_execute :: bool
  hp_duplicate :: bool

definition HANDLE_RO :: HandlePerms where
  "HANDLE_RO = \<lparr>hp_read = True, hp_write = False, hp_execute = False, hp_duplicate = False\<rparr>"

definition HANDLE_RW :: HandlePerms where
  "HANDLE_RW = \<lparr>hp_read = True, hp_write = True, hp_execute = False, hp_duplicate = False\<rparr>"

definition HANDLE_ALL :: HandlePerms where
  "HANDLE_ALL = \<lparr>hp_read = True, hp_write = True, hp_execute = True, hp_duplicate = True\<rparr>"

record HandleEntry =
  he_kind :: HandleKind
  he_perms :: HandlePerms
  he_owner_task :: u32
  he_valid :: bool

type_synonym HandleTable = "HandleEntry list"

definition handle_entry_empty :: HandleEntry where
  "handle_entry_empty = \<lparr>he_kind = HNone, he_perms = HANDLE_RO, he_owner_task = 0, he_valid = False\<rparr>"

definition handles_init :: HandleTable where
  "handles_init = replicate MAX_HANDLES_GLOBAL handle_entry_empty"

definition handle_grant ::
  "HandleTable \<Rightarrow> u32 \<Rightarrow> HandleKind \<Rightarrow> HandlePerms \<Rightarrow> u32 option \<times> HandleTable" where
  "handle_grant t owner_tid k perms =
     (case first_idx (\<lambda>e. \<not> he_valid e) t of
        None \<Rightarrow> (None, t)
      | Some i \<Rightarrow>
          (Some (of_nat i),
           t[i := \<lparr>he_kind = k, he_perms = perms, he_owner_task = owner_tid, he_valid = True\<rparr>]))"

definition handle_revoke :: "HandleTable \<Rightarrow> u32 \<Rightarrow> u32 \<Rightarrow> bool \<Rightarrow> bool \<times> HandleTable" where
  "handle_revoke t handle_id caller_tid privileged =
     (if unat handle_id \<ge> MAX_HANDLES_GLOBAL then (False, t)
      else let entry = t ! unat handle_id in
        if \<not> he_valid entry then (False, t)
        else if \<not> privileged \<and> he_owner_task entry \<noteq> caller_tid then (False, t)
        else (True, t[unat handle_id := handle_entry_empty]))"

definition handle_dup ::
  "HandleTable \<Rightarrow> u32 \<Rightarrow> u32 \<Rightarrow> u32 \<Rightarrow> bool \<Rightarrow> u32 option \<times> HandleTable" where
  "handle_dup t handle_id caller_tid new_owner_tid privileged =
     (if unat handle_id \<ge> MAX_HANDLES_GLOBAL then (None, t)
      else if \<not> privileged \<and> new_owner_tid \<noteq> caller_tid then (None, t)
      else let entry = t ! unat handle_id in
        if \<not> he_valid entry \<or> \<not> hp_duplicate (he_perms entry) then (None, t)
        else if \<not> privileged \<and> he_owner_task entry \<noteq> caller_tid then (None, t)
        else handle_grant t new_owner_tid (he_kind entry) (he_perms entry))"

definition handle_owned_by :: "HandleTable \<Rightarrow> u32 \<Rightarrow> HandleKind \<Rightarrow> bool \<Rightarrow> bool" where
  "handle_owned_by t owner_tid k need_write =
     list_ex (\<lambda>e. he_valid e \<and> he_owner_task e = owner_tid
                  \<and> \<not> (need_write \<and> \<not> hp_write (he_perms e)) \<and> he_kind e = k) t"

definition handle_revoke_all :: "HandleTable \<Rightarrow> u32 \<Rightarrow> HandleTable" where
  "handle_revoke_all t owner_tid =
     map (\<lambda>e. if he_valid e \<and> he_owner_task e = owner_tid then handle_entry_empty else e) t"

section \<open>The table as a pool\<close>

definition handle_entry ::
  "u32 \<times> HandleKind \<times> HandlePerms \<Rightarrow> HandleEntry \<Rightarrow> HandleEntry" where
  "handle_entry req e =
     (case req of (tid, k, p) \<Rightarrow> \<lparr>he_kind = k, he_perms = p, he_owner_task = tid, he_valid = True\<rparr>)"

interpretation handle_pool: slot_pool he_valid handle_entry "\<lambda>_. True" "\<lambda>_. handle_entry_empty"
  by unfold_locales (simp_all add: handle_entry_def handle_entry_empty_def split: prod.splits)

lemma handle_grant_eq:
  "handle_grant t tid k p =
     (case free_slot he_valid t of
        None \<Rightarrow> (None, t)
      | Some i \<Rightarrow> (Some (of_nat i), t[i := handle_entry (tid, k, p) (t ! i)]))"
  by (simp add: handle_grant_def free_slot_def handle_entry_def split: option.split)

section \<open>Authority\<close>

definition handle_auth :: "HandleTable \<Rightarrow> u32 \<Rightarrow> (HandleKind \<times> HandlePerms) set" where
  "handle_auth t tid =
     (\<lambda>e. (he_kind e, he_perms e)) ` {e \<in> set t. he_valid e \<and> he_owner_task e = tid}"

lemma set_update_free:
  assumes "i < length t" "\<not> P (t ! i)"
  shows "{e \<in> set (t[i := x]). P e} = {e \<in> set t. P e} \<union> (if P x then {x} else {})"
proof -
  have "e \<in> set (t[i := x])" if mem: "e \<in> set t" and pe: "P e" for e
  proof -
    obtain j where j: "j < length t" "t ! j = e"
      using mem unfolding in_set_conv_nth by blast
    then have "j \<noteq> i"
      using pe assms(2) by blast
    then show ?thesis
      using j by (metis length_list_update nth_list_update_neq nth_mem)
  qed
  then show ?thesis
    using set_update_subset_insert [of t i x] set_update_memI [OF assms(1), of x] by auto
qed

lemma handle_auth_grant:
  assumes "handle_grant t tid k p = (r, t')"
  shows "handle_auth t' o' = handle_auth t o' \<union> (if r \<noteq> None \<and> o' = tid then {(k, p)} else {})"
proof (cases "free_slot he_valid t")
  case None
  then show ?thesis
    using assms by (auto simp: handle_grant_eq)
next
  case (Some i)
  let ?P = "\<lambda>e. he_valid e \<and> he_owner_task e = o'" and ?e = "handle_entry (tid, k, p) (t ! i)"
  have i: "i < length t" "\<not> ?P (t ! i)"
    using Some by (simp_all add: free_slot_Some)
  have t': "t' = t[i := ?e]" "r \<noteq> None"
    using assms Some by (auto simp: handle_grant_eq)
  show ?thesis
    unfolding handle_auth_def t'(1) set_update_free [of i t ?P ?e, OF i]
    using t'(2) by (auto simp: handle_entry_def)
qed

lemma handle_auth_clear: "handle_auth (t[i := handle_entry_empty]) o' \<subseteq> handle_auth t o'"
  by (auto simp: handle_auth_def handle_entry_empty_def dest!: set_update_subset_insert [THEN subsetD])

lemma handle_auth_clear_other:
  assumes "i < length t" "he_owner_task (t ! i) \<noteq> o'"
  shows "handle_auth (t[i := handle_entry_empty]) o' = handle_auth t o'"
  using set_update_free [of i t "\<lambda>e. he_valid e \<and> he_owner_task e = o'" handle_entry_empty] assms
  by (simp add: handle_auth_def handle_entry_empty_def)

text \<open>
  C23. User tasks cannot widen authority through handles: whatever a task without privilege
  revokes or duplicates, its own resources and permissions do not grow, those of every other
  task are unchanged, and a duplicate exists only of an entry it owns with the duplicate right.
\<close>

theorem unprivileged_handle_ops_confined:
  assumes "length t = MAX_HANDLES_GLOBAL"
  shows "handle_auth (snd (handle_revoke t h caller False)) caller \<subseteq> handle_auth t caller
    \<and> handle_auth (snd (handle_dup t h caller owner' False)) caller = handle_auth t caller
    \<and> (\<forall>tid. tid \<noteq> caller \<longrightarrow> handle_auth (snd (handle_revoke t h caller False)) tid = handle_auth t tid
        \<and> handle_auth (snd (handle_dup t h caller owner' False)) tid = handle_auth t tid)
    \<and> (fst (handle_dup t h caller owner' False) \<noteq> None \<longrightarrow>
        (\<exists>k p. (k, p) \<in> handle_auth t caller \<and> hp_duplicate p))"
proof (cases "unat h < MAX_HANDLES_GLOBAL \<and> he_valid (t ! unat h) \<and> he_owner_task (t ! unat h) = caller")
  case True
  let ?e = "t ! unat h"
  have h: "unat h < length t"
    using True assms by simp
  then have own: "(he_kind ?e, he_perms ?e) \<in> handle_auth t caller"
    using True by (auto simp: handle_auth_def)
  have rev: "snd (handle_revoke t h caller False) = t[unat h := handle_entry_empty]"
    using True by (simp add: handle_revoke_def)
  have dup: "handle_auth (snd (handle_dup t h caller owner' False)) tid = handle_auth t tid" for tid
  proof -
    obtain r t' where "handle_grant t caller (he_kind ?e) (he_perms ?e) = (r, t')"
      by fastforce
    then show ?thesis
      using handle_auth_grant [of t caller "he_kind ?e" "he_perms ?e"] own
      by (auto simp: handle_dup_def Let_def)
  qed
  have "fst (handle_dup t h caller owner' False) \<noteq> None \<longrightarrow> hp_duplicate (he_perms ?e)"
    by (simp add: handle_dup_def Let_def)
  then show ?thesis
    using rev dup handle_auth_clear [of t "unat h" caller] handle_auth_clear_other [OF h] True own
    by auto
next
  case False
  then have "snd (handle_revoke t h caller False) = t" "handle_dup t h caller owner' False = (None, t)"
    by (auto simp: handle_revoke_def handle_dup_def Let_def)
  then show ?thesis
    by simp
qed

theorem unprivileged_handle_ops_confined_witness:
  "handle_auth (snd (handle_dup (snd (handle_grant handles_init 5 (HGpio 3) HANDLE_ALL)) 0 5 5 False)) 5
   = handle_auth (snd (handle_grant handles_init 5 (HGpio 3) HANDLE_ALL)) 5"
proof -
  have "length (snd (handle_grant handles_init 5 (HGpio 3) HANDLE_ALL)) = MAX_HANDLES_GLOBAL"
    by (simp add: handle_grant_def handles_init_def MAX_HANDLES_GLOBAL_def)
  from unprivileged_handle_ops_confined [OF this, of 0 5 5] show ?thesis
    by (elim conjE)
qed

lemma handle_owned_by_auth:
  "handle_owned_by t tid k w \<longleftrightarrow> (\<exists>p. (k, p) \<in> handle_auth t tid \<and> (w \<longrightarrow> hp_write p))"
  by (auto simp: handle_owned_by_def handle_auth_def list_ex_iff)

lemma handle_auth_revoke_all:
  "handle_auth (handle_revoke_all t tid) o' = (if o' = tid then {} else handle_auth t o')"
  by (auto simp: handle_auth_def handle_revoke_all_def handle_entry_empty_def split: if_splits)

lemma handle_revoke_all_releases:
  "in_use he_valid (handle_revoke_all t tid) =
     length (filter (\<lambda>e. he_valid e \<and> he_owner_task e \<noteq> tid) t)"
  by (induction t) (auto simp: in_use_def handle_revoke_all_def handle_entry_empty_def)

end
