(* ===== verification/Cap_Store.thy ===== *)
theory Cap_Store
  imports Cap_Table
begin

text \<open>
  The capability tables of all tasks (\<open>crates/ipc/src/cap_store.rs\<close>): one table per slot of
  the task pool, the TID that owns each of them, and the quota of delegations accepted from
  other tasks.  Every call resolves the TID of the caller through the task pool
  (\<open>idx_for_tid\<close> of \<open>crates/sched/src/scheduler.rs\<close>), claims the slot, which wipes a table left
  behind by a previous occupant, and then works on the table.  The task pool is an argument;
  its length is the configured \<open>MAX_TASKS\<close>.  Each call is one atomic step: the model does not
  cover two harts inside \<open>cap_store\<close> at once.
\<close>

record TaskSlot =
  ts_valid :: bool
  ts_tid :: u32

definition idx_for_tid :: "TaskSlot list \<Rightarrow> u32 \<Rightarrow> nat option" where
  "idx_for_tid pool tid =
     (if tid = 0 then None else first_idx (\<lambda>s. ts_valid s \<and> ts_tid s = tid) pool)"

record CapStore =
  st_tables :: "CapTable list"
  st_owner :: "u32 list"
  st_inbound :: "u16 list"

definition NO_OWNER :: u32 where "NO_OWNER = 0"

definition MAX_INBOUND_DELEGATIONS :: u16 where "MAX_INBOUND_DELEGATIONS = 64"

definition store_init :: "nat \<Rightarrow> CapStore" where
  "store_init max_tasks =
     \<lparr>st_tables = replicate max_tasks table_empty, st_owner = replicate max_tasks NO_OWNER,
      st_inbound = replicate max_tasks 0\<rparr>"

definition resolve_only :: "TaskSlot list \<Rightarrow> u32 \<Rightarrow> nat option" where
  "resolve_only pool tid =
     (if tid = NO_OWNER then None
      else case idx_for_tid pool tid of
        None \<Rightarrow> None
      | Some idx \<Rightarrow> if idx \<ge> length pool then None else Some idx)"

definition resolve_only_untrusted :: "TaskSlot list \<Rightarrow> u32 \<Rightarrow> nat option" where
  "resolve_only_untrusted pool tid =
     (case resolve_only pool tid of
        None \<Rightarrow> None
      | Some first \<Rightarrow>
          (case resolve_only pool tid of
             None \<Rightarrow> None
           | Some again \<Rightarrow> if again \<noteq> first then None else Some first))"

definition claim_slot :: "CapStore \<Rightarrow> nat \<Rightarrow> u32 \<Rightarrow> CapStore" where
  "claim_slot st idx tid =
     (let prev = st_owner st ! idx; st' = st\<lparr>st_owner := (st_owner st)[idx := tid]\<rparr>
      in if prev \<noteq> tid
         then st'\<lparr>st_tables := (st_tables st')[idx := table_empty],
                  st_inbound := (st_inbound st')[idx := 0]\<rparr>
         else st')"

definition slot_for :: "TaskSlot list \<Rightarrow> CapStore \<Rightarrow> u32 \<Rightarrow> nat option \<times> CapStore" where
  "slot_for pool st tid =
     (case resolve_only pool tid of
        None \<Rightarrow> (None, st)
      | Some idx \<Rightarrow> (Some idx, claim_slot st idx tid))"

definition is_valid_tid :: "TaskSlot list \<Rightarrow> CapStore \<Rightarrow> u32 \<Rightarrow> bool \<times> CapStore" where
  "is_valid_tid pool st tid = (case slot_for pool st tid of (idx, st') \<Rightarrow> (idx \<noteq> None, st'))"

definition with_table ::
  "TaskSlot list \<Rightarrow> CapStore \<Rightarrow> u32 \<Rightarrow> (CapTable \<Rightarrow> 'r \<times> CapTable) \<Rightarrow> 'r option \<times> CapStore" where
  "with_table pool st tid f =
     (case slot_for pool st tid of
        (None, st') \<Rightarrow> (None, st')
      | (Some idx, st') \<Rightarrow>
          (case f (st_tables st' ! idx) of
             (r, t') \<Rightarrow> (Some r, st'\<lparr>st_tables := (st_tables st')[idx := t']\<rparr>)))"

definition store_get ::
  "u8 \<Rightarrow> TaskSlot list \<Rightarrow> CapStore \<Rightarrow> u32 \<Rightarrow> CapKind \<Rightarrow> CapHandle \<Rightarrow> CapPerms
   \<Rightarrow> (CapError + u32) \<times> CapStore" where
  "store_get level pool st tid T cap need =
     (case slot_for pool st tid of
        (None, st') \<Rightarrow> (Inl Stale, st')
      | (Some idx, st') \<Rightarrow> (cap_get level (st_tables st' ! idx) T cap need, st'))"

definition store_grant ::
  "TaskSlot list \<Rightarrow> CapStore \<Rightarrow> u32 \<Rightarrow> CapKind \<Rightarrow> CapPerms \<Rightarrow> u32 \<Rightarrow> CapHandle option \<times> CapStore" where
  "store_grant pool st tid T perms resource =
     (case slot_for pool st tid of
        (None, st') \<Rightarrow> (None, st')
      | (Some idx, st') \<Rightarrow>
          (case grant_raw (st_tables st' ! idx) T perms resource of
             (h, t') \<Rightarrow> (h, st'\<lparr>st_tables := (st_tables st')[idx := t']\<rparr>)))"

definition store_revoke :: "TaskSlot list \<Rightarrow> CapStore \<Rightarrow> u32 \<Rightarrow> CapHandle \<Rightarrow> CapStore" where
  "store_revoke pool st tid cap =
     (case slot_for pool st tid of
        (None, st') \<Rightarrow> st'
      | (Some idx, st') \<Rightarrow>
          st'\<lparr>st_tables := (st_tables st')[idx := cap_revoke (st_tables st' ! idx) cap]\<rparr>)"

definition store_reset :: "TaskSlot list \<Rightarrow> CapStore \<Rightarrow> u32 \<Rightarrow> CapStore" where
  "store_reset pool st tid =
     (case slot_for pool st tid of
        (None, st') \<Rightarrow> st'
      | (Some idx, st') \<Rightarrow>
          st'\<lparr>st_tables := (st_tables st')[idx := table_empty],
              st_inbound := (st_inbound st')[idx := 0],
              st_owner := (st_owner st')[idx := NO_OWNER]\<rparr>)"

definition store_occupied :: "TaskSlot list \<Rightarrow> CapStore \<Rightarrow> u32 \<Rightarrow> nat \<times> CapStore" where
  "store_occupied pool st tid =
     (case slot_for pool st tid of
        (None, st') \<Rightarrow> (0, st')
      | (Some idx, st') \<Rightarrow> (table_occupied (st_tables st' ! idx), st'))"

section \<open>Delegation\<close>

datatype DelegateError =
    Source CapError | NotDelegable | Amplify | EmptyPerms | NoGrantor | NoTarget | SlotAlias
  | TargetFull | QuotaExhausted

definition check_delegable :: "CapPerms \<Rightarrow> CapPerms \<Rightarrow> DelegateError + unit" where
  "check_delegable held want =
     (if \<not> perms_contains held PERM_DUP then Inl NotDelegable
      else if \<not> perms_contains held want then Inl Amplify
      else Inr ())"

definition delegate ::
  "TaskSlot list \<Rightarrow> CapStore \<Rightarrow> u32 \<Rightarrow> u32 \<Rightarrow> CapHandle \<Rightarrow> CapPerms
   \<Rightarrow> (DelegateError + CapHandle) \<times> CapStore" where
  "delegate pool st grantor_tid target_tid cap_raw want_perms =
     (if want_perms = 0 then (Inl EmptyPerms, st)
      else case resolve_only pool grantor_tid of
        None \<Rightarrow> (Inl NoGrantor, st)
      | Some idx_g \<Rightarrow>
          (case resolve_only_untrusted pool target_tid of
             None \<Rightarrow> (Inl NoTarget, st)
           | Some idx_t \<Rightarrow>
               if grantor_tid \<noteq> target_tid \<and> idx_g = idx_t then (Inl SlotAlias, st)
               else let st1 = claim_slot st idx_g grantor_tid;
                        st2 = (if idx_t \<noteq> idx_g then claim_slot st1 idx_t target_tid else st1);
                        src = st_tables st2 ! idx_g; dst = st_tables st2 ! idx_t
                 in case inspect_raw src cap_raw of
                      Inl e \<Rightarrow> (Inl (Source e), st2)
                    | Inr (k, perms, resource) \<Rightarrow>
                        (case check_delegable perms want_perms of
                           Inl e \<Rightarrow> (Inl e, st2)
                         | Inr _ \<Rightarrow>
                             if idx_g = idx_t
                             then (case grant_raw src k want_perms resource of
                                     (None, _) \<Rightarrow> (Inl TargetFull, st2)
                                   | (Some h, t') \<Rightarrow>
                                       (Inr h, st2\<lparr>st_tables := (st_tables st2)[idx_g := t']\<rparr>))
                             else if st_inbound st2 ! idx_t \<ge> MAX_INBOUND_DELEGATIONS
                             then (Inl QuotaExhausted, st2)
                             else (case grant_raw dst k want_perms resource of
                                     (None, _) \<Rightarrow> (Inl TargetFull, st2)
                                   | (Some h, t') \<Rightarrow>
                                       (Inr h, st2\<lparr>st_tables := (st_tables st2)[idx_t := t'],
                                                   st_inbound := (st_inbound st2)
                                                     [idx_t := st_inbound st2 ! idx_t + 1]\<rparr>)))))"

section \<open>Histories of the store\<close>

text \<open>
  A history interleaves calls of the store with changes of the task pool by the scheduler.
  \<open>SLookup\<close> stands for the calls that only resolve and claim (\<open>get\<close>, \<open>is_valid_tid\<close>,
  \<open>occupied\<close>).
\<close>

datatype store_op =
    SGrant u32 CapKind CapPerms u32 | SRevoke u32 CapHandle | SLookup u32 | SReset u32
  | SDelegate u32 u32 CapHandle CapPerms | SPool "TaskSlot list"

type_synonym store_sys = "TaskSlot list \<times> CapStore"

fun store_step :: "store_sys \<Rightarrow> store_op \<Rightarrow> store_sys" where
  "store_step (pool, st) (SGrant tid k p r) = (pool, snd (store_grant pool st tid k p r))"
| "store_step (pool, st) (SRevoke tid h) = (pool, store_revoke pool st tid h)"
| "store_step (pool, st) (SLookup tid) = (pool, snd (slot_for pool st tid))"
| "store_step (pool, st) (SReset tid) = (pool, store_reset pool st tid)"
| "store_step (pool, st) (SDelegate g t h want) = (pool, snd (delegate pool st g t h want))"
| "store_step (pool, st) (SPool pool') = (if length pool' = length pool then (pool', st) else (pool, st))"

definition store_run :: "store_sys \<Rightarrow> store_op list \<Rightarrow> store_sys" where
  "store_run sys ops = foldl store_step sys ops"

fun own_mint :: "nat \<Rightarrow> TaskSlot list \<Rightarrow> store_op \<Rightarrow> bool" where
  "own_mint i pool (SGrant tid k p r) \<longleftrightarrow> resolve_only pool tid = Some i"
| "own_mint i pool (SDelegate g t h want) \<longleftrightarrow> g = t \<and> resolve_only pool g = Some i"
| "own_mint i pool op \<longleftrightarrow> False"

fun own_mints :: "nat \<Rightarrow> store_sys \<Rightarrow> store_op list \<Rightarrow> nat" where
  "own_mints i sys [] = 0"
| "own_mints i sys (op # ops) =
     (if own_mint i (fst sys) op then 1 else 0) + own_mints i (store_step sys op) ops"

definition table_auth :: "(CapKind \<Rightarrow> CapPerms \<Rightarrow> u32 \<Rightarrow> bool) \<Rightarrow> CapTable \<Rightarrow> bool" where
  "table_auth Q t \<longleftrightarrow> (\<forall>s\<in>set t. is_occupied s \<longrightarrow> Q (cs_kind s) (cs_perms s) (cs_resource s))"

definition store_ok :: "nat \<Rightarrow> (CapKind \<Rightarrow> CapPerms \<Rightarrow> u32 \<Rightarrow> bool) \<Rightarrow> CapStore \<Rightarrow> bool" where
  "store_ok n Q st \<longleftrightarrow>
     length (st_tables st) = n \<and> length (st_owner st) = n \<and> length (st_inbound st) = n
     \<and> (\<forall>t\<in>set (st_tables st). table_inv t \<and> table_auth Q t)
     \<and> (\<forall>c\<in>set (st_inbound st). c \<le> MAX_INBOUND_DELEGATIONS)"

definition attenuates :: "(CapKind \<Rightarrow> CapPerms \<Rightarrow> u32 \<Rightarrow> bool) \<Rightarrow> bool" where
  "attenuates Q \<longleftrightarrow> (\<forall>k p q r. Q k p r \<longrightarrow> perms_contains p q \<longrightarrow> Q k q r)"

section \<open>Resolution\<close>

lemma idx_for_tid_Some:
  "idx_for_tid pool tid = Some i \<Longrightarrow> i < length pool \<and> ts_valid (pool ! i) \<and> ts_tid (pool ! i) = tid"
  by (auto simp: idx_for_tid_def first_idx_Some_iff split: if_splits)

lemma resolve_only_idx [simp]: "resolve_only pool tid = idx_for_tid pool tid"
  by (auto simp: resolve_only_def NO_OWNER_def idx_for_tid_def dest!: first_idx_SomeD(1)
      split: option.splits)

lemma resolve_only_untrusted_idx [simp]: "resolve_only_untrusted pool tid = idx_for_tid pool tid"
  by (simp add: resolve_only_untrusted_def split: option.splits)

lemma idx_for_tid_inj:
  "idx_for_tid pool a = Some i \<Longrightarrow> idx_for_tid pool b = Some i \<Longrightarrow> a = b"
  using idx_for_tid_Some by metis

section \<open>Preservation by the building blocks\<close>

lemma table_auth_empty [simp]: "table_auth Q table_empty"
  by (simp add: table_auth_def table_empty_def slot_EMPTY_def is_occupied_def)

lemma table_auth_grant:
  "table_inv t \<Longrightarrow> table_auth Q t \<Longrightarrow> (k \<noteq> KNull \<Longrightarrow> Q k p r) \<Longrightarrow> table_auth Q (snd (grant_raw t k p r))"
  by (auto simp: table_auth_def grant_raw_eq table_inv_length split: option.splits
      dest!: set_update_subset_insert [THEN subsetD])

lemma table_auth_revoke: "table_auth Q t \<Longrightarrow> table_auth Q (cap_revoke t h)"
  by (auto simp: table_auth_def cap_revoke_eq Let_def
      dest!: set_update_subset_insert [THEN subsetD])

lemma inspect_raw_auth:
  assumes "table_inv t" "table_auth Q t" "inspect_raw t h = Inr (k, p, r)"
  shows "k \<noteq> KNull \<and> Q k p r"
proof -
  let ?s = "t ! unat (handle_slot h)"
  have "?s \<in> set t" "is_occupied ?s" "k = cs_kind ?s" "p = cs_perms ?s" "r = cs_resource ?s"
    using assms by (auto simp: inspect_raw_Inr_iff Let_def table_inv_length)
  then show ?thesis
    using assms(2) by (auto simp: table_auth_def is_occupied_def)
qed

lemma store_ok_init: "store_ok n Q (store_init n)"
  by (auto simp: store_ok_def store_init_def MAX_INBOUND_DELEGATIONS_def)

lemma store_ok_claim: "store_ok n Q st \<Longrightarrow> store_ok n Q (claim_slot st i tid)"
  by (auto simp: store_ok_def claim_slot_def Let_def
      dest!: set_update_subset_insert [THEN subsetD])

lemma store_ok_table:
  "store_ok n Q st \<Longrightarrow> table_inv t \<Longrightarrow> table_auth Q t \<Longrightarrow>
     store_ok n Q (st\<lparr>st_tables := (st_tables st)[i := t]\<rparr>)"
  by (auto simp: store_ok_def dest!: set_update_subset_insert [THEN subsetD])

lemma store_ok_nth:
  "store_ok n Q st \<Longrightarrow> i < n \<Longrightarrow> table_inv (st_tables st ! i) \<and> table_auth Q (st_tables st ! i)"
  by (simp add: store_ok_def)

lemma store_ok_inbound:
  "store_ok n Q st \<Longrightarrow> c \<le> MAX_INBOUND_DELEGATIONS \<Longrightarrow>
     store_ok n Q (st\<lparr>st_inbound := (st_inbound st)[i := c]\<rparr>)"
  by (auto simp: store_ok_def dest!: set_update_subset_insert [THEN subsetD])

lemma inbound_bump: "c < 64 \<Longrightarrow> unat (c + 1) = Suc (unat c) \<and> c + 1 \<le> 64" for c :: u16
  by (auto simp: word_less_nat_alt word_le_nat_alt unat_word_ariths)

section \<open>The outcomes of a delegation\<close>

definition claim_pair :: "CapStore \<Rightarrow> nat \<Rightarrow> u32 \<Rightarrow> nat \<Rightarrow> u32 \<Rightarrow> CapStore" where
  "claim_pair st ig g it t =
     (if it \<noteq> ig then claim_slot (claim_slot st ig g) it t else claim_slot st ig g)"

definition charge_inbound :: "CapStore \<Rightarrow> bool \<Rightarrow> nat \<Rightarrow> CapStore" where
  "charge_inbound st cross it =
     (if cross then st\<lparr>st_inbound := (st_inbound st)[it := st_inbound st ! it + 1]\<rparr> else st)"

lemma delegate_cases:
  obtains
    (unchanged) e where "delegate pool st g t h want = (Inl e, st)"
  | (refused) ig it e where "idx_for_tid pool g = Some ig" "idx_for_tid pool t = Some it"
      "delegate pool st g t h want = (Inl e, claim_pair st ig g it t)"
  | (minted) ig it k p r h' t' where "idx_for_tid pool g = Some ig" "idx_for_tid pool t = Some it"
      "g = t \<longleftrightarrow> ig = it" "want \<noteq> 0"
      "inspect_raw (st_tables (claim_pair st ig g it t) ! ig) h = Inr (k, p, r)"
      "perms_contains p PERM_DUP" "perms_contains p want"
      "grant_raw (st_tables (claim_pair st ig g it t) ! it) k want r = (Some h', t')"
      "g \<noteq> t \<Longrightarrow> st_inbound (claim_pair st ig g it t) ! it < 64"
      "delegate pool st g t h want =
         (Inr h', charge_inbound
            ((claim_pair st ig g it t)
               \<lparr>st_tables := (st_tables (claim_pair st ig g it t))[it := t']\<rparr>) (g \<noteq> t) it)"
proof -
  consider (early) e where "delegate pool st g t h want = (Inl e, st)"
    | (ok) ig it where "idx_for_tid pool g = Some ig" "idx_for_tid pool t = Some it" "want \<noteq> 0"
  proof (cases "want = 0 \<or> idx_for_tid pool g = None \<or> idx_for_tid pool t = None")
    case True
    then have "\<exists>e. delegate pool st g t h want = (Inl e, st)"
      by (cases "idx_for_tid pool g") (auto simp: delegate_def)
    then show ?thesis
      using that(1) by blast
  next
    case False
    then show ?thesis
      using that(2) by (cases "idx_for_tid pool g"; cases "idx_for_tid pool t") auto
  qed
  then show thesis
  proof cases
    case early
    then show thesis by (rule unchanged)
  next
    case ok
    have gt: "g = t \<longleftrightarrow> ig = it"
      using ok idx_for_tid_inj by auto
    let ?st = "claim_pair st ig g it t"
    have eq: "delegate pool st g t h want =
      (case inspect_raw (st_tables ?st ! ig) h of
         Inl e \<Rightarrow> (Inl (Source e), ?st)
       | Inr (k, p, r) \<Rightarrow>
         (case check_delegable p want of
            Inl e \<Rightarrow> (Inl e, ?st)
          | Inr _ \<Rightarrow>
            if g \<noteq> t \<and> st_inbound ?st ! it \<ge> MAX_INBOUND_DELEGATIONS then (Inl QuotaExhausted, ?st)
            else (case grant_raw (st_tables ?st ! it) k want r of
                    (None, _) \<Rightarrow> (Inl TargetFull, ?st)
                  | (Some h', t') \<Rightarrow>
                      (Inr h', charge_inbound
                         (?st\<lparr>st_tables := (st_tables ?st)[it := t']\<rparr>) (g \<noteq> t) it))))"
    proof (cases "g = t")
      case True
      then show ?thesis
        using ok gt
        by (simp add: delegate_def Let_def claim_pair_def charge_inbound_def
            split: sum.split prod.split option.split)
    next
      case False
      then show ?thesis
        using ok gt
        by (simp add: delegate_def Let_def claim_pair_def charge_inbound_def
            split: sum.split prod.split option.split)
    qed
    show thesis
    proof (cases "\<exists>e. delegate pool st g t h want = (Inl e, ?st)")
      case True
      then show thesis
        using refused ok by blast
    next
      case False
      then show thesis
        using minted [OF ok(1,2) gt ok(3)] unfolding eq
        by (auto simp: check_delegable_def MAX_INBOUND_DELEGATIONS_def
            split: sum.splits option.splits prod.splits if_splits)
    qed
  qed
qed

lemma store_ok_claim_pair: "store_ok n Q st \<Longrightarrow> store_ok n Q (claim_pair st ig g it t)"
  by (simp add: claim_pair_def store_ok_claim)

lemma store_ok_delegate:
  assumes ok: "store_ok n Q st" and n: "length pool = n" and Q: "attenuates Q"
  shows "store_ok n Q (snd (delegate pool st g t h want))"
proof (cases rule: delegate_cases [of pool st g t h want])
  case (minted ig it k p r h' t')
  let ?st = "claim_pair st ig g it t"
  have ok': "store_ok n Q ?st"
    using ok by (rule store_ok_claim_pair)
  have lt: "ig < n" "it < n"
    using minted(1,2) n idx_for_tid_Some by blast+
  have "k \<noteq> KNull \<and> Q k p r"
    using inspect_raw_auth minted(5) store_ok_nth [OF ok' lt(1)] by blast
  then have "Q k want r"
    using Q minted(7) by (auto simp: attenuates_def)
  then have "table_inv t' \<and> table_auth Q t'"
    using minted(8) store_ok_nth [OF ok' lt(2)] table_inv_grant table_auth_grant
    by (metis snd_conv)
  then have "store_ok n Q (?st\<lparr>st_tables := (st_tables ?st)[it := t']\<rparr>)"
    using ok' store_ok_table by blast
  moreover have "g \<noteq> t \<Longrightarrow> st_inbound ?st ! it + 1 \<le> MAX_INBOUND_DELEGATIONS"
    using minted(9) inbound_bump by (auto simp: MAX_INBOUND_DELEGATIONS_def)
  ultimately show ?thesis
    using store_ok_inbound [of n Q "?st\<lparr>st_tables := (st_tables ?st)[it := t']\<rparr>"]
    unfolding minted(10) charge_inbound_def by auto
qed (use ok store_ok_claim_pair in auto)

fun op_authorised :: "(CapKind \<Rightarrow> CapPerms \<Rightarrow> u32 \<Rightarrow> bool) \<Rightarrow> store_op \<Rightarrow> bool" where
  "op_authorised Q (SGrant tid k p r) \<longleftrightarrow> Q k p r"
| "op_authorised Q op \<longleftrightarrow> True"

lemma store_ok_slot_for: "store_ok n Q st \<Longrightarrow> store_ok n Q (snd (slot_for pool st tid))"
  by (auto simp: slot_for_def store_ok_claim split: option.splits)

lemma slot_for_Some:
  "slot_for pool st tid = (Some i, st') \<Longrightarrow> idx_for_tid pool tid = Some i \<and> st' = claim_slot st i tid"
  by (auto simp: slot_for_def split: option.splits)

lemma slot_for_None: "slot_for pool st tid = (None, st') \<Longrightarrow> idx_for_tid pool tid = None \<and> st' = st"
  by (auto simp: slot_for_def split: option.splits)

lemma store_ok_slot:
  assumes "store_ok (length pool) Q st" "slot_for pool st tid = (Some i, st1)"
  shows "i < length pool" and "store_ok (length pool) Q st1"
    and "table_inv (st_tables st1 ! i)" and "table_auth Q (st_tables st1 ! i)"
proof -
  show i: "i < length pool"
    using assms(2) slot_for_Some idx_for_tid_Some by blast
  show ok: "store_ok (length pool) Q st1"
    using store_ok_slot_for [OF assms(1), of pool tid] assms(2) by simp
  show "table_inv (st_tables st1 ! i)" "table_auth Q (st_tables st1 ! i)"
    using store_ok_nth [OF ok i] by simp_all
qed

lemma store_ok_grant:
  assumes "store_ok (length pool) Q st" "Q k p r"
  shows "store_ok (length pool) Q (snd (store_grant pool st tid k p r))"
proof (cases "slot_for pool st tid")
  case (Pair ix st1)
  show ?thesis
  proof (cases ix)
    case None
    then show ?thesis
      using Pair assms(1) slot_for_None by (auto simp: store_grant_def)
  next
    case (Some i)
    note slot = store_ok_slot [OF assms(1) Pair [unfolded Some]]
    have "store_ok (length pool) Q
      (st1\<lparr>st_tables := (st_tables st1)[i := snd (grant_raw (st_tables st1 ! i) k p r)]\<rparr>)"
      using slot assms(2) by (intro store_ok_table table_inv_grant table_auth_grant)
    then show ?thesis
      using Pair Some by (simp add: store_grant_def case_prod_beta)
  qed
qed

lemma store_ok_revoke:
  assumes "store_ok (length pool) Q st"
  shows "store_ok (length pool) Q (store_revoke pool st tid h)"
  using assms store_ok_slot [OF assms, of tid] slot_for_None [of pool st tid]
  by (auto simp: store_revoke_def split: prod.splits option.splits
      intro!: store_ok_table table_inv_revoke table_auth_revoke)

lemma store_ok_reset:
  assumes "store_ok (length pool) Q st"
  shows "store_ok (length pool) Q (store_reset pool st tid)"
  using store_ok_slot_for [OF assms, of pool tid]
  by (auto simp: store_reset_def store_ok_def MAX_INBOUND_DELEGATIONS_def
      dest!: set_update_subset_insert [THEN subsetD] split: prod.splits option.splits)

lemma store_ok_step:
  assumes ok: "store_ok (length pool) Q st" and Q: "attenuates Q" and op: "op_authorised Q op"
    and step: "store_step (pool, st) op = (pool', st')"
  shows "length pool' = length pool \<and> store_ok (length pool') Q st'"
  using step op store_ok_grant [OF ok] store_ok_revoke [OF ok] store_ok_reset [OF ok]
    store_ok_slot_for [OF ok] store_ok_delegate [OF ok refl Q] ok
  by (cases op) (auto split: if_splits)

lemma store_ok_run:
  assumes "store_ok (length (fst sys)) Q (snd sys)" "attenuates Q" "list_all (op_authorised Q) ops"
  shows "length (fst (store_run sys ops)) = length (fst sys)
    \<and> store_ok (length (fst sys)) Q (snd (store_run sys ops))"
  using assms
proof (induction ops arbitrary: sys)
  case Nil
  then show ?case by (simp add: store_run_def)
next
  case (Cons op ops)
  obtain pool st pool' st' where sys: "sys = (pool, st)" "store_step (pool, st) op = (pool', st')"
    by (metis prod.exhaust)
  have "length pool' = length pool" "store_ok (length pool) Q st'"
    using store_ok_step [OF _ _ _ sys(2), of Q] Cons.prems sys(1) by auto
  then show ?case
    using Cons.IH [of "(pool', st')"] Cons.prems sys by (simp add: store_run_def)
qed

section \<open>The inbound quota\<close>

definition occ_bounded :: "nat \<Rightarrow> nat \<Rightarrow> CapStore \<Rightarrow> bool" where
  "occ_bounded i m st \<longleftrightarrow> table_occupied (st_tables st ! i) \<le> unat (st_inbound st ! i) + m"

lemma table_occupied_empty [simp]: "table_occupied table_empty = 0"
  by (simp add: table_occupied_def in_use_def table_empty_def slot_EMPTY_def is_occupied_def)

lemma table_occupied_grant:
  assumes "table_inv t"
  shows "table_occupied (snd (grant_raw t k p r))
    = (if fst (grant_raw t k p r) = None then table_occupied t else Suc (table_occupied t))"
  using cap_pool.claim_in_use [of t _ "(k, p, r)"] assms
  by (auto simp: table_occupied_def grant_raw_eq table_inv_length split: option.splits)

lemma table_occupied_revoke:
  assumes "table_inv t"
  shows "table_occupied (cap_revoke t h) \<le> table_occupied t"
  using cap_pool.release_in_use [of "unat (handle_slot h)" t] assms
  by (auto simp: table_occupied_def cap_revoke_eq Let_def table_inv_length)

lemma grant_raw_fails:
  "table_inv t \<Longrightarrow> fst (grant_raw t k p r) = None \<longleftrightarrow> k = KNull \<or> table_occupied t = 256"
  by (auto simp: grant_raw_eq table_inv_length table_occupied_def free_slot_None [symmetric]
      split: option.splits) (metis free_slot_None option.distinct(1) table_inv_length)+

lemma occ_bounded_claim:
  assumes "store_ok n Q st" "i < n" "occ_bounded i m st"
  shows "occ_bounded i m (claim_slot st j tid)"
  using assms
  by (cases "j = i") (auto simp: occ_bounded_def claim_slot_def Let_def store_ok_def)

lemma occ_bounded_table:
  assumes "store_ok n Q st" "i < n" "j < n" "occ_bounded i m st"
    and "j = i \<Longrightarrow> table_occupied t \<le> table_occupied (st_tables st ! j) + d"
  shows "occ_bounded i (m + (if j = i then d else 0)) (st\<lparr>st_tables := (st_tables st)[j := t]\<rparr>)"
  using assms by (auto simp: occ_bounded_def store_ok_def nth_list_update)

lemma occ_bounded_slot_for:
  "store_ok n Q st \<Longrightarrow> i < n \<Longrightarrow> occ_bounded i m st \<Longrightarrow> occ_bounded i m (snd (slot_for pool st tid))"
  by (auto simp: slot_for_def occ_bounded_claim split: option.splits)

lemma occ_bounded_mono: "occ_bounded i m st \<Longrightarrow> m \<le> m' \<Longrightarrow> occ_bounded i m' st"
  by (simp add: occ_bounded_def)

lemma occ_bounded_grant:
  assumes ok: "store_ok (length pool) Q st" and i: "i < length pool" and b: "occ_bounded i m st"
  shows "occ_bounded i (m + (if idx_for_tid pool tid = Some i then 1 else 0))
    (snd (store_grant pool st tid k p r))"
proof (cases "idx_for_tid pool tid")
  case None
  then show ?thesis
    using b by (simp add: store_grant_def slot_for_def)
next
  case (Some j)
  let ?st = "claim_slot st j tid"
  have sf: "slot_for pool st tid = (Some j, ?st)"
    using Some by (simp add: slot_for_def)
  note slot = store_ok_slot [OF ok sf]
  have "occ_bounded i (m + (if j = i then 1 else 0))
    (?st\<lparr>st_tables := (st_tables ?st)[j := snd (grant_raw (st_tables ?st ! j) k p r)]\<rparr>)"
    by (rule occ_bounded_table [OF slot(2) i slot(1) occ_bounded_claim [OF ok i b]])
      (use table_occupied_grant [OF slot(3), of k p r] in auto)
  then show ?thesis
    using Some sf by (simp add: store_grant_def case_prod_beta)
qed

lemma occ_bounded_revoke:
  assumes ok: "store_ok (length pool) Q st" and i: "i < length pool" and b: "occ_bounded i m st"
  shows "occ_bounded i m (store_revoke pool st tid h)"
proof (cases "idx_for_tid pool tid")
  case None
  then show ?thesis
    using b by (simp add: store_revoke_def slot_for_def)
next
  case (Some j)
  let ?st = "claim_slot st j tid"
  have sf: "slot_for pool st tid = (Some j, ?st)"
    using Some by (simp add: slot_for_def)
  note slot = store_ok_slot [OF ok sf]
  have "occ_bounded i (m + (if j = i then 0 else 0))
    (?st\<lparr>st_tables := (st_tables ?st)[j := cap_revoke (st_tables ?st ! j) h]\<rparr>)"
    by (rule occ_bounded_table [OF slot(2) i slot(1) occ_bounded_claim [OF ok i b]])
      (use table_occupied_revoke [OF slot(3), of h] in auto)
  then show ?thesis
    using sf by (simp add: store_revoke_def)
qed

lemma occ_bounded_reset:
  assumes ok: "store_ok (length pool) Q st" and i: "i < length pool" and b: "occ_bounded i m st"
  shows "occ_bounded i m (store_reset pool st tid)"
proof (cases "idx_for_tid pool tid")
  case None
  then show ?thesis
    using b by (simp add: store_reset_def slot_for_def)
next
  case (Some j)
  have "occ_bounded i m (claim_slot st j tid)"
    by (rule occ_bounded_claim [OF ok i b])
  then show ?thesis
    using Some i store_ok_claim [OF ok, of j tid]
    by (cases "i = j") (auto simp: store_reset_def slot_for_def occ_bounded_def store_ok_def)
qed

lemma occ_bounded_claim_pair:
  "store_ok n Q st \<Longrightarrow> i < n \<Longrightarrow> occ_bounded i m st \<Longrightarrow> occ_bounded i m (claim_pair st ig g it t)"
  using occ_bounded_claim [of n Q] store_ok_claim [of n Q] by (simp add: claim_pair_def)

lemma occ_bounded_delegate:
  assumes ok: "store_ok (length pool) Q st" and i: "i < length pool" and b: "occ_bounded i m st"
  shows "occ_bounded i (m + (if g = t \<and> idx_for_tid pool g = Some i then 1 else 0))
    (snd (delegate pool st g t h want))"
proof (cases rule: delegate_cases [of pool st g t h want])
  case (unchanged e)
  then show ?thesis
    using b by (simp add: occ_bounded_def)
next
  case (refused ig it e)
  then show ?thesis
    using occ_bounded_claim_pair [OF ok i b, of ig g it t] by (simp add: occ_bounded_def)
next
  case (minted ig it k p r h' t')
  let ?st = "claim_pair st ig g it t"
  have ok': "store_ok (length pool) Q ?st" and b': "occ_bounded i m ?st"
    using ok i b by (simp_all add: store_ok_claim_pair occ_bounded_claim_pair)
  have it: "it < length pool"
    using minted(2) idx_for_tid_Some by blast
  have inv: "table_inv (st_tables ?st ! it)"
    using store_ok_nth [OF ok' it] by simp
  have occ: "table_occupied t' = Suc (table_occupied (st_tables ?st ! it))"
    using table_occupied_grant [OF inv, of k want r] minted(8) by simp
  have lens: "length (st_tables ?st) = length pool" "length (st_inbound ?st) = length pool"
    using ok' by (simp_all add: store_ok_def)
  show ?thesis
  proof (cases "it = i")
    case True
    then show ?thesis
      using b' occ lens it minted inbound_bump [of "st_inbound ?st ! it"]
      by (auto simp: occ_bounded_def charge_inbound_def)
  next
    case False
    then show ?thesis
      using b' minted by (auto simp: occ_bounded_def charge_inbound_def)
  qed
qed

lemma occ_bounded_step:
  assumes ok: "store_ok (length pool) Q st" and i: "i < length pool" and b: "occ_bounded i m st"
  shows "occ_bounded i (m + (if own_mint i pool op then 1 else 0)) (snd (store_step (pool, st) op))"
  using occ_bounded_grant [OF assms] occ_bounded_revoke [OF assms] occ_bounded_reset [OF assms]
    occ_bounded_slot_for [OF assms, of pool] occ_bounded_delegate [OF assms] b
  by (cases op) auto

lemma occ_bounded_run:
  assumes "store_ok (length (fst sys)) (\<lambda>_ _ _. True) (snd sys)" "i < length (fst sys)"
    "occ_bounded i m (snd sys)"
  shows "occ_bounded i (m + own_mints i sys ops) (snd (store_run sys ops))"
  using assms
proof (induction ops arbitrary: sys m)
  case Nil
  then show ?case by (simp add: store_run_def)
next
  case (Cons op ops)
  obtain pool st pool' st' where sys: "sys = (pool, st)" "store_step (pool, st) op = (pool', st')"
    by (metis prod.exhaust)
  have "attenuates (\<lambda>_ _ _. True)" "op_authorised (\<lambda>_ _ _. True) op"
    by (simp_all add: attenuates_def) (cases op; simp)
  then have "length pool' = length pool" "store_ok (length pool) (\<lambda>_ _ _. True) st'"
    using store_ok_step [OF _ _ _ sys(2), of "\<lambda>_ _ _. True"] Cons.prems(1) sys(1) by auto
  moreover have "occ_bounded i (m + (if own_mint i pool op then 1 else 0)) st'"
    using occ_bounded_step [of pool _ st i m op] Cons.prems sys by auto
  ultimately show ?case
    using Cons.IH [of "(pool', st')" "m + (if own_mint i pool op then 1 else 0)"] Cons.prems sys
    by (simp add: store_run_def add.assoc)
qed

section \<open>Properties\<close>

definition history_auth :: "store_op list \<Rightarrow> CapKind \<Rightarrow> CapPerms \<Rightarrow> u32 \<Rightarrow> bool" where
  "history_auth ops k q r \<longleftrightarrow> (\<exists>tid p. SGrant tid k p r \<in> set ops \<and> perms_contains p q)"

lemma attenuates_history: "attenuates (history_auth ops)"
  unfolding attenuates_def history_auth_def by (meson perms_contains_trans)

lemma history_authorised: "list_all (op_authorised (history_auth ops)) ops"
proof -
  have "op_authorised (history_auth ops) op" if "op \<in> set ops" for op
    by (cases op) (use that in \<open>auto simp: history_auth_def\<close>)
  then show ?thesis
    by (simp add: list_all_iff)
qed

lemma store_get_Inr:
  "store_get level pool st tid T h need = (Inr r, st') \<Longrightarrow>
     \<exists>i. slot_for pool st tid = (Some i, st') \<and> cap_get level (st_tables st' ! i) T h need = Inr r"
  by (auto simp: store_get_def split: prod.splits option.splits)

text \<open>
  C1. Delegation never creates authority: after any history of grants by the kernel,
  delegations between tasks, revocations, exits and reuses of task slots, a task that can
  dereference a handle with some permissions has them from a kernel grant of that kind on
  that resource with at least these permissions.
\<close>

theorem delegation_confines_authority:
  assumes "store_run (pool, store_init (length pool)) ops = (pool', st)"
    and "store_get level pool' st tid T h need = (Inr r, st')"
  shows "\<exists>tid' p. SGrant tid' T p r \<in> set ops \<and> perms_contains p need"
proof -
  let ?Q = "history_auth ops"
  have ok: "store_ok (length pool') ?Q st"
    using store_ok_run [OF _ attenuates_history history_authorised, of "(pool, store_init (length pool))" ops]
      store_ok_init assms(1) by simp
  obtain i where i: "slot_for pool' st tid = (Some i, st')"
      "cap_get level (st_tables st' ! i) T h need = Inr r"
    using store_get_Inr [OF assms(2)] by blast
  note slot = store_ok_slot [OF ok i(1)]
  let ?s = "st_tables st' ! i ! unat (handle_slot h)"
  have s: "?s \<in> set (st_tables st' ! i)" "is_occupied ?s" "cs_kind ?s = T" "cs_resource ?s = r"
      "perms_contains (cs_perms ?s) need"
    using i(2) slot(3) by (auto simp: cap_get_Inr_iff Let_def table_inv_length)
  then have "?Q T (cs_perms ?s) r"
    using slot(4) by (auto simp: table_auth_def)
  then show ?thesis
    using s(5) by (auto simp: history_auth_def intro: perms_contains_trans)
qed

definition pool2 :: "TaskSlot list" where
  "pool2 = [\<lparr>ts_valid = True, ts_tid = 5\<rparr>, \<lparr>ts_valid = True, ts_tid = 6\<rparr>]"

theorem delegation_confines_authority_witness:
  "\<exists>tid' p. SGrant tid' KChannel p 7
      \<in> set [SGrant 5 KChannel 11 7, SDelegate 5 6 0x1B010000 1] \<and> perms_contains p 1"
proof (rule delegation_confines_authority)
  show "store_run (pool2, store_init (length pool2))
      [SGrant 5 KChannel 11 7, SDelegate 5 6 0x1B010000 1]
    = (pool2, snd (store_run (pool2, store_init (length pool2))
        [SGrant 5 KChannel 11 7, SDelegate 5 6 0x1B010000 1]))"
    by (simp add: store_run_def)
  show "store_get 0 pool2 (snd (store_run (pool2, store_init (length pool2))
        [SGrant 5 KChannel 11 7, SDelegate 5 6 0x1B010000 1])) 6 KChannel 0x11010000 1
    = (Inr 7, snd (store_get 0 pool2 (snd (store_run (pool2, store_init (length pool2))
        [SGrant 5 KChannel 11 7, SDelegate 5 6 0x1B010000 1])) 6 KChannel 0x11010000 1))"
    by code_simp
qed



lemma claim_pair_tables:
  assumes "ig \<noteq> it"
  shows "st_tables (claim_pair st ig g it t) ! ig = st_tables (claim_slot st ig g) ! ig"
    and "j \<noteq> ig \<Longrightarrow> j \<noteq> it \<Longrightarrow> st_tables (claim_pair st ig g it t) ! j = st_tables st ! j"
  using assms by (simp_all add: claim_pair_def claim_slot_def Let_def)

text \<open>
  C7. A delegation to another task that succeeds mints an attenuated copy and nothing else:
  the grantor holds the capability with at least the requested permissions and DUP, the new
  handle opens exactly the grantor's resource with exactly the requested permissions in the
  table of the target, and the tables of the grantor and of every third task are unchanged.
\<close>

theorem delegate_mints_attenuated_copy:
  assumes ok: "store_ok (length pool) (\<lambda>_ _ _. True) st" and gt: "g \<noteq> t"
    and del: "delegate pool st g t h want = (Inr h', st')"
  shows "\<exists>ig it k p r. idx_for_tid pool g = Some ig \<and> idx_for_tid pool t = Some it \<and> ig \<noteq> it
    \<and> inspect_raw (st_tables (claim_slot st ig g) ! ig) h = Inr (k, p, r)
    \<and> perms_contains p (perms_union want PERM_DUP)
    \<and> (\<forall>level need. cap_get level (st_tables st' ! it) k h' need =
         (if \<not> perms_contains want need then Inl MissingPerms
          else if perms_contains need PERM_WRITE \<and> degraded_active level then Inl Contained
          else Inr r))
    \<and> st_tables st' ! ig = st_tables (claim_slot st ig g) ! ig
    \<and> (\<forall>j. j \<noteq> ig \<longrightarrow> j \<noteq> it \<longrightarrow> st_tables st' ! j = st_tables st ! j)"
proof (cases rule: delegate_cases [of pool st g t h want])
  case (minted ig it k p r hh t')
  let ?st = "claim_pair st ig g it t"
  have ne: "ig \<noteq> it"
    using gt minted(3) by simp
  have it: "it < length pool"
    using minted(2) idx_for_tid_Some by blast
  have ok': "store_ok (length pool) (\<lambda>_ _ _. True) ?st"
    using ok by (rule store_ok_claim_pair)
  have st': "h' = hh" "st_tables st' = (st_tables ?st)[it := t']"
    using minted(10) del gt by (simp_all add: charge_inbound_def)
  have "st_tables st' ! it = t'"
    using st'(2) it ok' by (simp add: store_ok_def)
  then have "\<forall>level need. cap_get level (st_tables st' ! it) k h' need =
      (if \<not> perms_contains want need then Inl MissingPerms
       else if perms_contains need PERM_WRITE \<and> degraded_active level then Inl Contained
       else Inr r)"
    using cap_get_after_grant [OF _ minted(8)] store_ok_nth [OF ok' it] st'(1) by blast
  moreover have "inspect_raw (st_tables (claim_slot st ig g) ! ig) h = Inr (k, p, r)"
    using minted(5) claim_pair_tables(1) [OF ne] by simp
  ultimately show ?thesis
    using minted ne st'(2) claim_pair_tables [OF ne]
    by (intro exI [of _ ig] exI [of _ it] exI [of _ k] exI [of _ p] exI [of _ r])
      (simp add: perms_union_least)
qed (use del in auto)

lemma length_pool2 [simp]: "length pool2 = 2"
  by (simp add: pool2_def)

lemma store_ok_pool2:
  "store_ok 2 (\<lambda>_ _ _. True) (snd (store_grant pool2 (store_init 2) tid k p r))"
  using store_ok_grant [of pool2 "\<lambda>_ _ _. True" "store_init 2"] store_ok_init by simp

theorem delegate_mints_attenuated_copy_witness:
  "\<exists>h' st'. delegate pool2 (snd (store_grant pool2 (store_init 2) 5 KChannel 11 7)) 5 6 0x1B010000 1
      = (Inr h', st')
   \<and> (\<exists>ig it k p r. idx_for_tid pool2 5 = Some ig \<and> idx_for_tid pool2 6 = Some it \<and> ig \<noteq> it
     \<and> cap_get 0 (st_tables st' ! it) k h' 1 = Inr r)"
proof -
  let ?st = "snd (store_grant pool2 (store_init 2) 5 KChannel 11 7)"
  let ?st' = "snd (delegate pool2 ?st 5 6 0x1B010000 1)"
  have ok: "store_ok (length pool2) (\<lambda>_ _ _. True) ?st"
    using store_ok_pool2 by simp
  have "fst (delegate pool2 ?st 5 6 0x1B010000 1) = Inr 0x11010000"
    by code_simp
  then have del: "delegate pool2 ?st 5 6 0x1B010000 1 = (Inr 0x11010000, ?st')"
    by (simp add: prod_eq_iff)
  have ne: "(5 :: u32) \<noteq> 6"
    by simp
  obtain ig it k p r where w: "idx_for_tid pool2 5 = Some ig" "idx_for_tid pool2 6 = Some it" "ig \<noteq> it"
    "\<forall>level need. cap_get level (st_tables ?st' ! it) k 0x11010000 need =
       (if \<not> perms_contains 1 need then Inl MissingPerms
        else if perms_contains need PERM_WRITE \<and> degraded_active level then Inl Contained
        else Inr r)"
    using delegate_mints_attenuated_copy [OF ok ne del] by (elim exE conjE) (rule that)
  have "cap_get 0 (st_tables ?st' ! it) k 0x11010000 1 = Inr r"
    using w(4) by (simp add: degraded_active_def degrade_levels)
  then show ?thesis
    using del w by blast
qed

text \<open>
  C15. Authority does not leak through the reuse of a task slot: while the table of a slot still
  belongs to a previous occupant, every handle the new occupant presents is refused as stale,
  and the new occupant starts with an empty table and a fresh quota.
\<close>

theorem slot_reuse_isolates:
  assumes "store_ok (length pool) (\<lambda>_ _ _. True) st"
    and "idx_for_tid pool tid = Some i" "st_owner st ! i \<noteq> tid"
  shows "fst (store_get level pool st tid T h need) = Inl Stale
    \<and> fst (store_occupied pool st tid) = 0
    \<and> st_inbound (snd (store_get level pool st tid T h need)) ! i = 0"
proof -
  have i: "i < length pool"
    using assms(2) idx_for_tid_Some by blast
  have sf: "slot_for pool st tid = (Some i, claim_slot st i tid)"
    using assms(2) by (simp add: slot_for_def)
  have t: "st_tables (claim_slot st i tid) ! i = table_empty"
    and q: "st_inbound (claim_slot st i tid) ! i = 0"
    using assms(1,3) i by (auto simp: claim_slot_def Let_def store_ok_def)
  have "cap_get level table_empty T h need = Inl Stale"
    by (auto simp: cap_get_Stale_iff Let_def table_empty_def MAX_CAPS_PER_TASK_def
        slot_EMPTY_def is_occupied_def)
  then show ?thesis
    using sf t q by (simp add: store_get_def store_occupied_def)
qed

theorem slot_reuse_isolates_witness:
  "fst (store_get 0 (pool2[0 := \<lparr>ts_valid = True, ts_tid = 9\<rparr>])
     (snd (store_grant pool2 (store_init 2) 5 KChannel 11 7)) 9 KChannel 0x1B010000 1) = Inl Stale"
proof -
  let ?pool = "pool2[0 := \<lparr>ts_valid = True, ts_tid = 9\<rparr>]"
  let ?st = "snd (store_grant pool2 (store_init 2) 5 KChannel 11 7)"
  have "store_ok (length ?pool) (\<lambda>_ _ _. True) ?st"
    using store_ok_pool2 by simp
  moreover have "idx_for_tid ?pool 9 = Some 0"
    by code_simp
  moreover have "st_owner ?st ! 0 \<noteq> 9"
    by code_simp
  ultimately show ?thesis
    using slot_reuse_isolates by blast
qed

end
