(* ===== verification/Ports.thy ===== *)
theory Ports
  imports Bounded_Fifo Cap_Store Cap_Gate
begin

text \<open>
  Event ports (\<open>crates/ipc/src/port.rs\<close>) and interrupt bindings
  (\<open>crates/ipc/src/irq_bind.rs\<close>).  A port queues up to 16 events in an array that is shifted
  down when the oldest event is taken; an interrupt is dispatched to every port bound to it.
  The table of ports is a list whose length is the configured \<open>MAX_PORTS\<close>.
\<close>

definition PORT_MAX_SOURCES :: nat where "PORT_MAX_SOURCES = 16"

datatype PortSourceKind = SrcNone | SrcChannel u32 | SrcRing u32 | SrcIrq u32 | SrcTimer u64

record PortSource =
  src_kind :: PortSourceKind
  src_user_key :: u64

record PortEvent =
  ev_key :: u64
  ev_source_type :: u8
  ev_source_id :: u32

record Port =
  po_sources :: "PortSource list"
  po_source_count :: nat
  po_owner_task :: u64
  po_active :: bool
  po_pending :: "PortEvent list"
  po_pending_count :: u32

type_synonym PortTable = "Port list"

definition usize_MAX :: u64 where "usize_MAX = - 1"

definition port_empty :: Port where
  "port_empty =
     \<lparr>po_sources = replicate PORT_MAX_SOURCES \<lparr>src_kind = SrcNone, src_user_key = 0\<rparr>,
      po_source_count = 0, po_owner_task = usize_MAX, po_active = False,
      po_pending = replicate PORT_MAX_SOURCES \<lparr>ev_key = 0, ev_source_type = 0, ev_source_id = 0\<rparr>,
      po_pending_count = 0\<rparr>"

definition ports_init :: "nat \<Rightarrow> PortTable" where
  "ports_init max_ports = replicate max_ports port_empty"

definition port_create :: "u64 \<Rightarrow> PortTable \<Rightarrow> u32 option \<times> PortTable" where
  "port_create owner_task ports =
     (case first_idx (\<lambda>p. \<not> po_active p) ports of
        None \<Rightarrow> (None, ports)
      | Some i \<Rightarrow>
          (Some (of_nat i), ports[i := port_empty\<lparr>po_owner_task := owner_task, po_active := True\<rparr>]))"

definition port_destroy :: "PortTable \<Rightarrow> u32 \<Rightarrow> PortTable" where
  "port_destroy ports port_id =
     (if unat port_id \<ge> length ports then ports else ports[unat port_id := port_empty])"

definition port_bind :: "PortTable \<Rightarrow> u32 \<Rightarrow> PortSourceKind \<Rightarrow> u64 \<Rightarrow> bool \<times> PortTable" where
  "port_bind ports port_id k user_key =
     (if unat port_id \<ge> length ports then (False, ports)
      else let port = ports ! unat port_id in
        if \<not> po_active port \<or> po_source_count port \<ge> PORT_MAX_SOURCES then (False, ports)
        else (True, ports[unat port_id := port
               \<lparr>po_sources := (po_sources port)
                  [po_source_count port := \<lparr>src_kind = k, src_user_key = user_key\<rparr>],
                po_source_count := po_source_count port + 1\<rparr>]))"

definition port_put :: "PortEvent \<Rightarrow> Port \<Rightarrow> Port" where
  "port_put event port =
     (let idx = unat (po_pending_count port) in
      if idx < PORT_MAX_SOURCES
      then port\<lparr>po_pending := (po_pending port)[idx := event], po_pending_count := of_nat (idx + 1)\<rparr>
      else port)"

definition port_queue_event :: "PortTable \<Rightarrow> u32 \<Rightarrow> PortEvent \<Rightarrow> PortTable" where
  "port_queue_event ports port_id event =
     (if unat port_id \<ge> length ports then ports
      else let port = ports ! unat port_id in
        if \<not> po_active port then ports
        else ports[unat port_id := port_put event port])"

definition port_take :: "Port \<Rightarrow> PortEvent option \<times> Port" where
  "port_take port =
     (let count = po_pending_count port in
      if count = 0 then (None, port)
      else (Some (po_pending port ! 0),
            port\<lparr>po_pending := foldl (\<lambda>p i. p[i - 1 := p ! i]) (po_pending port) [1..<unat count],
                 po_pending_count := count - 1\<rparr>))"

definition port_poll :: "PortTable \<Rightarrow> u32 \<Rightarrow> PortEvent option \<times> PortTable" where
  "port_poll ports port_id =
     (if unat port_id \<ge> length ports then (None, ports)
      else let port = ports ! unat port_id in
        if \<not> po_active port then (None, ports)
        else case port_take port of (ev, port') \<Rightarrow> (ev, ports[unat port_id := port']))"

definition port_has_events :: "PortTable \<Rightarrow> u32 \<Rightarrow> bool" where
  "port_has_events ports port_id \<longleftrightarrow>
     unat port_id < length ports
     \<and> (let port = ports ! unat port_id in po_active port \<and> po_pending_count port > 0)"

definition port_release_all :: "PortTable \<Rightarrow> u32 \<Rightarrow> PortTable" where
  "port_release_all ports tid =
     map (\<lambda>p. if po_active p \<and> po_owner_task p = ucast tid then port_empty else p) ports"

definition port_owner :: "PortTable \<Rightarrow> u32 \<Rightarrow> u64" where
  "port_owner ports port_id =
     (if unat port_id \<ge> length ports then usize_MAX else po_owner_task (ports ! unat port_id))"

section \<open>Typed entry points\<close>

datatype PortCapError = PoCap CapError | PoFull | PoEmpty | PoClosed

definition port_create_cap ::
  "TaskSlot list \<Rightarrow> CapStore \<Rightarrow> PortTable \<Rightarrow> u32 \<Rightarrow> CapHandle option \<times> CapStore \<times> PortTable" where
  "port_create_cap pool st ports tid =
     (case port_create (ucast tid) ports of
        (None, ports') \<Rightarrow> (None, st, ports')
      | (Some port_id, ports') \<Rightarrow>
          (case store_grant pool st tid KPort PERM_RW port_id of (h, st') \<Rightarrow> (h, st', ports')))"

definition port_poll_cap ::
  "u8 \<Rightarrow> CapTable \<Rightarrow> CapHandle \<Rightarrow> unit \<Rightarrow> PortTable \<Rightarrow> (PortCapError + PortEvent) \<times> PortTable" where
  "port_poll_cap level table cap u ports =
     (case cap_get level table KPort cap PERM_READ of
        Inl e \<Rightarrow> (Inl (PoCap e), ports)
      | Inr port_id \<Rightarrow>
          (case port_poll ports port_id of
             (None, ports') \<Rightarrow> (Inl PoEmpty, ports')
           | (Some ev, ports') \<Rightarrow> (Inr ev, ports')))"

definition port_destroy_cap ::
  "u8 \<Rightarrow> CapTable \<Rightarrow> CapHandle \<Rightarrow> PortTable \<Rightarrow> (PortCapError + unit) \<times> CapTable \<times> PortTable" where
  "port_destroy_cap level table cap ports =
     (case cap_get level table KPort cap PERM_WRITE of
        Inl e \<Rightarrow> (Inl (PoCap e), table, ports)
      | Inr port_id \<Rightarrow> (Inr (), cap_revoke table cap, port_destroy ports port_id))"

section \<open>The event queue of a port\<close>

definition port_inv :: "Port \<Rightarrow> bool" where
  "port_inv p \<longleftrightarrow> length (po_sources p) = PORT_MAX_SOURCES \<and> po_source_count p \<le> PORT_MAX_SOURCES
     \<and> length (po_pending p) = PORT_MAX_SOURCES \<and> unat (po_pending_count p) \<le> PORT_MAX_SOURCES"

definition port_contents :: "Port \<Rightarrow> PortEvent list" where
  "port_contents p = take (unat (po_pending_count p)) (po_pending p)"

definition port_push :: "PortEvent \<Rightarrow> Port \<Rightarrow> Port option" where
  "port_push ev p = (if unat (po_pending_count p) < PORT_MAX_SOURCES then Some (port_put ev p) else None)"

definition port_pop :: "Port \<Rightarrow> (PortEvent \<times> Port) option" where
  "port_pop p = (case port_take p of (None, _) \<Rightarrow> None | (Some ev, p') \<Rightarrow> Some (ev, p'))"

lemma shift_down:
  "n < length xs \<Longrightarrow> foldl (\<lambda>p i. p[i - 1 := p ! i]) xs [1..<Suc n] = take n (tl xs) @ drop n xs"
proof (induction n)
  case 0
  then show ?case by simp
next
  case (Suc n)
  let ?ys = "take n (tl xs) @ drop n xs"
  have len: "length (take n (tl xs)) = n"
    using Suc.prems by simp
  have "foldl (\<lambda>p i. p[i - 1 := p ! i]) xs [1..<Suc (Suc n)] = ?ys[n := ?ys ! Suc n]"
    using Suc by simp
  also have "?ys ! Suc n = xs ! Suc n"
    using Suc.prems len by (simp add: nth_append)
  also have "?ys[n := xs ! Suc n] = take n (tl xs) @ (drop n xs)[0 := xs ! Suc n]"
    using len by (simp add: list_update_append)
  also have "\<dots> = take (Suc n) (tl xs) @ drop (Suc n) xs"
    using Suc.prems
    by (cases xs; cases "drop n xs")
      (auto simp: take_Suc_conv_app_nth drop_Suc nth_tl Cons_nth_drop_Suc [symmetric])
  finally show ?case .
qed

lemma port_inv_empty [simp]: "port_inv port_empty"
  by (simp add: port_inv_def port_empty_def)

lemma length_port_contents [simp]: "port_inv p \<Longrightarrow> length (port_contents p) = unat (po_pending_count p)"
  by (simp add: port_inv_def port_contents_def)

lemma port_put_refines:
  assumes "port_inv p" "unat (po_pending_count p) < PORT_MAX_SOURCES"
  shows "port_inv (port_put ev p) \<and> port_contents (port_put ev p) = port_contents p @ [ev]"
proof -
  let ?n = "unat (po_pending_count p)"
  have n: "?n < 16" "length (po_pending p) = 16"
    using assms by (simp_all add: port_inv_def PORT_MAX_SOURCES_def)
  have "unat (1 + po_pending_count p) = Suc ?n"
    using n by (simp add: unat_word_ariths)
  then show ?thesis
    using assms n
    by (simp add: port_put_def port_inv_def port_contents_def PORT_MAX_SOURCES_def
        take_Suc_conv_app_nth)
qed

lemma port_take_refines:
  assumes inv: "port_inv p" and ne: "po_pending_count p \<noteq> 0"
  shows "\<exists>p'. port_take p = (Some (hd (port_contents p)), p') \<and> port_inv p'
    \<and> port_contents p = hd (port_contents p) # port_contents p'
    \<and> po_active p' = po_active p \<and> po_owner_task p' = po_owner_task p"
proof -
  let ?n = "unat (po_pending_count p)"
  obtain m where m: "?n = Suc m"
    using ne by (metis not0_implies_Suc unat_eq_0)
  have len: "length (po_pending p) = 16" "Suc m \<le> 16"
    using inv m by (simp_all add: port_inv_def PORT_MAX_SOURCES_def)
  then obtain x xs where xs: "po_pending p = x # xs"
    by (cases "po_pending p") auto
  have shift: "foldl (\<lambda>p i. p[i - 1 := p ! i]) (po_pending p) [1..<?n] = take m xs @ drop m (po_pending p)"
    using shift_down [of m "po_pending p"] len m by (simp add: xs)
  have cnt: "unat (po_pending_count p - 1) = m"
    using m ne by (metis diff_Suc_1 unat_minus_one)
  let ?p' = "p\<lparr>po_pending := take m xs @ drop m (po_pending p), po_pending_count := po_pending_count p - 1\<rparr>"
  have "port_take p = (Some x, ?p')"
    using ne shift by (simp add: port_take_def Let_def) (simp add: xs)
  moreover have "port_contents p = x # port_contents ?p'"
    using len m cnt xs by (simp add: port_contents_def)
  moreover have "port_inv ?p'"
    using inv len cnt xs by (simp add: port_inv_def PORT_MAX_SOURCES_def)
  ultimately show ?thesis
    by auto
qed

lemma port_take_empty: "po_pending_count p = 0 \<Longrightarrow> port_take p = (None, p)"
  by (simp add: port_take_def)

interpretation port_queue: bounded_fifo port_inv port_contents PORT_MAX_SOURCES "\<lambda>_. True" port_push port_pop
proof (unfold_locales, goal_cases)
  case (1 p)
  then show ?case
    by (simp add: port_inv_def port_contents_def)
next
  case (2 p ev)
  then show ?case
    by (auto simp: port_push_def port_inv_def port_contents_def)
next
  case (3 p ev p')
  then show ?case
    using port_put_refines by (auto simp: port_push_def split: if_splits)
next
  case (4 p)
  then show ?case
    using port_take_refines [of p] port_take_empty [of p]
    by (cases "po_pending_count p = 0") (auto simp: port_pop_def port_contents_def)
next
  case (5 p ev p')
  then show ?case
    using port_take_refines [of p] port_take_empty [of p]
    by (cases "po_pending_count p = 0") (auto simp: port_pop_def)
qed

section \<open>The port table\<close>

definition ports_inv :: "PortTable \<Rightarrow> bool" where
  "ports_inv ports \<longleftrightarrow> list_all port_inv ports \<and> length ports < 2 ^ 32"

lemma ports_inv_nth: "ports_inv ports \<Longrightarrow> i < length ports \<Longrightarrow> port_inv (ports ! i)"
  by (simp add: ports_inv_def list_all_length)

lemma ports_inv_update: "ports_inv ports \<Longrightarrow> port_inv p \<Longrightarrow> ports_inv (ports[i := p])"
  by (auto simp: ports_inv_def list_all_iff dest!: set_update_subset_insert [THEN subsetD])

definition port_opened :: "u64 \<Rightarrow> Port \<Rightarrow> Port" where
  "port_opened owner p = port_empty\<lparr>po_owner_task := owner, po_active := True\<rparr>"

interpretation port_pool: slot_pool po_active port_opened "\<lambda>_. True" "\<lambda>_. port_empty"
  by unfold_locales (simp_all add: port_opened_def port_empty_def)

lemma port_create_eq:
  "port_create owner ports =
     (case free_slot po_active ports of
        None \<Rightarrow> (None, ports)
      | Some i \<Rightarrow> (Some (of_nat i), ports[i := port_opened owner (ports ! i)]))"
  by (simp add: port_create_def free_slot_def port_opened_def split: option.split)

lemma ports_inv_ops:
  assumes "ports_inv ports"
  shows "ports_inv (snd (port_create owner ports))" "ports_inv (port_destroy ports i)"
    "ports_inv (snd (port_bind ports i k key))" "ports_inv (port_queue_event ports i ev)"
    "ports_inv (snd (port_poll ports i))" "ports_inv (port_release_all ports tid)"
proof -
  have opened: "port_inv (port_opened owner p)" for p
    using port_inv_empty by (simp add: port_inv_def port_opened_def)
  show "ports_inv (snd (port_create owner ports))"
    using assms opened by (auto simp: port_create_eq intro: ports_inv_update split: option.splits)
  show "ports_inv (port_destroy ports i)"
    using assms by (auto simp: port_destroy_def intro: ports_inv_update)
  show "ports_inv (snd (port_bind ports i k key))"
    using assms ports_inv_nth [OF assms, of "unat i"]
    by (auto simp: port_bind_def Let_def port_inv_def intro!: ports_inv_update)
  show "ports_inv (port_queue_event ports i ev)"
    using assms ports_inv_nth [OF assms, of "unat i"] port_put_refines [of "ports ! unat i" ev]
    by (auto simp: port_queue_event_def Let_def port_put_def intro!: ports_inv_update)
  show "ports_inv (snd (port_poll ports i))"
    using assms ports_inv_nth [OF assms, of "unat i"] port_take_refines [of "ports ! unat i"]
      port_take_empty [of "ports ! unat i"]
    by (cases "po_pending_count (ports ! unat i) = 0")
      (auto simp: port_poll_def Let_def intro!: ports_inv_update)
  show "ports_inv (port_release_all ports tid)"
    using assms by (auto simp: ports_inv_def port_release_all_def list_all_length)
qed

lemma ports_inv_init: "n < 2 ^ 32 \<Longrightarrow> ports_inv (ports_init n)"
  by (simp add: ports_inv_def ports_init_def list_all_length)

definition port_view :: "PortTable \<Rightarrow> u32 \<Rightarrow> Port option" where
  "port_view ports r = (if unat r < length ports then Some (ports ! unat r) else None)"

interpretation poll_gate: resource_gate KPort PERM_READ port_poll_cap port_view
proof (unfold_locales, goal_cases)
  case (1 level t h e a st)
  then show ?case
    by (simp add: port_poll_cap_def)
next
  case (2 level t h r r' a st)
  then have ne: "unat r \<noteq> unat r'"
    by (simp add: word_unat_eq_iff)
  have "snd (port_poll_cap level t h a st) = snd (port_poll st r)"
    using 2 by (simp add: port_poll_cap_def split: prod.splits option.splits)
  then show ?case
    using ne by (auto simp: port_poll_def Let_def port_view_def split: prod.splits)
qed

section \<open>Interrupt bindings\<close>

definition MAX_IRQ_BINDINGS :: nat where "MAX_IRQ_BINDINGS = 32"

definition PORT_SOURCE_TYPE_IRQ :: u8 where "PORT_SOURCE_TYPE_IRQ = 3"

datatype IrqTarget = TargetNone | WakeTask u32 | QueueToPort u32 u64

record IrqBinding =
  ib_irq :: u32
  ib_owner_task :: u32
  ib_target :: IrqTarget
  ib_active :: bool

type_synonym IrqTable = "IrqBinding list"

definition irq_binding_empty :: IrqBinding where
  "irq_binding_empty = \<lparr>ib_irq = 0, ib_owner_task = 0, ib_target = TargetNone, ib_active = False\<rparr>"

definition irq_bindings_init :: IrqTable where
  "irq_bindings_init = replicate MAX_IRQ_BINDINGS irq_binding_empty"

definition irq_bind :: "IrqTable \<Rightarrow> u32 \<Rightarrow> u32 \<Rightarrow> IrqTarget \<Rightarrow> int \<times> IrqTable" where
  "irq_bind bindings irq owner_task target =
     (case first_idx (\<lambda>b. ib_active b \<and> ib_irq b = irq \<and> ib_owner_task b = owner_task) bindings of
        Some i \<Rightarrow> (0, bindings[i := (bindings ! i)\<lparr>ib_target := target\<rparr>])
      | None \<Rightarrow>
          (case first_idx (\<lambda>b. \<not> ib_active b) bindings of
             Some i \<Rightarrow>
               (0, bindings[i := \<lparr>ib_irq = irq, ib_owner_task = owner_task, ib_target = target,
                                  ib_active = True\<rparr>])
           | None \<Rightarrow> (-1, bindings)))"

definition irq_unbind_all :: "IrqTable \<Rightarrow> u32 \<Rightarrow> IrqTable" where
  "irq_unbind_all bindings owner_task =
     map (\<lambda>b. if ib_active b \<and> ib_owner_task b = owner_task then irq_binding_empty else b) bindings"

definition irq_targets :: "IrqTable \<Rightarrow> u32 \<Rightarrow> IrqTarget list" where
  "irq_targets bindings irq = map ib_target (filter (\<lambda>b. ib_active b \<and> ib_irq b = irq) bindings)"

fun irq_deliver :: "u32 \<Rightarrow> PortTable \<Rightarrow> IrqTarget \<Rightarrow> PortTable" where
  "irq_deliver irq ports (QueueToPort port_id user_key) =
     port_queue_event ports port_id
       \<lparr>ev_key = user_key, ev_source_type = PORT_SOURCE_TYPE_IRQ, ev_source_id = irq\<rparr>"
| "irq_deliver irq ports (WakeTask tid) = ports"
| "irq_deliver irq ports TargetNone = ports"

definition irq_dispatch :: "IrqTable \<Rightarrow> PortTable \<Rightarrow> u32 \<Rightarrow> PortTable" where
  "irq_dispatch bindings ports irq = foldl (irq_deliver irq) ports (irq_targets bindings irq)"

section \<open>Dispatch\<close>

fun events_for :: "u32 \<Rightarrow> u32 \<Rightarrow> IrqTarget list \<Rightarrow> PortEvent list" where
  "events_for irq r [] = []"
| "events_for irq r (QueueToPort port_id user_key # ts) =
     (if port_id = r
      then [\<lparr>ev_key = user_key, ev_source_type = PORT_SOURCE_TYPE_IRQ, ev_source_id = irq\<rparr>] else [])
     @ events_for irq r ts"
| "events_for irq r (t # ts) = events_for irq r ts"

lemma port_queue_event_length [simp]: "length (port_queue_event ports i ev) = length ports"
  by (simp add: port_queue_event_def Let_def)

lemma port_queue_event_contents:
  assumes "ports_inv ports" "unat r < length ports" "po_active (ports ! unat r)"
  shows "port_contents (port_queue_event ports i ev ! unat r)
      = take PORT_MAX_SOURCES (port_contents (ports ! unat r) @ (if i = r then [ev] else []))
    \<and> po_active (port_queue_event ports i ev ! unat r)
    \<and> po_owner_task (port_queue_event ports i ev ! unat r) = po_owner_task (ports ! unat r)"
proof -
  let ?p = "ports ! unat r"
  have inv: "port_inv ?p"
    using assms(1,2) by (rule ports_inv_nth)
  then have len: "length (port_contents ?p) = unat (po_pending_count ?p)"
      "unat (po_pending_count ?p) \<le> PORT_MAX_SOURCES"
    by (simp_all add: port_inv_def)
  show ?thesis
  proof (cases "i = r")
    case True
    then show ?thesis
      using assms len port_put_refines [OF inv, of ev]
      by (cases "unat (po_pending_count ?p) < PORT_MAX_SOURCES")
        (auto simp: port_queue_event_def port_put_def Let_def)
  next
    case False
    then have "unat i \<noteq> unat r"
      by (simp add: word_unat_eq_iff)
    then show ?thesis
      using assms len False by (simp add: port_queue_event_def Let_def)
  qed
qed

lemma take_cut: "take n (take n xs @ ys) = take n (xs @ ys)"
  by (cases "length xs \<le> n") simp_all

lemma irq_deliver_all:
  assumes "ports_inv ports" "unat r < length ports" "po_active (ports ! unat r)"
  shows "port_contents (foldl (irq_deliver irq) ports ts ! unat r)
    = take PORT_MAX_SOURCES (port_contents (ports ! unat r) @ events_for irq r ts)"
  using assms
proof (induction ts arbitrary: ports)
  case Nil
  then show ?case
    using ports_inv_nth [of ports "unat r"] by (simp add: port_inv_def port_contents_def)
next
  case (Cons t ts)
  show ?case
  proof (cases t)
    case (QueueToPort i key)
    let ?ev = "\<lparr>ev_key = key, ev_source_type = PORT_SOURCE_TYPE_IRQ, ev_source_id = irq\<rparr>"
    note q = port_queue_event_contents [OF Cons.prems, of i ?ev]
    have "port_contents (foldl (irq_deliver irq) (port_queue_event ports i ?ev) ts ! unat r)
        = take PORT_MAX_SOURCES (port_contents (port_queue_event ports i ?ev ! unat r) @ events_for irq r ts)"
      using Cons.IH [OF ports_inv_ops(4) [OF Cons.prems(1)]] Cons.prems(2) q by simp
    also have "\<dots> = take PORT_MAX_SOURCES (port_contents (ports ! unat r)
        @ (if i = r then [?ev] else []) @ events_for irq r ts)"
      using q by (simp only: take_cut append_assoc)
    finally show ?thesis
      using QueueToPort by (simp only: foldl.simps irq_deliver.simps events_for.simps)
  next
    case (WakeTask tid)
    then show ?thesis
      using Cons by simp
  next
    case TargetNone
    then show ?thesis
      using Cons by simp
  qed
qed



lemma irq_unbind_all_targets:
  "irq_targets (irq_unbind_all bindings tid) irq =
     map ib_target (filter (\<lambda>b. ib_active b \<and> ib_irq b = irq \<and> ib_owner_task b \<noteq> tid) bindings)"
  by (induction bindings) (auto simp: irq_targets_def irq_unbind_all_def irq_binding_empty_def)

lemma port_release_all_view:
  "i < length ports \<Longrightarrow> port_release_all ports tid ! i =
     (if po_active (ports ! i) \<and> po_owner_task (ports ! i) = ucast tid then port_empty else ports ! i)"
  by (simp add: port_release_all_def)

section \<open>Ports and capabilities\<close>


definition port_caps :: CapTable where
  "port_caps = snd (grant_raw (snd (grant_raw table_empty KPort PERM_RW 0)) KPort PERM_READ 0)"


text \<open>
  A failed \<open>port_create_cap\<close> loses a port: when the table of the task has no room for the
  capability, the call reports failure but the port it allocated stays active, so the number of
  ports in use has grown by one.
\<close>

lemma port_create_cap_leaks:
  assumes "port_create (ucast tid) ports = (Some port_id, ports')"
    and "fst (store_grant pool st tid KPort PERM_RW port_id) = None"
  shows "\<exists>st'. port_create_cap pool st ports tid = (None, st', ports')
    \<and> in_use po_active ports' = Suc (in_use po_active ports)"
proof -
  obtain i where i: "free_slot po_active ports = Some i" "ports' = ports[i := port_opened (ucast tid) (ports ! i)]"
    using assms(1) by (auto simp: port_create_eq split: option.splits)
  have "in_use po_active ports' = Suc (in_use po_active ports)"
    using port_pool.claim_in_use [OF i(1), of "ucast tid"] i(2) by simp
  then show ?thesis
    using assms by (simp add: port_create_cap_def case_prod_beta)
qed

lemma port_create_cap_leaks_witness:
  "\<exists>st'. port_create_cap [] (store_init 0) (ports_init 1) 5 = (None, st', snd (port_create 5 (ports_init 1)))
    \<and> in_use po_active (snd (port_create 5 (ports_init 1))) = Suc (in_use po_active (ports_init 1))"
  by (rule port_create_cap_leaks [where port_id = 0]) code_simp+

text \<open>
  A second capability outlives the port: \<open>port_destroy_cap\<close> revokes only the handle it was
  called with.  If the table holds another capability for the same port, and another task then
  creates a port, which reuses the freed index, the surviving capability polls the events of
  the new owner.
\<close>

lemma port_cap_outlives_port:
  assumes t: "table_inv t" and h1: "cap_get level t KPort h1 PERM_WRITE = Inr r"
    and h2: "cap_get level t KPort h2 PERM_READ = Inr r" and ne: "handle_slot h1 \<noteq> handle_slot h2"
    and ports: "ports_inv ports" "unat r < length ports" "\<forall>j<unat r. po_active (ports ! j)"
  shows "\<exists>t' ports1 ports2. port_destroy_cap level t h1 ports = (Inr (), t', ports1)
    \<and> port_create owner ports1 = (Some r, ports2)
    \<and> fst (port_poll_cap level t' h2 () (port_queue_event ports2 r ev)) = Inr ev"
proof -
  let ?p1 = "ports[unat r := port_empty]" and ?t = "cap_revoke t h1"
  let ?p2 = "?p1[unat r := port_opened owner port_empty]"
  have d: "port_destroy_cap level t h1 ports = (Inr (), ?t, ?p1)"
    using h1 ports(2) by (simp add: port_destroy_cap_def port_destroy_def)
  have "free_slot po_active ?p1 = Some (unat r)"
    using ports(2,3) by (auto simp: free_slot_Some port_empty_def)
  then have c: "port_create owner ?p1 = (Some r, ?p2)"
    using ports(2) by (simp add: port_create_eq)
  have "cap_get level ?t KPort h2 PERM_READ = cap_get level t KPort h2 PERM_READ"
    using ne by (intro cap_get_cong_slot) (simp add: cap_revoke_eq Let_def word_unat_eq_iff)
  then have g: "cap_get level ?t KPort h2 PERM_READ = Inr r"
    using h2 by simp
  have inv: "port_inv (port_opened owner port_empty)"
    using port_inv_empty by (simp add: port_inv_def port_opened_def)
  have "po_pending_count (port_opened owner port_empty) = 0"
    by (simp add: port_opened_def port_empty_def)
  then have "port_push ev (port_opened owner port_empty) = Some (port_put ev (port_opened owner port_empty))"
      "port_contents (port_opened owner port_empty) = []"
    by (simp_all add: port_push_def PORT_MAX_SOURCES_def port_contents_def)
  then obtain q where "port_pop (port_put ev (port_opened owner port_empty)) = Some (ev, q)"
    using port_queue.push_then_pops [OF inv] by blast
  then have pop: "fst (port_take (port_put ev (port_opened owner port_empty))) = Some ev"
    by (auto simp: port_pop_def split: prod.splits option.splits)
  have act: "po_active (port_opened owner port_empty)" "po_active (port_put ev (port_opened owner port_empty))"
    by (simp_all add: port_opened_def port_put_def Let_def)
  have "port_queue_event ?p2 r ev = ports[unat r := port_put ev (port_opened owner port_empty)]"
    using ports(2) act(1) by (simp add: port_queue_event_def)
  then have "fst (port_poll (port_queue_event ?p2 r ev) r) = Some ev"
    using ports(2) act(2) pop by (simp add: port_poll_def case_prod_beta)
  then have "fst (port_poll_cap level ?t h2 () (port_queue_event ?p2 r ev)) = Inr ev"
    using g by (cases "port_poll (port_queue_event ?p2 r ev) r") (simp add: port_poll_cap_def)
  then show ?thesis
    using d c by blast
qed

lemma port_cap_outlives_port_witness:
  "\<exists>t' ports1 ports2. port_destroy_cap 0 port_caps 0x33010000 (snd (port_create 5 (ports_init 1)))
      = (Inr (), t', ports1)
    \<and> port_create 6 ports1 = (Some 0, ports2)
    \<and> fst (port_poll_cap 0 t' 0x31010001 ()
        (port_queue_event ports2 0 \<lparr>ev_key = 1, ev_source_type = 3, ev_source_id = 7\<rparr>))
      = Inr \<lparr>ev_key = 1, ev_source_type = 3, ev_source_id = 7\<rparr>"
proof (rule port_cap_outlives_port)
  show "table_inv port_caps"
    by (simp add: port_caps_def table_inv_grant)
  show "ports_inv (snd (port_create 5 (ports_init 1)))"
    by (intro ports_inv_ops(1) ports_inv_init) simp
  show "cap_get 0 port_caps KPort 0x33010000 PERM_WRITE = Inr 0"
    "cap_get 0 port_caps KPort 0x31010001 PERM_READ = Inr 0"
    "handle_slot 0x33010000 \<noteq> handle_slot 0x31010001"
    "unat (0 :: u32) < length (snd (port_create 5 (ports_init 1)))"
    by code_simp+
qed simp

end
