(* ===== verification/Signals.thy ===== *)
theory Signals
  imports Rust_Prelude
begin

text \<open>
  Per-task signal state (\<open>crates/ipc/src/signal.rs\<close>): a packed table of at most 64 tasks with
  the pending set, the blocked set and the handlers of each.  The caller context is an argument.
\<close>

definition SIGKILL :: u32 where "SIGKILL = 9"
definition SIGSTOP :: u32 where "SIGSTOP = 19"
definition NSIG :: u32 where "NSIG = 32"
definition SIG_DFL :: u64 where "SIG_DFL = 0"
definition SIG_IGN :: u64 where "SIG_IGN = 1"
definition SIG_MAX_TASKS :: nat where "SIG_MAX_TASKS = 64"

datatype SigDefaultAction = ActTerm | ActIgnore | ActCore | ActStop | ActCont

definition signal_default_action :: "u32 \<Rightarrow> SigDefaultAction" where
  "signal_default_action signum =
     (if signum \<in> {1, 2, 3, 7, 8, 13, 14, 15} then ActTerm
      else if signum = SIGKILL then ActTerm
      else if signum \<in> {4, 11, 5} then ActCore
      else if signum \<in> {SIGSTOP, 20} then ActStop
      else if signum = 18 then ActCont
      else if signum \<in> {17, 10, 12} then ActIgnore
      else ActTerm)"

definition signal_valid :: "u32 \<Rightarrow> bool" where
  "signal_valid signum \<longleftrightarrow> signum \<ge> 1 \<and> signum < NSIG"

definition signal_catchable :: "u32 \<Rightarrow> bool" where
  "signal_catchable signum \<longleftrightarrow> signum \<noteq> SIGKILL \<and> signum \<noteq> SIGSTOP"

record SigState =
  sg_pending :: u32
  sg_mask :: u32
  sg_handlers :: "u64 list"

record SigTable =
  sg_tids :: "u32 list"
  sg_state :: "SigState list"
  sg_count :: nat

definition sig_state_new :: SigState where
  "sig_state_new = \<lparr>sg_pending = 0, sg_mask = 0, sg_handlers = replicate (unat NSIG) SIG_DFL\<rparr>"

definition sig_table_new :: SigTable where
  "sig_table_new =
     \<lparr>sg_tids = replicate SIG_MAX_TASKS 0, sg_state = replicate SIG_MAX_TASKS sig_state_new, sg_count = 0\<rparr>"

definition sig_find :: "SigTable \<Rightarrow> u32 \<Rightarrow> nat option" where
  "sig_find t tid = first_idx (\<lambda>x. x = tid) (take (sg_count t) (sg_tids t))"

definition sig_get_or_create :: "SigTable \<Rightarrow> u32 \<Rightarrow> nat option \<times> SigTable" where
  "sig_get_or_create t tid =
     (case sig_find t tid of
        Some idx \<Rightarrow> (Some idx, t)
      | None \<Rightarrow>
          if sg_count t < SIG_MAX_TASKS
          then (Some (sg_count t),
                t\<lparr>sg_tids := (sg_tids t)[sg_count t := tid],
                  sg_state := (sg_state t)[sg_count t := sig_state_new],
                  sg_count := sg_count t + 1\<rparr>)
          else (None, t))"

definition sig_release :: "SigTable \<Rightarrow> u32 \<Rightarrow> bool \<times> SigTable" where
  "sig_release t tid =
     (case sig_find t tid of
        None \<Rightarrow> (False, t)
      | Some idx \<Rightarrow>
          (let last = sg_count t - 1;
               tids = (sg_tids t)[idx := sg_tids t ! last];
               sts = (sg_state t)[idx := sg_state t ! last]
           in (True, t\<lparr>sg_tids := tids[last := 0], sg_state := sts[last := sig_state_new],
                       sg_count := last\<rparr>)))"

definition signal_send :: "u32 \<times> bool \<Rightarrow> SigTable \<Rightarrow> u32 \<Rightarrow> u32 \<Rightarrow> int \<times> SigTable" where
  "signal_send ctx t tid signum =
     (if \<not> signal_valid signum then (-1, t)
      else case ctx of (caller, privileged) \<Rightarrow>
        if \<not> privileged \<and> tid \<noteq> caller then (-1, t)
        else case sig_get_or_create t tid of
          (None, t') \<Rightarrow> (-1, t')
        | (Some idx, t') \<Rightarrow>
            (0, t'\<lparr>sg_state := (sg_state t')[idx := (sg_state t' ! idx)
                     \<lparr>sg_pending := sg_pending (sg_state t' ! idx) OR push_bit (unat signum) 1\<rparr>]\<rparr>))"

definition signal_release :: "SigTable \<Rightarrow> u32 \<Rightarrow> bool \<times> SigTable" where
  "signal_release t tid = sig_release t tid"

definition signal_table_len :: "SigTable \<Rightarrow> nat" where
  "signal_table_len t = sg_count t"

definition signal_pending :: "u32 \<Rightarrow> SigTable \<Rightarrow> u32" where
  "signal_pending caller t =
     (case sig_find t caller of
        Some idx \<Rightarrow> sg_pending (sg_state t ! idx) AND NOT (sg_mask (sg_state t ! idx))
      | None \<Rightarrow> 0)"

definition signal_set_handler :: "u32 \<Rightarrow> SigTable \<Rightarrow> u32 \<Rightarrow> u64 \<Rightarrow> u64 \<times> SigTable" where
  "signal_set_handler caller t signum handler =
     (if \<not> signal_valid signum then (SIG_DFL, t)
      else case sig_get_or_create t caller of
        (None, t') \<Rightarrow> (SIG_DFL, t')
      | (Some idx, t') \<Rightarrow>
          (let st = sg_state t' ! idx; old = sg_handlers st ! unat signum
           in (old,
               if signal_catchable signum
               then t'\<lparr>sg_state := (sg_state t')
                      [idx := st\<lparr>sg_handlers := (sg_handlers st)[unat signum := handler]\<rparr>]\<rparr>
               else t')))"

definition signal_get_mask :: "u32 \<Rightarrow> SigTable \<Rightarrow> u32" where
  "signal_get_mask caller t =
     (case sig_find t caller of Some idx \<Rightarrow> sg_mask (sg_state t ! idx) | None \<Rightarrow> 0)"

definition signal_set_mask :: "u32 \<Rightarrow> SigTable \<Rightarrow> u32 \<Rightarrow> int \<times> SigTable" where
  "signal_set_mask caller t m =
     (case sig_get_or_create t caller of
        (None, t') \<Rightarrow> (-1, t')
      | (Some idx, t') \<Rightarrow>
          (0, t'\<lparr>sg_state := (sg_state t')[idx := (sg_state t' ! idx)
                   \<lparr>sg_mask := m AND NOT (push_bit (unat SIGKILL) 1 OR push_bit (unat SIGSTOP) 1)\<rparr>]\<rparr>))"

section \<open>The table as a map\<close>

definition sig_abs :: "SigTable \<Rightarrow> u32 \<Rightarrow> SigState option" where
  "sig_abs t tid = map_option (\<lambda>i. sg_state t ! i) (sig_find t tid)"

definition sig_inv :: "SigTable \<Rightarrow> bool" where
  "sig_inv t \<longleftrightarrow> length (sg_tids t) = SIG_MAX_TASKS \<and> length (sg_state t) = SIG_MAX_TASKS
     \<and> sg_count t \<le> SIG_MAX_TASKS \<and> distinct (take (sg_count t) (sg_tids t))"

lemma sig_find_Some:
  assumes "sig_inv t"
  shows "sig_find t tid = Some i \<longleftrightarrow> i < sg_count t \<and> sg_tids t ! i = tid"
proof -
  let ?xs = "take (sg_count t) (sg_tids t)"
  have len: "length ?xs = sg_count t" and d: "distinct ?xs"
    using assms by (simp_all add: sig_inv_def)
  have "?xs ! j \<noteq> tid" if "i < length ?xs" "?xs ! i = tid" "j < i" for j
    using that nth_eq_iff_index_eq [OF d, of j i] by simp
  then show ?thesis
    unfolding sig_find_def first_idx_Some_iff using len by fastforce
qed

lemma sig_find_None:
  "sig_inv t \<Longrightarrow> sig_find t tid = None \<longleftrightarrow> (\<forall>i< sg_count t. sg_tids t ! i \<noteq> tid)"
  using sig_find_Some [of t tid] by (metis not_None_eq)

lemma sig_abs_Some:
  "sig_inv t \<Longrightarrow> sig_abs t tid = Some s \<longleftrightarrow> (\<exists>i< sg_count t. sg_tids t ! i = tid \<and> sg_state t ! i = s)"
  by (auto simp: sig_abs_def sig_find_Some)

lemma sig_abs_None: "sig_inv t \<Longrightarrow> sig_abs t tid = None \<longleftrightarrow> (\<forall>i< sg_count t. sg_tids t ! i \<noteq> tid)"
  by (simp add: sig_abs_def sig_find_None)

lemma sig_abs_ext:
  assumes "\<And>tid s. f tid = Some s \<longleftrightarrow> g tid = Some s"
  shows "f = g"
  using assms by (metis ext option.exhaust)

lemma sig_abs_update:
  assumes inv: "sig_inv t" and i: "i < sg_count t"
  shows "sig_inv (t\<lparr>sg_state := (sg_state t)[i := s]\<rparr>)"
    and "sig_abs (t\<lparr>sg_state := (sg_state t)[i := s]\<rparr>) = (sig_abs t)(sg_tids t ! i \<mapsto> s)"
proof -
  let ?t = "t\<lparr>sg_state := (sg_state t)[i := s]\<rparr>"
  show inv': "sig_inv ?t"
    using inv by (simp add: sig_inv_def)
  have uniq: "j = i" if "j < sg_count t" "sg_tids t ! j = sg_tids t ! i" for j
    using sig_find_Some [OF inv, of "sg_tids t ! i"] that i by (metis option.inject)
  have "i < length (sg_state t)"
    using inv i by (simp add: sig_inv_def)
  then show "sig_abs ?t = (sig_abs t)(sg_tids t ! i \<mapsto> s)"
    using sig_abs_Some [OF inv'] sig_abs_Some [OF inv] i
    by (intro sig_abs_ext) (auto simp: nth_list_update dest: uniq)
qed

lemma distinct_extend:
  assumes "distinct (take n xs)" "n < length xs" "\<forall>i<n. xs ! i \<noteq> x"
  shows "distinct (take (Suc n) (xs[n := x]))"
proof -
  have "take (Suc n) (xs[n := x]) = take n xs @ [x]"
    using assms(2) by (simp add: take_Suc_conv_app_nth)
  then show ?thesis
    using assms by (auto simp: in_set_conv_nth)
qed

lemma sig_get_or_create_refines:
  assumes inv: "sig_inv t" and r: "sig_get_or_create t tid = (ix, t')"
  shows "sig_inv t'"
    and "ix = Some i \<Longrightarrow> i < sg_count t' \<and> sg_tids t' ! i = tid
      \<and> sig_abs t' = (sig_abs t)(tid \<mapsto> (case sig_abs t tid of Some s \<Rightarrow> s | None \<Rightarrow> sig_state_new))
      \<and> sg_state t' ! i = (case sig_abs t tid of Some s \<Rightarrow> s | None \<Rightarrow> sig_state_new)"
    and "ix = None \<Longrightarrow> t' = t \<and> sig_abs t tid = None \<and> sg_count t = SIG_MAX_TASKS"
proof -
  show inv': "sig_inv t'"
    using inv r sig_find_None [OF inv, of tid] distinct_extend [of "sg_count t" "sg_tids t" tid]
    by (auto simp: sig_get_or_create_def sig_inv_def split: option.splits if_splits)
  show "ix = None \<Longrightarrow> t' = t \<and> sig_abs t tid = None \<and> sg_count t = SIG_MAX_TASKS"
    using inv r by (auto simp: sig_get_or_create_def sig_abs_def sig_inv_def split: option.splits if_splits)
  assume ix: "ix = Some i"
  show "i < sg_count t' \<and> sg_tids t' ! i = tid
      \<and> sig_abs t' = (sig_abs t)(tid \<mapsto> (case sig_abs t tid of Some s \<Rightarrow> s | None \<Rightarrow> sig_state_new))
      \<and> sg_state t' ! i = (case sig_abs t tid of Some s \<Rightarrow> s | None \<Rightarrow> sig_state_new)"
  proof (cases "sig_find t tid")
    case (Some j)
    then have "t' = t" "i = j" "sig_abs t tid = Some (sg_state t ! j)"
      using r ix by (simp_all add: sig_get_or_create_def sig_abs_def)
    then show ?thesis
      using Some sig_find_Some [OF inv] by (auto simp: map_upd_triv)
  next
    case None
    then have new: "sig_abs t tid = None" "sg_count t < SIG_MAX_TASKS" "i = sg_count t"
        "t' = t\<lparr>sg_tids := (sg_tids t)[sg_count t := tid],
                sg_state := (sg_state t)[sg_count t := sig_state_new], sg_count := sg_count t + 1\<rparr>"
      using r ix by (auto simp: sig_get_or_create_def sig_abs_def split: if_splits)
    have fresh: "\<forall>k< sg_count t. sg_tids t ! k \<noteq> tid"
      using None sig_find_None [OF inv] by blast
    have len: "sg_count t < length (sg_tids t)" "sg_count t < length (sg_state t)"
      using inv new(2) by (simp_all add: sig_inv_def)
    have "sig_abs t' = (sig_abs t)(tid \<mapsto> sig_state_new)"
    proof (rule sig_abs_ext)
      fix x s
      have "sig_abs t' x = Some s \<longleftrightarrow>
          (\<exists>k < sg_count t. sg_tids t ! k = x \<and> sg_state t ! k = s) \<or> (x = tid \<and> s = sig_state_new)"
        unfolding sig_abs_Some [OF inv'] using len new(4) by (auto simp: Ex_less_Suc cong: conj_cong)
      then show "sig_abs t' x = Some s \<longleftrightarrow> ((sig_abs t)(tid \<mapsto> sig_state_new)) x = Some s"
        using sig_abs_Some [OF inv, of x s] fresh by (cases "x = tid") auto
    qed
    then show ?thesis
      using new len by simp
  qed
qed

lemma sig_release_refines:
  assumes inv: "sig_inv t"
  shows "sig_inv (snd (sig_release t tid)) \<and> sig_abs (snd (sig_release t tid)) = (sig_abs t)(tid := None)
    \<and> (fst (sig_release t tid) \<longleftrightarrow> sig_abs t tid \<noteq> None)
    \<and> (fst (sig_release t tid) \<longrightarrow> Suc (sg_count (snd (sig_release t tid))) = sg_count t)"
proof (cases "sig_find t tid")
  case None
  then show ?thesis
    using inv by (simp add: sig_release_def sig_abs_def fun_upd_idem)
next
  case (Some i)
  then have i: "i < sg_count t" "sg_tids t ! i = tid"
    using sig_find_Some [OF inv] by simp_all
  define n where "n = sg_count t - 1"
  have n: "sg_count t = Suc n" "n < length (sg_tids t)" "n < length (sg_state t)"
    using i inv by (auto simp: n_def sig_inv_def)
  have neq: "j = k" if "j < Suc n" "k < Suc n" "sg_tids t ! j = sg_tids t ! k" for j k
    using sig_find_Some [OF inv, of "sg_tids t ! j"] that n(1) by (metis option.inject)
  let ?tids = "(sg_tids t)[i := sg_tids t ! n, n := 0]"
  let ?sts = "(sg_state t)[i := sg_state t ! n, n := sig_state_new]"
  define t' where "t' = t\<lparr>sg_tids := ?tids, sg_state := ?sts, sg_count := n\<rparr>"
  have rel: "sig_release t tid = (True, t')"
    using Some by (simp add: sig_release_def Let_def t'_def n_def)
  have tids: "?tids ! j = (if j = i then sg_tids t ! n else sg_tids t ! j)"
      and sts: "?sts ! j = (if j = i then sg_state t ! n else sg_state t ! j)" if "j < n" for j
    using that n i by (auto simp: nth_list_update)
  have "take n ?tids ! j \<noteq> take n ?tids ! k" if "j < n" "k < n" "j \<noteq> k" for j k
    using that tids [of j] tids [of k] neq [of j k] neq [of n k] neq [of j n] by auto
  then have "distinct (take n ?tids)"
    using n(2) by (simp add: distinct_conv_nth)
  then have inv': "sig_inv t'"
    using inv n by (simp add: sig_inv_def t'_def)
  have "sig_abs t' = (sig_abs t)(tid := None)"
  proof (rule sig_abs_ext)
    fix x s
    have "sig_abs t' x = Some s \<longleftrightarrow> (\<exists>j<n. ?tids ! j = x \<and> ?sts ! j = s)"
      using sig_abs_Some [OF inv', of x s] by (simp add: t'_def)
    also have "\<dots> \<longleftrightarrow> (\<exists>j<Suc n. j \<noteq> i \<and> sg_tids t ! j = x \<and> sg_state t ! j = s)"
    proof
      assume "\<exists>j<n. ?tids ! j = x \<and> ?sts ! j = s"
      then obtain j where "j < n" "?tids ! j = x" "?sts ! j = s"
        by blast
      then show "\<exists>j<Suc n. j \<noteq> i \<and> sg_tids t ! j = x \<and> sg_state t ! j = s"
        using tids [of j] sts [of j]
        by (cases "j = i") (auto intro: exI [of _ n] exI [of _ j])
    next
      assume "\<exists>j<Suc n. j \<noteq> i \<and> sg_tids t ! j = x \<and> sg_state t ! j = s"
      then obtain j where j: "j < Suc n" "j \<noteq> i" "sg_tids t ! j = x" "sg_state t ! j = s"
        by blast
      show "\<exists>j<n. ?tids ! j = x \<and> ?sts ! j = s"
      proof (cases "j = n")
        case True
        then show ?thesis
          using j i(1) n(1) tids [of i] sts [of i] by (intro exI [of _ i]) auto
      next
        case False
        then show ?thesis
          using j tids [of j] sts [of j] by (intro exI [of _ j]) auto
      qed
    qed
    also have "\<dots> \<longleftrightarrow> ((sig_abs t)(tid := None)) x = Some s"
    proof (cases "x = tid")
      case True
      have "j = i" if "j < Suc n" "sg_tids t ! j = tid" for j
        using that i n(1) by (intro neq) simp_all
      then show ?thesis
        using True by (simp only: fun_upd_same) blast
    next
      case False
      then have "\<not> (sg_tids t ! i = x)"
        using i by simp
      then show ?thesis
        using False sig_abs_Some [OF inv, of x s] n(1) by auto
    qed
    finally show "sig_abs t' x = Some s \<longleftrightarrow> ((sig_abs t)(tid := None)) x = Some s" .
  qed
  then show ?thesis
    using rel inv' Some n(1) by (simp add: sig_abs_def) (simp add: t'_def)
qed

section \<open>The abstract service\<close>

text \<open>
  What the component promises: a partial map from TIDs to signal states with at most 64 tasks,
  in which every call touches the entry of one task only.
\<close>

type_synonym sig_map = "u32 \<Rightarrow> SigState option"

datatype sig_op =
    GSend "u32 \<times> bool" u32 u32 | GHandler u32 u32 u64 | GMask u32 u32 | GRelease u32

fun sig_step :: "SigTable \<Rightarrow> sig_op \<Rightarrow> int \<times> SigTable" where
  "sig_step t (GSend ctx tid n) = signal_send ctx t tid n"
| "sig_step t (GHandler caller n h) = (case signal_set_handler caller t n h of (old, t') \<Rightarrow> (uint old, t'))"
| "sig_step t (GMask caller m) = signal_set_mask caller t m"
| "sig_step t (GRelease tid) = (case signal_release t tid of (b, t') \<Rightarrow> (of_bool b, t'))"

definition spec_entry :: "sig_map \<Rightarrow> u32 \<Rightarrow> SigState option" where
  "spec_entry f tid =
     (case f tid of Some s \<Rightarrow> Some s
      | None \<Rightarrow> if card (dom f) < SIG_MAX_TASKS then Some sig_state_new else None)"

fun spec_step :: "sig_map \<Rightarrow> sig_op \<Rightarrow> int \<times> sig_map" where
  "spec_step f (GSend ctx tid n) =
     (if \<not> signal_valid n \<or> \<not> snd ctx \<and> tid \<noteq> fst ctx then (-1, f)
      else case spec_entry f tid of
        None \<Rightarrow> (-1, f)
      | Some s \<Rightarrow> (0, f(tid \<mapsto> s\<lparr>sg_pending := sg_pending s OR push_bit (unat n) 1\<rparr>)))"
| "spec_step f (GHandler caller n h) =
     (if \<not> signal_valid n then (uint SIG_DFL, f)
      else case spec_entry f caller of
        None \<Rightarrow> (uint SIG_DFL, f)
      | Some s \<Rightarrow>
          (uint (sg_handlers s ! unat n),
           f(caller \<mapsto> (if signal_catchable n then s\<lparr>sg_handlers := (sg_handlers s)[unat n := h]\<rparr> else s))))"
| "spec_step f (GMask caller m) =
     (case spec_entry f caller of
        None \<Rightarrow> (-1, f)
      | Some s \<Rightarrow>
          (0, f(caller \<mapsto> s\<lparr>sg_mask := m AND NOT (push_bit (unat SIGKILL) 1 OR push_bit (unat SIGSTOP) 1)\<rparr>)))"
| "spec_step f (GRelease tid) = (of_bool (f tid \<noteq> None), f(tid := None))"

lemma card_dom_sig_abs:
  assumes "sig_inv t"
  shows "card (dom (sig_abs t)) = sg_count t"
proof -
  have "dom (sig_abs t) = (\<lambda>i. sg_tids t ! i) ` {0..< sg_count t}"
    using sig_abs_Some [OF assms] by (auto simp: dom_def)
  also have "\<dots> = set (take (sg_count t) (sg_tids t))"
    using assms by (intro nth_image) (simp add: sig_inv_def)
  finally show ?thesis
    using assms distinct_card [of "take (sg_count t) (sg_tids t)"] by (simp add: sig_inv_def)
qed

lemma get_or_create_spec:
  assumes inv: "sig_inv t"
  obtains (full) "sig_get_or_create t tid = (None, t)" "spec_entry (sig_abs t) tid = None"
  | (entry) i t' s where "sig_get_or_create t tid = (Some i, t')" "spec_entry (sig_abs t) tid = Some s"
      "sig_inv t'" "i < sg_count t'" "sg_tids t' ! i = tid" "sg_state t' ! i = s"
      "sig_abs t' = (sig_abs t)(tid \<mapsto> s)"
proof -
  obtain ix t' where g: "sig_get_or_create t tid = (ix, t')"
    by fastforce
  note r = sig_get_or_create_refines [OF inv g]
  show thesis
  proof (cases ix)
    case None
    then show thesis
      using full r(3) g card_dom_sig_abs [OF inv] by (simp add: spec_entry_def)
  next
    case (Some i)
    let ?s = "case sig_abs t tid of Some s \<Rightarrow> s | None \<Rightarrow> sig_state_new"
    have "spec_entry (sig_abs t) tid = Some ?s"
      using g Some card_dom_sig_abs [OF inv]
      by (auto simp: spec_entry_def sig_get_or_create_def sig_abs_def split: option.splits if_splits)
    then show thesis
      using entry [of i t' ?s] r(1) r(2) [OF Some] g Some by simp
  qed
qed

lemma entry_update:
  assumes "sig_inv t" "i < sg_count t" "sg_tids t ! i = tid" "sig_abs t = f(tid \<mapsto> s)"
  shows "sig_inv (t\<lparr>sg_state := (sg_state t)[i := s']\<rparr>)
    \<and> sig_abs (t\<lparr>sg_state := (sg_state t)[i := s']\<rparr>) = f(tid \<mapsto> s')"
  using sig_abs_update [OF assms(1,2), of s'] assms(3,4) by simp

lemma sig_step_refines:
  assumes inv: "sig_inv t" and step: "sig_step t op = (rc, t')"
  shows "sig_inv t' \<and> spec_step (sig_abs t) op = (rc, sig_abs t')"
proof (cases op)
  case (GSend ctx tid n)
  show ?thesis
  proof (cases rule: get_or_create_spec [OF inv, of tid, case_names full entry])
    case full
    then show ?thesis
      using step GSend inv by (auto simp: signal_send_def case_prod_beta split: if_splits)
  next
    case (entry i t1 s)
    then show ?thesis
      using step GSend inv entry_update [OF entry(3,4,5,7)]
      by (auto simp: signal_send_def case_prod_beta split: if_splits)
  qed
next
  case (GHandler caller n h)
  show ?thesis
  proof (cases rule: get_or_create_spec [OF inv, of caller, case_names full entry])
    case full
    then show ?thesis
      using step GHandler inv by (auto simp: signal_set_handler_def split: if_splits)
  next
    case (entry i t1 s)
    then show ?thesis
      using step GHandler inv entry_update [OF entry(3,4,5,7)]
      by (auto simp: signal_set_handler_def Let_def split: if_splits)
  qed
next
  case (GMask caller m)
  show ?thesis
  proof (cases rule: get_or_create_spec [OF inv, of caller, case_names full entry])
    case full
    then show ?thesis
      using step GMask inv by (auto simp: signal_set_mask_def)
  next
    case (entry i t1 s)
    then show ?thesis
      using step GMask inv entry_update [OF entry(3,4,5,7)] by (auto simp: signal_set_mask_def)
  qed
next
  case (GRelease tid)
  then show ?thesis
    using step sig_release_refines [OF inv, of tid] by (auto simp: signal_release_def split: prod.splits)
qed

lemma sig_inv_new: "sig_inv sig_table_new"
  by (simp add: sig_inv_def sig_table_new_def)

text \<open>
  C21. The packed signal table implements the abstract service: every call keeps the invariant,
  returns what the abstract map returns and changes the map as specified.  In particular the
  removal of a task, which moves the last entry into its place, disturbs no other task, and
  without privilege a task reaches its own entry only.
\<close>

theorem signal_table_refines_map:
  "sig_inv t \<Longrightarrow> sig_step t op = (rc, t') \<Longrightarrow>
     sig_inv t' \<and> spec_step (sig_abs t) op = (rc, sig_abs t')"
  by (rule sig_step_refines)

theorem signal_table_refines_map_witness:
  "sig_inv (snd (sig_step sig_table_new (GSend (5, False) 5 10)))
   \<and> spec_step (sig_abs sig_table_new) (GSend (5, False) 5 10)
     = (fst (sig_step sig_table_new (GSend (5, False) 5 10)),
        sig_abs (snd (sig_step sig_table_new (GSend (5, False) 5 10))))"
  by (rule signal_table_refines_map [OF sig_inv_new]) simp

section \<open>Histories\<close>

definition sig_run :: "SigTable \<Rightarrow> sig_op list \<Rightarrow> SigTable" where
  "sig_run t ops = foldl (\<lambda>t op. snd (sig_step t op)) t ops"

definition spec_run :: "sig_map \<Rightarrow> sig_op list \<Rightarrow> sig_map" where
  "spec_run f ops = foldl (\<lambda>f op. snd (spec_step f op)) f ops"

lemma sig_run_refines: "sig_inv t \<Longrightarrow> sig_inv (sig_run t ops) \<and> sig_abs (sig_run t ops) = spec_run (sig_abs t) ops"
proof (induction ops arbitrary: t)
  case Nil
  then show ?case by (simp add: sig_run_def spec_run_def)
next
  case (Cons op ops)
  have "sig_inv (snd (sig_step t op))" "spec_step (sig_abs t) op = (fst (sig_step t op), sig_abs (snd (sig_step t op)))"
    using sig_step_refines [OF Cons.prems, of op "fst (sig_step t op)" "snd (sig_step t op)"] by simp_all
  then show ?case
    using Cons.IH [of "snd (sig_step t op)"] by (simp add: sig_run_def spec_run_def)
qed

definition unblockable :: "SigState \<Rightarrow> bool" where
  "unblockable s \<longleftrightarrow> length (sg_handlers s) = 32
     \<and> \<not> bit (sg_mask s) 9 \<and> \<not> bit (sg_mask s) 19
     \<and> sg_handlers s ! 9 = SIG_DFL \<and> sg_handlers s ! 19 = SIG_DFL"

lemma unblockable_new [simp]: "unblockable sig_state_new"
  by (simp add: unblockable_def sig_state_new_def NSIG_def)

definition all_unblockable :: "sig_map \<Rightarrow> bool" where
  "all_unblockable f \<longleftrightarrow> (\<forall>tid s. f tid = Some s \<longrightarrow> unblockable s)"

lemma all_unblockable_upd: "all_unblockable f \<Longrightarrow> unblockable s \<Longrightarrow> all_unblockable (f(tid \<mapsto> s))"
  by (auto simp: all_unblockable_def)

lemma spec_entry_unblockable:
  "all_unblockable f \<Longrightarrow> spec_entry f tid = Some s \<Longrightarrow> unblockable s"
  by (auto simp: all_unblockable_def spec_entry_def split: option.splits if_splits)

lemma unblockable_updates:
  assumes "unblockable s"
  shows "unblockable (s\<lparr>sg_pending := x\<rparr>)"
    and "signal_catchable n \<Longrightarrow> unblockable (s\<lparr>sg_handlers := (sg_handlers s)[unat n := h]\<rparr>)"
    and "unblockable (s\<lparr>sg_mask := m AND NOT (push_bit (unat SIGKILL) 1 OR push_bit (unat SIGSTOP) 1)\<rparr>)"
proof -
  show "unblockable (s\<lparr>sg_pending := x\<rparr>)"
    using assms by (simp add: unblockable_def)
  assume "signal_catchable n"
  then have "unat n \<noteq> 9" "unat n \<noteq> 19"
    by (auto simp: signal_catchable_def SIGKILL_def SIGSTOP_def word_unat_eq_iff)
  then show "unblockable (s\<lparr>sg_handlers := (sg_handlers s)[unat n := h]\<rparr>)"
    using assms by (simp add: unblockable_def)
next
  show "unblockable (s\<lparr>sg_mask := m AND NOT (push_bit (unat SIGKILL) 1 OR push_bit (unat SIGSTOP) 1)\<rparr>)"
    using assms by (simp add: unblockable_def SIGKILL_def SIGSTOP_def bit_simps)
qed

lemma spec_step_unblockable:
  assumes "all_unblockable f"
  shows "all_unblockable (snd (spec_step f op))"
proof (cases op)
  case (GRelease tid)
  then show ?thesis
    using assms by (auto simp: all_unblockable_def)
next
  case (GMask caller m)
  then show ?thesis
    using assms spec_entry_unblockable [OF assms] unblockable_updates(3) [of _ m]
    by (auto intro!: all_unblockable_upd split: option.splits)
qed (use assms spec_entry_unblockable [OF assms] in
    \<open>auto intro!: all_unblockable_upd intro: unblockable_updates split: option.splits\<close>)

lemma spec_run_unblockable: "all_unblockable f \<Longrightarrow> all_unblockable (spec_run f ops)"
  by (induction ops arbitrary: f) (simp_all add: spec_run_def spec_step_unblockable)

text \<open>
  C31. SIGKILL and SIGSTOP can be neither blocked nor caught: after any sequence of calls from
  the empty table, no task has either of them in its mask or a handler installed for it.
\<close>

theorem kill_stop_unblockable:
  assumes "sig_abs (sig_run sig_table_new ops) tid = Some s"
  shows "\<not> bit (sg_mask s) 9 \<and> \<not> bit (sg_mask s) 19
     \<and> sg_handlers s ! 9 = SIG_DFL \<and> sg_handlers s ! 19 = SIG_DFL"
proof -
  have "all_unblockable (sig_abs sig_table_new)"
    by (simp add: all_unblockable_def sig_abs_def sig_find_def sig_table_new_def)
  then have "all_unblockable (sig_abs (sig_run sig_table_new ops))"
    using sig_run_refines [OF sig_inv_new, of ops] spec_run_unblockable by simp
  then show ?thesis
    using assms by (auto simp: all_unblockable_def unblockable_def)
qed

theorem kill_stop_unblockable_witness:
  "\<not> bit (sg_mask (the (sig_abs (sig_run sig_table_new [GMask 5 (- 1), GHandler 5 9 77]) 5))) 9"
proof -
  let ?o = "sig_abs (sig_run sig_table_new [GMask 5 (- 1), GHandler 5 9 77]) 5"
  have "?o = Some (the ?o)"
    by code_simp
  then show ?thesis
    using kill_stop_unblockable by blast
qed

text \<open>
  A pending signal is never cleared: no call other than the release of the task removes a
  bit from its pending set, so a signal sent once stays pending for the lifetime of the task.
\<close>

lemma pending_signals_are_sticky:
  assumes "sig_inv t" "GRelease tid \<notin> set ops"
    and "sig_abs t tid = Some s" "bit (sg_pending s) n"
  shows "\<exists>s'. sig_abs (sig_run t ops) tid = Some s' \<and> bit (sg_pending s') n"
proof -
  have "\<exists>s'. spec_run f ops tid = Some s' \<and> bit (sg_pending s') n"
    if "f tid = Some s" "bit (sg_pending s) n" for f s
    using that assms(2)
  proof (induction ops arbitrary: f s)
    case Nil
    then show ?case by (simp add: spec_run_def)
  next
    case (Cons op ops)
    have "spec_entry f tid = Some s"
      using Cons.prems(1) by (simp add: spec_entry_def)
    then have "\<exists>s'. snd (spec_step f op) tid = Some s' \<and> bit (sg_pending s') n"
      using Cons.prems by (cases op) (auto simp: bit_simps split: option.splits)
    then show ?case
      using Cons.IH Cons.prems(3) by (auto simp: spec_run_def)
  qed
  then show ?thesis
    using sig_run_refines [OF assms(1), of ops] assms(3,4) by auto
qed

lemma pending_signals_are_sticky_witness:
  "\<exists>s'. sig_abs (sig_run (snd (sig_step sig_table_new (GSend (5, False) 5 10))) [GHandler 5 10 1, GMask 5 0]) 5
       = Some s' \<and> bit (sg_pending s') 10"
proof (rule pending_signals_are_sticky)
  let ?t = "snd (sig_step sig_table_new (GSend (5, False) 5 10))"
  show "sig_inv ?t"
    using sig_step_refines [OF sig_inv_new, of "GSend (5, False) 5 10"] by (metis prod.collapse)
  show "sig_abs ?t 5 = Some (the (sig_abs ?t 5))"
    by code_simp
  show "bit (sg_pending (the (sig_abs ?t 5))) 10"
    by code_simp
qed simp

end
