(* ===== verification/Motor_Pid.thy ===== *)
theory Motor_Pid
  imports Rust_Prelude
begin

text \<open>
  The velocity controller of the drive motors (\<open>crates/drivers/src/motor_pid.rs\<close>): two PID
  controllers in Q16.16 arithmetic over \<open>i64\<close>, the targets, the enable flag and the baseline of
  the last tick.  Signed machine integers are \<open>int\<close> with their ranges written out; plain
  arithmetic of the source is checked and panics out of range, \<open>saturating_*\<close> clamps, and \<open>/\<close>
  truncates towards zero.  The timer frequency is a constant of the platform and an argument.
\<close>

definition DEFAULT_KP :: int where "DEFAULT_KP = 1"
definition DEFAULT_KI :: int where "DEFAULT_KI = 0"
definition DEFAULT_KD :: int where "DEFAULT_KD = 0"
definition PID_OUTPUT_MIN :: int where "PID_OUTPUT_MIN = - 100"
definition PID_OUTPUT_MAX :: int where "PID_OUTPUT_MAX = 100"
definition PID_DT_MS :: int where "PID_DT_MS = 10"
definition INTEGRAL_WINDUP_LIMIT :: int where "INTEGRAL_WINDUP_LIMIT = 10000"
definition ERROR_LIMIT :: int where "ERROR_LIMIT = 1000000"
definition FIXED_SCALE :: int where "FIXED_SCALE = 65536"

record PidController =
  pid_kp :: int
  pid_ki :: int
  pid_kd :: int
  pid_integral :: int
  pid_prev_error :: int
  pid_output_min :: int
  pid_output_max :: int

definition pid_new :: "int \<Rightarrow> int \<Rightarrow> int \<Rightarrow> PidController outcome" where
  "pid_new kp ki kd =
     (case (checked_i64 (kp * FIXED_SCALE), checked_i64 (ki * FIXED_SCALE), checked_i64 (kd * FIXED_SCALE)) of
        (Ret p, Ret i, Ret d) \<Rightarrow>
          Ret \<lparr>pid_kp = p, pid_ki = i, pid_kd = d, pid_integral = 0, pid_prev_error = 0,
               pid_output_min = PID_OUTPUT_MIN, pid_output_max = PID_OUTPUT_MAX\<rparr>
      | _ \<Rightarrow> Panic)"

definition pid_update :: "PidController \<Rightarrow> int \<Rightarrow> int \<Rightarrow> int \<Rightarrow> (int \<times> PidController) outcome" where
  "pid_update self setpoint measurement dt_ms =
     (if dt_ms = 0 then Ret (0, self)
      else case checked_i64 (setpoint - measurement) of
        Panic \<Rightarrow> Panic
      | Ret diff \<Rightarrow>
          (let error = clamp (- ERROR_LIMIT) ERROR_LIMIT diff;
               p = tdiv (sat_i64 (pid_kp self * error)) FIXED_SCALE
           in case (checked_i64 (FIXED_SCALE * 1000), checked_i64 (INTEGRAL_WINDUP_LIMIT * FIXED_SCALE),
                    checked_i64 (error - pid_prev_error self), checked_i64 (FIXED_SCALE * dt_ms)) of
                (Ret i_scale, Ret windup_limit, Ret de, Ret d_scale) \<Rightarrow>
                  (let i_step = tdiv (sat_i64 (sat_i64 (pid_ki self * error) * dt_ms)) i_scale;
                       integral = clamp (- windup_limit) windup_limit (sat_i64 (pid_integral self + i_step));
                       i = tdiv integral FIXED_SCALE;
                       d = tdiv (tdiv (sat_i64 (sat_i64 (pid_kd self * de) * 1000)) d_scale) FIXED_SCALE;
                       out = sat_i64 (sat_i64 (p + i) + d)
                   in Ret (clamp (pid_output_min self) (pid_output_max self) out,
                           self\<lparr>pid_integral := integral, pid_prev_error := error\<rparr>))
              | _ \<Rightarrow> Panic))"

definition pid_reset :: "PidController \<Rightarrow> PidController" where
  "pid_reset self = self\<lparr>pid_integral := 0, pid_prev_error := 0\<rparr>"

record MotorPid =
  m_target_l :: int
  m_target_r :: int
  m_enabled :: bool
  m_left :: PidController
  m_right :: PidController
  m_prev_ticks_l :: int
  m_prev_ticks_r :: int
  m_prev_time :: u64

definition clamp_i32 :: "int \<Rightarrow> int" where
  "clamp_i32 v = (if v > i32_MAX then i32_MAX else if v < i32_MIN then i32_MIN else v)"

definition motor_pid_init :: "MotorPid \<Rightarrow> MotorPid outcome" where
  "motor_pid_init m =
     (case pid_new DEFAULT_KP DEFAULT_KI DEFAULT_KD of
        Panic \<Rightarrow> Panic
      | Ret pid \<Rightarrow>
          Ret (m\<lparr>m_left := pid, m_right := pid, m_target_l := 0, m_target_r := 0,
                 m_prev_ticks_l := 0, m_prev_ticks_r := 0, m_prev_time := 0, m_enabled := True\<rparr>))"

definition motor_pid_set_target :: "MotorPid \<Rightarrow> int \<Rightarrow> int \<Rightarrow> MotorPid" where
  "motor_pid_set_target m speed_l speed_r = m\<lparr>m_target_l := speed_l, m_target_r := speed_r\<rparr>"

definition motor_dt_ms :: "u64 \<Rightarrow> u64 \<Rightarrow> u64 \<Rightarrow> int" where
  "motor_dt_ms timer_freq prev_time now =
     (if timer_freq > 0
      then min (uint (saturating_mul (now - prev_time) 1000 div timer_freq)) u32_MAX
      else PID_DT_MS)"

definition motor_pid_tick ::
  "u64 \<Rightarrow> MotorPid \<Rightarrow> int \<Rightarrow> int \<Rightarrow> u64 \<Rightarrow> ((int \<times> int) \<times> MotorPid) outcome" where
  "motor_pid_tick timer_freq m ticks_l ticks_r now =
     (if \<not> m_enabled m then Ret ((0, 0), m)
      else if m_prev_time m = 0
      then Ret ((0, 0), m\<lparr>m_prev_ticks_l := ticks_l, m_prev_ticks_r := ticks_r, m_prev_time := now\<rparr>)
      else let dt_ms = motor_dt_ms timer_freq (m_prev_time m) now in
        if dt_ms = 0 then Ret ((0, 0), m)
        else let delta_l = sat_i64 (ticks_l - m_prev_ticks_l m);
                 delta_r = sat_i64 (ticks_r - m_prev_ticks_r m);
                 vel_l = clamp_i32 (tdiv (sat_i64 (delta_l * 1000)) dt_ms);
                 vel_r = clamp_i32 (tdiv (sat_i64 (delta_r * 1000)) dt_ms);
                 m1 = m\<lparr>m_prev_ticks_l := ticks_l, m_prev_ticks_r := ticks_r, m_prev_time := now\<rparr>
          in case pid_update (m_left m1) (m_target_l m1) vel_l dt_ms of
               Panic \<Rightarrow> Panic
             | Ret (pwm_l, left) \<Rightarrow>
                 (case pid_update (m_right m1) (m_target_r m1) vel_r dt_ms of
                    Panic \<Rightarrow> Panic
                  | Ret (pwm_r, right) \<Rightarrow>
                      Ret ((pwm_l, pwm_r), m1\<lparr>m_left := left, m_right := right\<rparr>)))"

definition motor_pid_enable :: "MotorPid \<Rightarrow> bool \<Rightarrow> MotorPid" where
  "motor_pid_enable m en =
     (let m1 = (if en \<and> \<not> m_enabled m
                then m\<lparr>m_left := pid_reset (m_left m), m_right := pid_reset (m_right m), m_prev_time := 0\<rparr>
                else m)
      in m1\<lparr>m_enabled := en\<rparr>)"

definition motor_pid_set_gains :: "MotorPid \<Rightarrow> int \<Rightarrow> int \<Rightarrow> int \<Rightarrow> MotorPid outcome" where
  "motor_pid_set_gains m kp ki kd =
     (case pid_new kp ki kd of Panic \<Rightarrow> Panic | Ret pid \<Rightarrow> Ret (m\<lparr>m_left := pid, m_right := pid\<rparr>))"

definition motor_pid_reset :: "MotorPid \<Rightarrow> MotorPid" where
  "motor_pid_reset m =
     m\<lparr>m_left := pid_reset (m_left m), m_right := pid_reset (m_right m), m_target_l := 0, m_target_r := 0,
       m_prev_ticks_l := 0, m_prev_ticks_r := 0, m_prev_time := 0\<rparr>"

section \<open>Invariant\<close>

definition pid_inv :: "PidController \<Rightarrow> bool" where
  "pid_inv c \<longleftrightarrow> \<bar>pid_integral c\<bar> \<le> 655360000 \<and> \<bar>pid_prev_error c\<bar> \<le> 1000000
     \<and> pid_output_min c = - 100 \<and> pid_output_max c = 100"

definition motor_inv :: "MotorPid \<Rightarrow> bool" where
  "motor_inv m \<longleftrightarrow> pid_inv (m_left m) \<and> pid_inv (m_right m)
     \<and> in_i16 (m_target_l m) \<and> in_i16 (m_target_r m)"

lemmas pid_consts = DEFAULT_KP_def DEFAULT_KI_def DEFAULT_KD_def PID_OUTPUT_MIN_def PID_OUTPUT_MAX_def
  PID_DT_MS_def INTEGRAL_WINDUP_LIMIT_def ERROR_LIMIT_def FIXED_SCALE_def

lemma checked_i64_Ret: "in_i64 x \<Longrightarrow> checked_i64 x = Ret x"
  by (simp add: checked_i64_def)

lemma pid_new_total:
  assumes "in_i32 kp" "in_i32 ki" "in_i32 kd"
  shows "\<exists>c. pid_new kp ki kd = Ret c \<and> pid_inv c"
proof -
  have "in_i64 (x * 65536)" if "in_i32 x" for x
    using that by (simp add: int_ranges)
  then show ?thesis
    using assms by (simp add: pid_new_def pid_consts checked_i64_Ret pid_inv_def)
qed

lemma clamp_bounds: "lo \<le> hi \<Longrightarrow> lo \<le> clamp lo hi x \<and> clamp lo hi x \<le> hi" for x :: int
  by (simp add: clamp_def)

lemma abs_clamp: "0 \<le> b \<Longrightarrow> \<bar>clamp (- b) b x\<bar> \<le> b" for x :: int
  using clamp_bounds [of "- b" b x] by (simp add: abs_le_iff)

lemma pid_update_total:
  assumes inv: "pid_inv c" and sp: "in_i32 sp" and ms: "in_i32 ms" and dt: "0 \<le> dt" "dt \<le> u32_MAX"
  shows "\<exists>out c'. pid_update c sp ms dt = Ret (out, c') \<and> \<bar>out\<bar> \<le> 100 \<and> pid_inv c'"
proof (cases "dt = 0")
  case True
  then show ?thesis
    using inv by (simp add: pid_update_def)
next
  case False
  have d: "in_i64 (sp - ms)"
    using sp ms by (simp add: int_ranges)
  define e where "e = clamp (- 1000000) 1000000 (sp - ms)"
  have e: "- 1000000 \<le> e" "e \<le> 1000000"
    using clamp_bounds [of "- 1000000" 1000000 "sp - ms"] by (simp_all add: e_def)
  have de: "in_i64 (e - pid_prev_error c)"
    using e inv by (auto simp: pid_inv_def int_ranges abs_le_iff)
  have ds: "in_i64 (65536 * dt)"
    using dt by (simp add: int_ranges)
  have cc: "checked_i64 (FIXED_SCALE * 1000) = Ret 65536000"
      "checked_i64 (INTEGRAL_WINDUP_LIMIT * FIXED_SCALE) = Ret 655360000"
    by (simp_all add: checked_i64_def pid_consts int_ranges)
  have ee: "clamp (- ERROR_LIMIT) ERROR_LIMIT (sp - ms) = e"
    by (simp add: e_def pid_consts)
  have c': "checked_i64 (FIXED_SCALE * dt) = Ret (65536 * dt)"
    using ds by (simp add: checked_i64_def pid_consts)
  show ?thesis
    using False inv e abs_clamp [of 100] abs_clamp [of 655360000]
    unfolding pid_update_def checked_i64_Ret [OF d] outcome.case Let_def ee cc checked_i64_Ret [OF de] c'
    by (simp add: pid_inv_def)
qed

lemma in_i32_clamp: "in_i32 (clamp_i32 v)"
  by (simp add: clamp_i32_def int_ranges)

lemma in_i16_i32: "in_i16 x \<Longrightarrow> in_i32 x"
  by (simp add: int_ranges)

lemma motor_dt_range: "0 \<le> motor_dt_ms f p now \<and> motor_dt_ms f p now \<le> u32_MAX"
  by (simp add: motor_dt_ms_def pid_consts u32_MAX_def)

lemma motor_tick_total:
  assumes inv: "motor_inv m"
  shows "\<exists>l r m'. motor_pid_tick f m el er now = Ret ((l, r), m') \<and> \<bar>l\<bar> \<le> 100 \<and> \<bar>r\<bar> \<le> 100 \<and> motor_inv m'"
proof (cases "\<not> m_enabled m \<or> m_prev_time m = 0 \<or> motor_dt_ms f (m_prev_time m) now = 0")
  case True
  then show ?thesis
    using inv by (auto simp: motor_pid_tick_def Let_def motor_inv_def)
next
  case False
  let ?dt = "motor_dt_ms f (m_prev_time m) now"
  let ?vl = "clamp_i32 (tdiv (sat_i64 (sat_i64 (el - m_prev_ticks_l m) * 1000)) ?dt)"
  let ?vr = "clamp_i32 (tdiv (sat_i64 (sat_i64 (er - m_prev_ticks_r m) * 1000)) ?dt)"
  have c: "pid_inv (m_left m)" "pid_inv (m_right m)" "in_i32 (m_target_l m)" "in_i32 (m_target_r m)"
    using inv in_i16_i32 by (auto simp: motor_inv_def)
  note dt = motor_dt_range [of f "m_prev_time m" now]
  obtain l cl where l: "pid_update (m_left m) (m_target_l m) ?vl ?dt = Ret (l, cl)" "\<bar>l\<bar> \<le> 100" "pid_inv cl"
    using pid_update_total [OF c(1,3) in_i32_clamp] dt by blast
  obtain r cr where r: "pid_update (m_right m) (m_target_r m) ?vr ?dt = Ret (r, cr)" "\<bar>r\<bar> \<le> 100" "pid_inv cr"
    using pid_update_total [OF c(2,4) in_i32_clamp] dt by blast
  show ?thesis
    using False l r inv by (simp add: motor_pid_tick_def Let_def motor_inv_def)
qed

section \<open>Histories\<close>

datatype motor_call =
    MInit | MTarget int int | MTick int int u64 | MEnable bool | MGains int int int | MReset

fun motor_call_ok :: "motor_call \<Rightarrow> bool" where
  "motor_call_ok (MTarget l r) \<longleftrightarrow> in_i16 l \<and> in_i16 r"
| "motor_call_ok (MTick l r now) \<longleftrightarrow> in_i64 l \<and> in_i64 r"
| "motor_call_ok (MGains p i d) \<longleftrightarrow> in_i32 p \<and> in_i32 i \<and> in_i32 d"
| "motor_call_ok c \<longleftrightarrow> True"

text \<open>One call on the controller, with the PWM pair that a tick commands.\<close>

fun motor_step :: "u64 \<Rightarrow> MotorPid \<Rightarrow> motor_call \<Rightarrow> ((int \<times> int) option \<times> MotorPid) outcome" where
  "motor_step f m MInit = (case motor_pid_init m of Panic \<Rightarrow> Panic | Ret m' \<Rightarrow> Ret (None, m'))"
| "motor_step f m (MTarget l r) = Ret (None, motor_pid_set_target m l r)"
| "motor_step f m (MTick l r now) =
     (case motor_pid_tick f m l r now of Panic \<Rightarrow> Panic | Ret (pwm, m') \<Rightarrow> Ret (Some pwm, m'))"
| "motor_step f m (MEnable en) = Ret (None, motor_pid_enable m en)"
| "motor_step f m (MGains p i d) =
     (case motor_pid_set_gains m p i d of Panic \<Rightarrow> Panic | Ret m' \<Rightarrow> Ret (None, m'))"
| "motor_step f m MReset = Ret (None, motor_pid_reset m)"

fun motor_run :: "u64 \<Rightarrow> MotorPid \<Rightarrow> motor_call list \<Rightarrow> ((int \<times> int) list \<times> MotorPid) outcome" where
  "motor_run f m [] = Ret ([], m)"
| "motor_run f m (c # cs) =
     (case motor_step f m c of
        Panic \<Rightarrow> Panic
      | Ret (out, m') \<Rightarrow>
          (case motor_run f m' cs of
             Panic \<Rightarrow> Panic
           | Ret (outs, m'') \<Rightarrow> Ret ((case out of None \<Rightarrow> outs | Some pwm \<Rightarrow> pwm # outs), m'')))"

lemma pid_inv_reset: "pid_inv c \<Longrightarrow> pid_inv (pid_reset c)"
  by (simp add: pid_inv_def pid_reset_def)

lemma motor_step_total:
  assumes inv: "motor_inv m" and ok: "motor_call_ok c"
  shows "\<exists>out m'. motor_step f m c = Ret (out, m') \<and> motor_inv m'
    \<and> (\<forall>l r. out = Some (l, r) \<longrightarrow> \<bar>l\<bar> \<le> 100 \<and> \<bar>r\<bar> \<le> 100)"
proof (cases c)
  case MInit
  have "in_i32 DEFAULT_KP" "in_i32 DEFAULT_KI" "in_i32 DEFAULT_KD"
    by (simp_all add: pid_consts int_ranges)
  then obtain pid where "pid_new DEFAULT_KP DEFAULT_KI DEFAULT_KD = Ret pid" "pid_inv pid"
    using pid_new_total by blast
  then show ?thesis
    using MInit by (simp add: motor_pid_init_def motor_inv_def int_ranges)
next
  case (MTick l r now)
  then show ?thesis
    using motor_tick_total [OF inv, of f l r now] by auto
next
  case (MGains p i d)
  then obtain pid where "pid_new p i d = Ret pid" "pid_inv pid"
    using pid_new_total [of p i d] ok by auto
  then show ?thesis
    using MGains inv by (simp add: motor_pid_set_gains_def motor_inv_def)
qed (use inv ok in \<open>auto simp: motor_inv_def motor_pid_set_target_def motor_pid_enable_def
      motor_pid_reset_def Let_def pid_inv_reset int_ranges\<close>)

definition motor_off :: MotorPid where
  "motor_off =
     (let pid = \<lparr>pid_kp = 65536, pid_ki = 0, pid_kd = 0, pid_integral = 0, pid_prev_error = 0,
                 pid_output_min = -100, pid_output_max = 100\<rparr>
      in \<lparr>m_target_l = 0, m_target_r = 0, m_enabled = False, m_left = pid, m_right = pid,
          m_prev_ticks_l = 0, m_prev_ticks_r = 0, m_prev_time = 0\<rparr>)"

lemma motor_inv_off: "motor_inv motor_off"
  by (simp add: motor_inv_def motor_off_def Let_def pid_inv_def int_ranges)

text \<open>
  C25. The motor controller never panics and never commands more than full duty: for every
  sequence of calls with arguments in the range of their types, gains up to the extremes of
  \<open>i32\<close>, encoder counts over all of \<open>i64\<close> and timestamps over all of \<open>u64\<close> included, every call
  returns and every commanded pair lies between -100 and 100.
\<close>

theorem motor_pid_safe:
  assumes "list_all motor_call_ok cs"
  shows "\<exists>outs m. motor_run f motor_off cs = Ret (outs, m) \<and> (\<forall>(l, r) \<in> set outs. \<bar>l\<bar> \<le> 100 \<and> \<bar>r\<bar> \<le> 100)"
proof -
  have "\<exists>outs m'. motor_run f m cs = Ret (outs, m') \<and> (\<forall>(l, r) \<in> set outs. \<bar>l\<bar> \<le> 100 \<and> \<bar>r\<bar> \<le> 100)"
    if "motor_inv m" for m
    using that assms
  proof (induction cs arbitrary: m)
    case Nil
    then show ?case by simp
  next
    case (Cons c cs)
    obtain out m1 where s: "motor_step f m c = Ret (out, m1)" "motor_inv m1"
        "\<forall>l r. out = Some (l, r) \<longrightarrow> \<bar>l\<bar> \<le> 100 \<and> \<bar>r\<bar> \<le> 100"
      using motor_step_total [OF Cons.prems(1), of c f] Cons.prems(2) by auto
    obtain outs m' where "motor_run f m1 cs = Ret (outs, m')" "\<forall>(l, r) \<in> set outs. \<bar>l\<bar> \<le> 100 \<and> \<bar>r\<bar> \<le> 100"
      using Cons.IH [OF s(2)] Cons.prems(2) by auto
    then show ?case
      using s(1,3) by (cases out) auto
  qed
  then show ?thesis
    using motor_inv_off by blast
qed

theorem motor_pid_safe_witness:
  "\<exists>outs m. motor_run 10000000 motor_off
      [MInit, MGains 2147483647 (- 2147483648) 2147483647, MTick 0 0 1, MTick 9223372036854775807 0 100001]
     = Ret (outs, m) \<and> (\<forall>(l, r) \<in> set outs. \<bar>l\<bar> \<le> 100 \<and> \<bar>r\<bar> \<le> 100)"
  by (rule motor_pid_safe) (simp add: int_ranges)

text \<open>
  The integral and derivative gains are a factor 65536 too weak: the terms are divided by
  the fixed-point scale twice.  With \<open>Kd = 1\<close> a change of the error by 100 within 10 ms, a slope of
  10000 per second, contributes nothing to the output, and with \<open>Ki = 1\<close> an error of 100 held for
  10 ms adds one to an accumulator that is again divided by 65536 before it is used.
\<close>

lemma pid_terms_scaled_twice:
  assumes "pid_new 0 ki kd = Ret c" "0 \<le> ki" "ki \<le> 6553" "0 \<le> kd" "kd \<le> 6"
  shows "\<exists>c'. pid_update c 100 0 10 = Ret (0, c') \<and> pid_integral c' = ki"
proof -
  have c: "c = \<lparr>pid_kp = 0, pid_ki = ki * 65536, pid_kd = kd * 65536, pid_integral = 0, pid_prev_error = 0,
      pid_output_min = - 100, pid_output_max = 100\<rparr>"
    using assms(1) by (auto simp: pid_new_def pid_consts checked_i64_def split: if_splits)
  have sat: "sat_i64 x = x" if "in_i64 x" for x
    using that by (auto simp: sat_i64_def clamp_def in_i64_def)
  have i: "sat_i64 (sat_i64 (ki * 65536 * 100) * 10) = ki * 65536000"
    using assms by (subst sat, simp add: int_ranges, subst sat) (simp_all add: int_ranges)
  have d: "sat_i64 (sat_i64 (kd * 65536 * 100) * 1000) = kd * 6553600000"
    using assms by (subst sat, simp add: int_ranges, subst sat) (simp_all add: int_ranges)
  have ti: "tdiv (ki * 65536000) 65536000 = ki"
    using assms by (simp add: tdiv_def abs_mult sgn_mult sgn_if)
  have td: "tdiv (kd * 6553600000) 655360 = kd * 10000"
  proof -
    have "kd * 6553600000 div 655360 = kd * 10000"
      by (simp add: nonzero_mult_div_cancel_right [of 655360 "kd * 10000", simplified])
    then show ?thesis
      using assms by (auto simp: tdiv_def abs_mult sgn_mult sgn_if)
  qed
  have z: "tdiv (kd * 10000) 65536 = 0" "tdiv ki 65536 = 0"
    using assms by (simp_all add: tdiv_def abs_mult)
  show ?thesis
    unfolding c using assms i d ti td z
    by (simp add: pid_update_def pid_consts checked_i64_def int_ranges Let_def clamp_def)
      (simp add: sat_i64_def clamp_def int_ranges tdiv_def)
qed

lemma pid_terms_scaled_twice_witness:
  "\<exists>c'. pid_update \<lparr>pid_kp = 0, pid_ki = 65536, pid_kd = 65536, pid_integral = 0, pid_prev_error = 0,
      pid_output_min = - 100, pid_output_max = 100\<rparr> 100 0 10 = Ret (0, c') \<and> pid_integral c' = 1"
  by (rule pid_terms_scaled_twice [of 1 1]) (simp_all add: pid_new_def pid_consts checked_i64_def int_ranges)

end
