(* ===== verification/Crc32.thy ===== *)
theory Crc32
  imports Rust_Prelude
begin

text \<open>
  CRC-32 of \<open>crates/ota/src/pure.rs\<close>: the one-shot function and the streaming accumulator, both
  bit at a time over the reflected polynomial.  The lemmas show that the two agree for every
  chunking of the data and that a change confined to four consecutive bytes is always detected.
\<close>

definition crc_bit :: "u32 \<Rightarrow> u32" where
  "crc_bit crc = (if crc AND 1 \<noteq> 0 then drop_bit 1 crc XOR 0xEDB88320 else drop_bit 1 crc)"

definition crc_byte :: "u32 \<Rightarrow> u8 \<Rightarrow> u32" where
  "crc_byte crc byte = (crc_bit ^^ 8) (crc XOR ucast byte)"

definition crc32 :: "u8 list \<Rightarrow> u32" where
  "crc32 data = NOT (foldl crc_byte 0xFFFFFFFF data)"

record Crc32State =
  crc_reg :: u32

definition crc_new :: Crc32State where
  "crc_new = \<lparr>crc_reg = 0xFFFFFFFF\<rparr>"

definition crc_update :: "Crc32State \<Rightarrow> u8 list \<Rightarrow> Crc32State" where
  "crc_update self data = self\<lparr>crc_reg := foldl crc_byte (crc_reg self) data\<rparr>"

definition crc_finalize :: "Crc32State \<Rightarrow> u32" where
  "crc_finalize self = NOT (crc_reg self)"

section \<open>Streaming\<close>

lemma crc_updates_concat: "crc_reg (foldl crc_update s chunks) = foldl crc_byte (crc_reg s) (concat chunks)"
  by (induction chunks arbitrary: s) (simp_all add: crc_update_def)

lemma crc_streaming: "crc_finalize (foldl crc_update crc_new chunks) = crc32 (concat chunks)"
  by (simp add: crc_finalize_def crc_updates_concat crc32_def crc_new_def)

section \<open>Linearity\<close>

lemma xor_cancel: "x XOR z = y XOR z \<longleftrightarrow> x = y" "z XOR x = z XOR y \<longleftrightarrow> x = y" for x y z :: u32
proof -
  have "x = y" if "x XOR z = y XOR z" for x y z :: u32
    using arg_cong [OF that, of "\<lambda>w. w XOR z"] by (simp add: xor.assoc)
  then show "x XOR z = y XOR z \<longleftrightarrow> x = y" "z XOR x = z XOR y \<longleftrightarrow> x = y"
    by (auto simp: xor.commute [of z])
qed

lemma crc_bit_alt: "crc_bit c = drop_bit 1 c XOR (if bit c 0 then 0xEDB88320 else 0)"
  by (simp add: crc_bit_def and_one_eq bit_0 odd_iff_mod_2_eq_one)

lemma crc_bit_xor: "crc_bit (x XOR y) = crc_bit x XOR crc_bit y"
  by (auto simp: crc_bit_alt bit_xor_iff ac_simps)

lemma crc_bits_xor: "(crc_bit ^^ n) (x XOR y) = (crc_bit ^^ n) x XOR (crc_bit ^^ n) y"
  by (induction n) (simp_all add: crc_bit_xor)

lemma crc_bits_push: "LENGTH(32) - n \<ge> m \<Longrightarrow> take_bit m y = y \<Longrightarrow> n \<le> 32 \<Longrightarrow> (crc_bit ^^ n) (push_bit n y) = y"
  for y :: u32
proof (induction n)
  case (Suc n)
  have "crc_bit (push_bit (Suc n) y) = push_bit n y"
  proof (rule bit_word_eqI)
    fix i
    assume i: "i < LENGTH(32)"
    have "bit y (Suc i - Suc n) \<longrightarrow> Suc i < 32" if "n \<le> i"
    proof -
      have "bit y j \<Longrightarrow> j < m" for j
        using Suc.prems(2) bit_take_bit_iff [of m y j] by simp
      then show ?thesis
        using that Suc.prems by fastforce
    qed
    then show "bit (crc_bit (push_bit (Suc n) y)) i = bit (push_bit n y) i"
      using i Suc.prems(3) by (auto simp: crc_bit_alt bit_simps simp del: push_bit_Suc)
  qed
  then show ?case
    using Suc by (simp add: funpow_Suc_right del: funpow.simps)
qed simp

lemma crc_bit_inj: "inj crc_bit"
proof (rule injI)
  fix x y
  assume eq: "crc_bit x = crc_bit y"
  have top: "bit (crc_bit z) 31 = bit z 0" for z
    using bit_imp_le_length [of z 32] by (auto simp: crc_bit_alt bit_simps)
  have "bit x 0 = bit y 0"
    using eq top by metis
  then have d: "drop_bit 1 x = drop_bit 1 y"
    using eq by (simp add: crc_bit_alt xor_cancel)
  show "x = y"
  proof (rule bit_word_eqI)
    fix i
    show "bit x i = bit y i"
    proof (cases i)
      case 0
      then show ?thesis using \<open>bit x 0 = bit y 0\<close> by simp
    next
      case (Suc k)
      then show ?thesis using arg_cong [OF d, of "\<lambda>w. bit w k"] by (simp add: bit_simps)
    qed
  qed
qed

lemma crc_bits_inj: "inj (crc_bit ^^ n)"
  by (induction n) (simp_all add: crc_bit_inj inj_compose del: o_apply)

section \<open>Bursts\<close>

primrec le_word :: "u8 list \<Rightarrow> u32" where
  "le_word [] = 0"
| "le_word (b # bs) = ucast b XOR push_bit 8 (le_word bs)"

lemma bit_le_word: "bit (le_word bs) i \<Longrightarrow> i < 8 * length bs"
proof (induction bs arbitrary: i)
  case (Cons b bs)
  then have "bit b i \<or> 8 \<le> i \<and> bit (le_word bs) (i - 8)"
    by (auto simp: bit_simps)
  then show ?case
    using Cons.IH [of "i - 8"] bit_u8_less [of b i] by auto
qed simp

lemma le_word_take: "take_bit (8 * length bs) (le_word bs) = le_word bs"
  by (rule bit_word_eqI) (auto simp: bit_take_bit_iff dest: bit_le_word)

lemma crc_foldl_word:
  "length bs \<le> 4 \<Longrightarrow> foldl crc_byte c bs = (crc_bit ^^ (8 * length bs)) (c XOR le_word bs)"
proof (induction bs arbitrary: c)
  case (Cons b bs)
  have "(crc_bit ^^ 8) (push_bit 8 (le_word bs)) = le_word bs"
    using Cons.prems by (intro crc_bits_push [OF _ le_word_take]) simp_all
  then have "crc_byte c b XOR le_word bs = (crc_bit ^^ 8) (c XOR le_word (b # bs))"
    by (simp add: crc_byte_def crc_bits_xor xor.assoc)
  moreover have "foldl crc_byte (crc_byte c b) bs = (crc_bit ^^ (8 * length bs)) (crc_byte c b XOR le_word bs)"
    using Cons by simp
  moreover have "8 * length (b # bs) = 8 * length bs + 8"
    by simp
  ultimately show ?case
    by (simp only: funpow_add o_apply foldl.simps)
qed simp

lemma le_word_inj:
  "length bs \<le> 4 \<Longrightarrow> length cs = length bs \<Longrightarrow> le_word bs = le_word cs \<Longrightarrow> bs = cs"
proof (induction bs arbitrary: cs)
  case (Cons b bs)
  then obtain c cs' where cs: "cs = c # cs'" "length cs' = length bs"
    by (cases cs) auto
  have bits: "bit (le_word (x # xs)) i = (if i < 8 then bit x i else bit (le_word xs) (i - 8))"
    if "length xs \<le> 3" "i < 32" for x xs i
    using that bit_le_word [of xs "i - 8"] by (auto simp: bit_simps dest: bit_u8_less)
  have "b = c"
  proof (rule bit_word_eqI)
    fix i
    assume "i < LENGTH(8)"
    then show "bit b i = bit c i"
      using arg_cong [OF Cons.prems(3), of "\<lambda>w. bit w i"] Cons.prems(1) cs bits [of bs i b] bits [of cs' i c]
      by simp
  qed
  moreover have "le_word bs = le_word cs'"
  proof (rule bit_word_eqI)
    fix i
    assume "i < LENGTH(32)"
    show "bit (le_word bs) i = bit (le_word cs') i"
    proof (cases "i < 24")
      case True
      then show ?thesis
        using arg_cong [OF Cons.prems(3), of "\<lambda>w. bit w (i + 8)"] Cons.prems(1) cs
          bits [of bs "i + 8" b] bits [of cs' "i + 8" c] by simp
    next
      case False
      then show ?thesis
        using Cons.prems(1) cs by (auto dest!: bit_le_word)
    qed
  qed
  ultimately show ?case
    using Cons cs by simp
qed simp

lemma foldl_crc_inj: "foldl crc_byte c s = foldl crc_byte d s \<Longrightarrow> c = d"
proof (induction s arbitrary: c d)
  case (Cons b s)
  then have "crc_byte c b = crc_byte d b"
    by simp
  then have "c XOR ucast b = d XOR ucast b"
    unfolding crc_byte_def by (rule injD [OF crc_bits_inj])
  then show ?case
    by (simp add: xor_cancel)
qed simp

text \<open>
  C27. The checksum detects every burst error: two messages of the same length that differ only
  within four consecutive bytes have different CRC-32 values.
\<close>

theorem crc32_detects_bursts:
  assumes "length d = length d'" "length d \<le> 4" "d \<noteq> d'"
  shows "crc32 (p @ d @ s) \<noteq> crc32 (p @ d' @ s)"
proof
  assume "crc32 (p @ d @ s) = crc32 (p @ d' @ s)"
  then have "foldl crc_byte (foldl crc_byte 0xFFFFFFFF p) d = foldl crc_byte (foldl crc_byte 0xFFFFFFFF p) d'"
    by - (rule foldl_crc_inj [where s = s], simp add: crc32_def)
  then have "foldl crc_byte 0xFFFFFFFF p XOR le_word d = foldl crc_byte 0xFFFFFFFF p XOR le_word d'"
    using assms(1,2) by (simp add: crc_foldl_word inj_eq [OF crc_bits_inj])
  then have "le_word d = le_word d'"
    by (simp add: xor_cancel)
  then show False
    using le_word_inj [OF assms(2) assms(1) [symmetric]] assms(3) by simp
qed

theorem crc32_detects_bursts_witness:
  "crc32 ([1, 2] @ [3, 4, 5, 6] @ [7]) \<noteq> crc32 ([1, 2] @ [3, 4, 5, 8] @ [7])"
  by (rule crc32_detects_bursts) simp_all

end
