(* ===== verification/Ota_Codec.thy ===== *)
theory Ota_Codec
  imports Crc32
begin

text \<open>
  The pure half of the update path (\<open>crates/ota/src/pure.rs\<close>): the on-wire header, the boot
  metadata and their text form, and the record that frames the text with a sequence number and
  a checksum.  The parsers walk an index over the input; they are functions of the input that
  is left.  The serializers write into a caller's buffer and return the number of bytes, 0 for
  a line that does not fit.
\<close>

definition bytes :: "string \<Rightarrow> u8 list" where
  "bytes = map of_char"

section \<open>On-wire header\<close>

definition OTA_MAGIC :: "u8 list" where "OTA_MAGIC = bytes ''ROTA''"
definition OTA_HEADER_VERSION :: u32 where "OTA_HEADER_VERSION = 1"
definition OTA_HEADER_SIZE :: nat where "OTA_HEADER_SIZE = 24"
definition OTA_FLAG_COMPRESSED :: u8 where "OTA_FLAG_COMPRESSED = 1"
definition SLOT_A :: u8 where "SLOT_A = 0"
definition SLOT_B :: u8 where "SLOT_B = 1"
definition SLOT_R :: u8 where "SLOT_R = 2"

record OtaHeader =
  h_version :: u32
  h_image_size :: u32
  h_image_crc32 :: u32
  h_fw_version :: u32
  h_platform_id :: u8
  h_flags :: u8

definition get_u32 :: "u8 list \<Rightarrow> nat \<Rightarrow> u32" where
  "get_u32 buf off = u32_from_le (buf ! off) (buf ! (off + 1)) (buf ! (off + 2)) (buf ! (off + 3))"

definition put_u32 :: "u8 list \<Rightarrow> nat \<Rightarrow> u32 \<Rightarrow> u8 list" where
  "put_u32 buf off v =
     (let b = u32_to_le v in buf[off := b ! 0, off + 1 := b ! 1, off + 2 := b ! 2, off + 3 := b ! 3])"

definition ota_parse_header :: "u8 list \<Rightarrow> OtaHeader option" where
  "ota_parse_header buf =
     (if length buf < OTA_HEADER_SIZE then None
      else if take 4 buf \<noteq> OTA_MAGIC then None
      else let header_version = get_u32 buf 4 in
        if header_version \<noteq> OTA_HEADER_VERSION then None
        else Some \<lparr>h_version = header_version, h_image_size = get_u32 buf 8,
                   h_image_crc32 = get_u32 buf 12, h_fw_version = get_u32 buf 16,
                   h_platform_id = buf ! 20, h_flags = buf ! 21\<rparr>)"

definition ota_validate_header :: "OtaHeader \<Rightarrow> u8 \<Rightarrow> nat \<Rightarrow> bool" where
  "ota_validate_header h platform max_image_size \<longleftrightarrow>
     \<not> (h_platform_id h \<noteq> platform \<or> h_image_size h = 0 \<or> unat (h_image_size h) > max_image_size
        \<or> h_flags h AND OTA_FLAG_COMPRESSED \<noteq> 0)"

definition ota_encode_header :: "OtaHeader \<Rightarrow> u8 list \<Rightarrow> u8 list" where
  "ota_encode_header h out =
     (if length out < OTA_HEADER_SIZE then out
      else let out = copy_at out 0 OTA_MAGIC;
               out = put_u32 out 4 (h_version h);
               out = put_u32 out 8 (h_image_size h);
               out = put_u32 out 12 (h_image_crc32 h);
               out = put_u32 out 16 (h_fw_version h)
           in out[20 := h_platform_id h, 21 := h_flags h, 22 := 0, 23 := 0])"

section \<open>Boot metadata\<close>

record BootMeta =
  active_slot :: u8
  boot_count :: u32
  last_good :: u8
  fw_version_a :: u32
  fw_version_b :: u32
  fw_version_r :: u32
  image_size_a :: u32
  image_size_b :: u32
  image_size_r :: u32
  image_crc_a :: u32
  image_crc_b :: u32
  image_crc_r :: u32
  min_fw_version :: u32

definition boot_meta_default :: BootMeta where
  "boot_meta_default =
     \<lparr>active_slot = SLOT_A, boot_count = 0, last_good = SLOT_A, fw_version_a = 0, fw_version_b = 0,
      fw_version_r = 0, image_size_a = 0, image_size_b = 0, image_size_r = 0, image_crc_a = 0,
      image_crc_b = 0, image_crc_r = 0, min_fw_version = 0\<rparr>"

definition slot_crc :: "BootMeta \<Rightarrow> u8 \<Rightarrow> u32" where
  "slot_crc m slot =
     (if slot = SLOT_A then image_crc_a m else if slot = SLOT_R then image_crc_r m else image_crc_b m)"

definition slot_size :: "BootMeta \<Rightarrow> u8 \<Rightarrow> u32" where
  "slot_size m slot =
     (if slot = SLOT_A then image_size_a m else if slot = SLOT_R then image_size_r m else image_size_b m)"

definition slot_version :: "BootMeta \<Rightarrow> u8 \<Rightarrow> u32" where
  "slot_version m slot =
     (if slot = SLOT_A then fw_version_a m else if slot = SLOT_R then fw_version_r m else fw_version_b m)"

definition ota_inactive_slot_pure :: "u8 \<Rightarrow> u8" where
  "ota_inactive_slot_pure active = (if active = SLOT_A then SLOT_B else SLOT_A)"

section \<open>Printing\<close>

definition slot_char :: "u8 \<Rightarrow> u8 list" where
  "slot_char slot = (if slot = SLOT_A then bytes ''a'' else if slot = SLOT_R then bytes ''r'' else bytes ''b'')"

definition write_kv :: "u8 list \<Rightarrow> nat \<Rightarrow> u8 list \<Rightarrow> u8 list \<Rightarrow> nat \<times> u8 list" where
  "write_kv buf pos key val =
     (let needed = length key + length val + 1 in
      if pos + needed > length buf then (0, buf)
      else let buf = copy_at buf pos key;
               p = pos + length key;
               buf = copy_at buf p val
           in (needed, buf[p + length val := 10]))"

lemma unat_div_10: "unat (val div 10) = unat val div 10" for val :: u32
  by (simp add: unat_div)

function fmt_u32_loop :: "u32 \<Rightarrow> nat \<Rightarrow> u8 list \<Rightarrow> nat \<times> u8 list" where
  "fmt_u32_loop val i buf =
     (if val > 0 then fmt_u32_loop (val div 10) (i - 1) (buf[i - 1 := 48 + ucast (val mod 10)])
      else (i, buf))"
  by auto

termination
  by (relation "measure (\<lambda>(val, _, _). unat val)") (auto simp: unat_div_10 word_less_nat_alt)

declare fmt_u32_loop.simps [simp del]

definition fmt_u32_to_buf :: "u32 \<Rightarrow> u8 list \<Rightarrow> nat \<times> u8 list" where
  "fmt_u32_to_buf val buf =
     (if val = 0 then (1, buf[0 := 48])
      else let (i, buf) = fmt_u32_loop val 10 buf;
               len = 10 - i
           in (len, copy_at buf 0 (take len (drop i buf))))"

definition write_kv_u32 :: "u8 list \<Rightarrow> nat \<Rightarrow> u8 list \<Rightarrow> u32 \<Rightarrow> nat \<times> u8 list" where
  "write_kv_u32 buf pos key val =
     (let (num_len, num_buf) = fmt_u32_to_buf val (replicate 10 0) in write_kv buf pos key (take num_len num_buf))"

definition hex_digit :: "u8 \<Rightarrow> u8" where
  "hex_digit nibble = (if nibble < 10 then 48 + nibble else 97 + nibble - 10)"

definition write_kv_u32_hex :: "u8 list \<Rightarrow> nat \<Rightarrow> u8 list \<Rightarrow> u32 \<Rightarrow> nat \<times> u8 list" where
  "write_kv_u32_hex buf pos key val =
     (let hex_buf = bytes ''0x'' @ map (\<lambda>i. hex_digit (ucast (drop_bit ((7 - i) * 4) val AND 0xF))) [0..<8]
      in write_kv buf pos key hex_buf)"

text \<open>One \<open>pos += write_kv(...)\<close> of the serializers, on the pair of position and buffer.\<close>

definition emit :: "u8 list \<Rightarrow> u8 list \<Rightarrow> nat \<times> u8 list \<Rightarrow> nat \<times> u8 list" where
  "emit key val s = (case s of (pos, buf) \<Rightarrow> (case write_kv buf pos key val of (n, buf) \<Rightarrow> (pos + n, buf)))"

definition emit_u32 :: "u8 list \<Rightarrow> u32 \<Rightarrow> nat \<times> u8 list \<Rightarrow> nat \<times> u8 list" where
  "emit_u32 key val s = (case s of (pos, buf) \<Rightarrow> (case write_kv_u32 buf pos key val of (n, buf) \<Rightarrow> (pos + n, buf)))"

definition emit_hex :: "u8 list \<Rightarrow> u32 \<Rightarrow> nat \<times> u8 list \<Rightarrow> nat \<times> u8 list" where
  "emit_hex key val s = (case s of (pos, buf) \<Rightarrow> (case write_kv_u32_hex buf pos key val of (n, buf) \<Rightarrow> (pos + n, buf)))"

definition serialize_boot_meta :: "BootMeta \<Rightarrow> u8 list \<Rightarrow> nat \<times> u8 list" where
  "serialize_boot_meta m buf =
     (let s = emit (bytes ''active_slot='') (slot_char (active_slot m)) (0, buf);
          s = emit_u32 (bytes ''boot_count='') (boot_count m) s;
          s = emit (bytes ''last_good='') (slot_char (last_good m)) s;
          s = emit_u32 (bytes ''fw_version_a='') (fw_version_a m) s;
          s = emit_u32 (bytes ''fw_version_b='') (fw_version_b m) s;
          s = emit_u32 (bytes ''fw_version_r='') (fw_version_r m) s;
          s = emit_u32 (bytes ''image_size_a='') (image_size_a m) s;
          s = emit_u32 (bytes ''image_size_b='') (image_size_b m) s;
          s = emit_u32 (bytes ''image_size_r='') (image_size_r m) s;
          s = emit_u32 (bytes ''image_crc_a='') (image_crc_a m) s;
          s = emit_u32 (bytes ''image_crc_b='') (image_crc_b m) s;
          s = emit_u32 (bytes ''image_crc_r='') (image_crc_r m) s;
          s = emit_u32 (bytes ''min_fw_version='') (min_fw_version m) s
      in s)"

record BootMetaRecord =
  rec_meta :: BootMeta
  rec_seq :: u32

definition serialize_boot_meta_record :: "BootMetaRecord \<Rightarrow> u8 list \<Rightarrow> nat \<times> u8 list" where
  "serialize_boot_meta_record rec buf =
     (let (pos, buf) = emit_u32 (bytes ''seq='') (rec_seq rec) (0, buf);
          (n, rest) = serialize_boot_meta (rec_meta rec) (drop pos buf);
          buf = take pos buf @ rest;
          pos = pos + n;
          prefix_crc = crc32 (take pos buf)
      in emit_hex (bytes ''crc='') prefix_crc (pos, buf))"

section \<open>Parsing\<close>

fun parse_u32_loop :: "u32 \<Rightarrow> u8 list \<Rightarrow> u32" where
  "parse_u32_loop v [] = v"
| "parse_u32_loop v (b # s) =
     (if 48 \<le> b \<and> b \<le> 57 then parse_u32_loop (saturating_add (saturating_mul v 10) (ucast (b - 48))) s
      else v)"

definition parse_u32_simple :: "u8 list \<Rightarrow> u32" where
  "parse_u32_simple s = parse_u32_loop 0 s"

definition hex_value :: "u8 \<Rightarrow> u32 option" where
  "hex_value b =
     (if 48 \<le> b \<and> b \<le> 57 then Some (ucast (b - 48))
      else if 97 \<le> b \<and> b \<le> 102 then Some (ucast (b - 97 + 10))
      else if 65 \<le> b \<and> b \<le> 70 then Some (ucast (b - 65 + 10))
      else None)"

fun parse_hex_loop :: "u32 \<Rightarrow> u8 list \<Rightarrow> u32" where
  "parse_hex_loop v [] = v"
| "parse_hex_loop v (b # s) = (case hex_value b of None \<Rightarrow> v | Some d \<Rightarrow> parse_hex_loop (v * 16 + d) s)"

definition parse_u32_hex_or_dec :: "u8 list \<Rightarrow> u32" where
  "parse_u32_hex_or_dec s =
     (let s = dropWhile (\<lambda>b. b = 32 \<or> b = 9) s in
      if length s \<ge> 2 \<and> s ! 0 = 48 \<and> (s ! 1 = 120 \<or> s ! 1 = 88) then parse_hex_loop 0 (drop 2 s)
      else parse_u32_simple s)"

definition parse_slot_char :: "u8 list \<Rightarrow> u8" where
  "parse_slot_char val =
     (if val = bytes ''b'' \<or> val = bytes ''B'' then SLOT_B
      else if val = bytes ''r'' \<or> val = bytes ''R'' then SLOT_R
      else SLOT_A)"

definition boot_meta_field :: "u8 list \<Rightarrow> u8 list \<Rightarrow> BootMeta \<Rightarrow> BootMeta" where
  "boot_meta_field key val m =
     (if key = bytes ''active_slot'' then m\<lparr>active_slot := parse_slot_char val\<rparr>
      else if key = bytes ''boot_count'' then m\<lparr>boot_count := parse_u32_simple val\<rparr>
      else if key = bytes ''last_good'' then m\<lparr>last_good := parse_slot_char val\<rparr>
      else if key = bytes ''fw_version_a'' then m\<lparr>fw_version_a := parse_u32_simple val\<rparr>
      else if key = bytes ''fw_version_b'' then m\<lparr>fw_version_b := parse_u32_simple val\<rparr>
      else if key = bytes ''fw_version_r'' then m\<lparr>fw_version_r := parse_u32_simple val\<rparr>
      else if key = bytes ''image_size_a'' then m\<lparr>image_size_a := parse_u32_simple val\<rparr>
      else if key = bytes ''image_size_b'' then m\<lparr>image_size_b := parse_u32_simple val\<rparr>
      else if key = bytes ''image_size_r'' then m\<lparr>image_size_r := parse_u32_simple val\<rparr>
      else if key = bytes ''image_crc_a'' then m\<lparr>image_crc_a := parse_u32_simple val\<rparr>
      else if key = bytes ''image_crc_b'' then m\<lparr>image_crc_b := parse_u32_simple val\<rparr>
      else if key = bytes ''image_crc_r'' then m\<lparr>image_crc_r := parse_u32_simple val\<rparr>
      else if key = bytes ''min_fw_version'' then m\<lparr>min_fw_version := parse_u32_simple val\<rparr>
      else m)"

definition is_blank :: "u8 \<Rightarrow> bool" where
  "is_blank b \<longleftrightarrow> b = 10 \<or> b = 13 \<or> b = 32 \<or> b = 9"

lemma dropWhile_Cons_length: "dropWhile P xs = y # ys \<Longrightarrow> length ys < length xs"
  using length_dropWhile_le [of P xs] by simp

lemma parse_loop_measure:
  assumes "dropWhile is_blank data = c # cs"
  shows "c = 35 \<Longrightarrow> length (dropWhile (\<lambda>b. b \<noteq> 10) (c # cs)) < length data"
    and "dropWhile (\<lambda>b. b \<noteq> 61 \<and> b \<noteq> 10) (c # cs) = d # ds \<Longrightarrow> d \<noteq> 61 \<Longrightarrow> length (d # ds) < length data"
    and "dropWhile (\<lambda>b. b \<noteq> 61 \<and> b \<noteq> 10) (c # cs) = d # ds \<Longrightarrow>
         length (dropWhile (\<lambda>b. b \<noteq> 10 \<and> b \<noteq> 13) ds) < length data"
proof -
  have l: "length cs < length data"
    using assms by (rule dropWhile_Cons_length)
  have nb: "\<not> is_blank c"
    using assms hd_dropWhile [of is_blank data] by simp
  show "c = 35 \<Longrightarrow> length (dropWhile (\<lambda>b. b \<noteq> 10) (c # cs)) < length data"
    using l length_dropWhile_le [of "\<lambda>b. b \<noteq> 10" cs] by simp
  show "length (d # ds) < length data" if d: "dropWhile (\<lambda>b. b \<noteq> 61 \<and> b \<noteq> 10) (c # cs) = d # ds" "d \<noteq> 61"
  proof -
    have "dropWhile (\<lambda>b. b \<noteq> 61 \<and> b \<noteq> 10) cs = d # ds"
      using d nb by (auto simp: is_blank_def split: if_splits)
    then show ?thesis
      using l length_dropWhile_le [of "\<lambda>b. b \<noteq> 61 \<and> b \<noteq> 10" cs] by simp
  qed
  show "length (dropWhile (\<lambda>b. b \<noteq> 10 \<and> b \<noteq> 13) ds) < length data"
    if "dropWhile (\<lambda>b. b \<noteq> 61 \<and> b \<noteq> 10) (c # cs) = d # ds"
    using l dropWhile_Cons_length [OF that] length_dropWhile_le [of "\<lambda>b. b \<noteq> 10 \<and> b \<noteq> 13" ds] by simp
qed

function parse_boot_meta_loop :: "u8 list \<Rightarrow> BootMeta \<Rightarrow> BootMeta" where
  "parse_boot_meta_loop data m =
     (case dropWhile is_blank data of
        [] \<Rightarrow> m
      | c # cs \<Rightarrow>
          (if c = 35 then parse_boot_meta_loop (dropWhile (\<lambda>b. b \<noteq> 10) (c # cs)) m
           else case dropWhile (\<lambda>b. b \<noteq> 61 \<and> b \<noteq> 10) (c # cs) of
               [] \<Rightarrow> parse_boot_meta_loop [] m
             | d # ds \<Rightarrow>
                 (if d \<noteq> 61 then parse_boot_meta_loop (d # ds) m
                  else parse_boot_meta_loop (dropWhile (\<lambda>b. b \<noteq> 10 \<and> b \<noteq> 13) ds)
                         (boot_meta_field (takeWhile (\<lambda>b. b \<noteq> 61 \<and> b \<noteq> 10) (c # cs))
                            (takeWhile (\<lambda>b. b \<noteq> 10 \<and> b \<noteq> 13) ds) m))))"
  by pat_completeness auto

termination
proof (relation "measure (\<lambda>(data, _). length data)", goal_cases)
  case (2 data m c cs)
  then show ?case using parse_loop_measure(1) [of data c cs] by simp
next
  case (3 data m c cs)
  then have "data \<noteq> []" by auto
  then show ?case by simp
next
  case (4 data m c cs d ds)
  then show ?case using parse_loop_measure(2) [of data c cs d ds] by simp
next
  case (5 data m c cs d ds)
  then show ?case using parse_loop_measure(3) [of data c cs d ds] by simp
qed simp

declare parse_boot_meta_loop.simps [simp del]

definition parse_boot_meta :: "u8 list \<Rightarrow> BootMeta" where
  "parse_boot_meta data = parse_boot_meta_loop data boot_meta_default"

definition line_match :: "u8 list \<Rightarrow> u8 list \<Rightarrow> nat \<Rightarrow> bool" where
  "line_match needle data i \<longleftrightarrow> (i = 0 \<or> data ! (i - 1) = 10)
     \<and> i + length needle \<le> length data \<and> take (length needle) (drop i data) = needle"

definition find_crc_line_start :: "u8 list \<Rightarrow> nat option" where
  "find_crc_line_start data = find (line_match (bytes ''crc='') data) [0..<length data]"

definition field_at :: "u8 list \<Rightarrow> nat \<Rightarrow> u8 list" where
  "field_at data start = takeWhile (\<lambda>b. b \<noteq> 10 \<and> b \<noteq> 13) (drop start data)"

definition parse_seq_line :: "u8 list \<Rightarrow> u32" where
  "parse_seq_line data =
     (case find (line_match (bytes ''seq='') data) [0..<length data] of
        None \<Rightarrow> 0
      | Some i \<Rightarrow> parse_u32_simple (field_at data (i + length (bytes ''seq=''))))"

definition parse_boot_meta_record :: "u8 list \<Rightarrow> BootMetaRecord option" where
  "parse_boot_meta_record data =
     (case find_crc_line_start data of
        None \<Rightarrow> None
      | Some crc_start \<Rightarrow>
          (let prefix = take crc_start data;
               stored_crc = parse_u32_hex_or_dec (field_at data (crc_start + length (bytes ''crc='')));
               actual_crc = crc32 prefix
           in if actual_crc \<noteq> stored_crc then None
              else Some \<lparr>rec_meta = parse_boot_meta prefix, rec_seq = parse_seq_line prefix\<rparr>))"

end
