(* ===== verification/Ota_Roundtrip.thy ===== *)
theory Ota_Roundtrip
  imports Ota_Codec
begin

text \<open>
  What the codecs of the update path guarantee: the header, the decimal and hexadecimal fields
  and the framed boot metadata survive a round trip, and a record that was cut short is either
  refused or read back as it was meant.
\<close>

section \<open>The header\<close>

lemma length_put_u32 [simp]: "length (put_u32 buf off v) = length buf"
  by (simp add: put_u32_def Let_def)

lemma get_put_u32 [codec_simps]: "off + 3 < length buf \<Longrightarrow> get_u32 (put_u32 buf off v) off = v"
  by (simp add: get_u32_def put_u32_def Let_def u32_to_le_def codec_simps)

lemma get_put_u32_other [codec_simps]:
  "o1 + 3 < o2 \<or> o2 + 3 < o1 \<Longrightarrow> get_u32 (put_u32 buf o2 v) o1 = get_u32 buf o1"
  by (auto simp: get_u32_def put_u32_def Let_def nth_list_update)

lemma get_u32_update [codec_simps]:
  "i < off \<or> off + 3 < i \<Longrightarrow> get_u32 (buf[i := x]) off = get_u32 buf off"
  by (auto simp: get_u32_def nth_list_update)

lemma take_put_u32 [codec_simps]: "n \<le> off \<Longrightarrow> take n (put_u32 buf off v) = take n buf"
  by (simp add: put_u32_def Let_def take_update_cancel)

lemma drop_put_u32 [codec_simps]: "off + 3 < n \<Longrightarrow> drop n (put_u32 buf off v) = drop n buf"
  by (simp add: put_u32_def Let_def drop_update_cancel)

lemma length_OTA_MAGIC [simp]: "length OTA_MAGIC = 4"
  by (simp add: OTA_MAGIC_def bytes_def)

lemma parse_encode_header:
  assumes "h_version h = OTA_HEADER_VERSION" "OTA_HEADER_SIZE \<le> length out"
  shows "ota_parse_header (ota_encode_header h out) = Some h"
    and "drop OTA_HEADER_SIZE (ota_encode_header h out) = drop OTA_HEADER_SIZE out"
    and "length (ota_encode_header h out) = length out"
proof -
  have l: "24 \<le> length out" "length (copy_at out 0 OTA_MAGIC) = length out"
    using assms by (simp_all add: OTA_HEADER_SIZE_def)
  show "ota_parse_header (ota_encode_header h out) = Some h"
    "drop OTA_HEADER_SIZE (ota_encode_header h out) = drop OTA_HEADER_SIZE out"
    "length (ota_encode_header h out) = length out"
    using assms l
    by (simp_all add: ota_encode_header_def ota_parse_header_def OTA_HEADER_SIZE_def Let_def codec_simps
        take_update_cancel drop_update_cancel) (simp_all add: copy_at_def)
qed

text \<open>
  C32. The header survives the wire: encoding a version-1 header into a buffer of at least 24
  bytes and parsing it gives the header back, and the bytes behind the header are untouched.
\<close>

theorem ota_header_roundtrip:
  assumes "h_version h = OTA_HEADER_VERSION" "OTA_HEADER_SIZE \<le> length out"
  shows "ota_parse_header (ota_encode_header h out) = Some h
    \<and> drop OTA_HEADER_SIZE (ota_encode_header h out) = drop OTA_HEADER_SIZE out"
  using parse_encode_header [OF assms] by blast

theorem ota_header_roundtrip_witness:
  "\<exists>h. ota_parse_header (ota_encode_header h (replicate 30 7)) = Some h
     \<and> drop OTA_HEADER_SIZE (ota_encode_header h (replicate 30 7)) = drop OTA_HEADER_SIZE (replicate 30 7)"
  by (rule exI [of _ "\<lparr>h_version = 1, h_image_size = 70000, h_image_crc32 = 0xDEADBEEF, h_fw_version = 3,
      h_platform_id = 1, h_flags = 0\<rparr>"], rule ota_header_roundtrip)
    (simp_all add: OTA_HEADER_VERSION_def OTA_HEADER_SIZE_def)

section \<open>Decimal fields\<close>

fun dec :: "nat \<Rightarrow> u8 list" where
  "dec n = (if n < 10 then [48 + of_nat n] else dec (n div 10) @ [48 + of_nat (n mod 10)])"

declare dec.simps [simp del]

lemma dec_not_Nil [simp]: "dec n \<noteq> []"
  by (subst dec.simps) simp

lemma length_dec: "n < 10 ^ k \<Longrightarrow> 0 < k \<Longrightarrow> length (dec n) \<le> k"
proof (induction k arbitrary: n)
  case (Suc k)
  show ?case
  proof (cases "n < 10")
    case False
    then have "0 < k"
      using Suc.prems by (cases k) auto
    moreover have "n div 10 < 10 ^ k"
      using Suc.prems by (simp add: less_mult_imp_div_less mult.commute)
    ultimately have "length (dec (n div 10)) \<le> k"
      using Suc.IH by blast
    then show ?thesis
      using False by (subst dec.simps) simp
  qed (subst dec.simps, simp)
qed simp

lemma length_dec_u32: "length (dec (unat v)) \<le> 10" for v :: u32
  using unat_u32_less [of v] by (intro length_dec) simp_all

lemma ucast_digit: "48 + (ucast (v mod 10) :: u8) = 48 + of_nat (unat v mod 10)" for v :: u32
proof -
  have "(ucast w :: u8) = of_nat (unat w)" for w :: u32
    by simp
  then show ?thesis
    by (simp only: unat_mod) simp
qed

lemma fmt_loop_dec:
  "0 < val \<Longrightarrow> length (dec (unat val)) \<le> i \<Longrightarrow> i \<le> length buf \<Longrightarrow>
   fmt_u32_loop val i buf = (i - length (dec (unat val)),
     take (i - length (dec (unat val))) buf @ dec (unat val) @ drop i buf)"
proof (induction val i buf rule: fmt_u32_loop.induct)
  case (1 val i buf)
  let ?b = "buf[i - 1 := 48 + ucast (val mod 10)]"
  have i: "0 < i" "i - 1 < length buf"
    using 1(3,4) dec_not_Nil [of "unat val"] by (cases i; simp)+
  have b: "drop (i - 1) ?b = (48 + of_nat (unat val mod 10)) # drop i buf"
    using i by (simp add: drop_update_swap ucast_digit Cons_nth_drop_Suc [symmetric])
  show ?case
  proof (cases "unat val < 10")
    case True
    then have "val div 10 = 0"
      by (simp add: word_unat_eq_iff unat_div_10)
    then show ?thesis
      using 1(2) True i b append_take_drop_id [of "i - 1" ?b]
      by (subst fmt_u32_loop.simps, subst fmt_u32_loop.simps) (simp add: dec.simps [of "unat val"])
  next
    case False
    have d: "dec (unat val) = dec (unat (val div 10)) @ [48 + of_nat (unat val mod 10)]"
      using False by (subst dec.simps) (simp add: unat_div_10)
    have "0 < val div 10"
      using False by (simp add: word_less_nat_alt unat_div_10)
    then have "fmt_u32_loop (val div 10) (i - 1) ?b = (i - 1 - length (dec (unat (val div 10))),
        take (i - 1 - length (dec (unat (val div 10)))) ?b @ dec (unat (val div 10)) @ drop (i - 1) ?b)"
      using 1(1) [OF 1(2)] 1(3,4) d by simp
    then show ?thesis
      using 1(2) i b d by (subst fmt_u32_loop.simps) simp
  qed
qed

lemma fmt_u32_dec: "(case fmt_u32_to_buf val (replicate 10 0) of (n, b) \<Rightarrow> take n b) = dec (unat val)"
proof (cases "val = 0")
  case True
  then show ?thesis
    by (simp add: fmt_u32_to_buf_def dec.simps take_update_swap)
next
  case False
  then have v: "0 < val"
    by (simp add: word_neq_0_conv)
  show ?thesis
    using False length_dec_u32 [of val]
    by (simp add: fmt_u32_to_buf_def fmt_loop_dec [OF v] copy_at_def Let_def)
qed

definition is_digit :: "u8 \<Rightarrow> bool" where
  "is_digit b \<longleftrightarrow> 48 \<le> b \<and> b \<le> 57"

lemma digit_unat: "d < 10 \<Longrightarrow> unat (48 + of_nat d :: u8) = 48 + d"
  by (simp add: unat_word_ariths unat_of_nat)

lemma is_digit_of_nat: "d < 10 \<Longrightarrow> is_digit (48 + of_nat d)"
  by (simp add: is_digit_def word_le_nat_alt digit_unat)

lemma dec_digits: "list_all is_digit (dec n)"
proof (induction n rule: dec.induct)
  case (1 n)
  then show ?case
    by (subst dec.simps) (auto simp: is_digit_of_nat)
qed

lemma parse_loop_digits:
  "list_all is_digit xs \<Longrightarrow> parse_u32_loop v (xs @ ys) = parse_u32_loop (parse_u32_loop v xs) ys"
  by (induction xs arbitrary: v) (auto simp: is_digit_def)

lemma parse_dec_loop: "n < 2 ^ 32 \<Longrightarrow> parse_u32_loop 0 (dec n) = of_nat n"
proof (induction n rule: dec.induct)
  case (1 n)
  have sub: "(48 + of_nat d :: u8) - 48 = of_nat d" for d
    by simp
  have step: "parse_u32_loop (of_nat q) [48 + of_nat d] = of_nat (q * 10 + d)"
    if "d < 10" "q * 10 + d < 2 ^ 32" for q d
  proof -
    have "q < 2 ^ 32"
      using that by simp
    then have q: "unat (of_nat q :: u32) = q"
      by (simp add: unat_of_nat)
    have m: "saturating_mul (of_nat q :: u32) 10 = of_nat (q * 10)"
      using that q by (simp add: saturating_mul_def)
    have dd: "ucast (of_nat d :: u8) = (of_nat d :: u32)"
      using that by (simp add: word_unat_eq_iff unat_of_nat unsigned_ucast_eq take_bit_eq_mod)
    have "unat (of_nat (q * 10) :: u32) = q * 10" "unat (of_nat d :: u32) = d"
      using that q by (simp_all add: unat_of_nat unat_word_ariths)
    then have "saturating_add (of_nat (q * 10) :: u32) (of_nat d) = of_nat (q * 10 + d)"
      using that(2) by (simp add: saturating_add_def)
    then show ?thesis
      using is_digit_of_nat [OF that(1)] m dd by (simp add: is_digit_def)
  qed
  show ?case
  proof (cases "n < 10")
    case True
    then show ?thesis
      using step [of n 0] by (subst dec.simps) simp
  next
    case False
    then have "parse_u32_loop 0 (dec (n div 10)) = of_nat (n div 10)"
      using 1 by simp
    then show ?thesis
      using False 1(2) step [of "n mod 10" "n div 10"] dec_digits
      by (subst dec.simps) (simp add: parse_loop_digits)
  qed
qed

lemma parse_u32_dec [codec_simps]: "parse_u32_simple (dec (unat v)) = v" for v :: u32
  using parse_dec_loop [of "unat v"] unat_u32_less [of v] by (simp add: parse_u32_simple_def)

section \<open>Hexadecimal fields\<close>

definition hexs :: "u32 \<Rightarrow> u8 list" where
  "hexs v = bytes ''0x'' @ map (\<lambda>i. hex_digit (ucast (drop_bit ((7 - i) * 4) v AND 0xF))) [0..<8]"

lemma hex_value_digit:
  assumes "n < 16"
  shows "hex_value (hex_digit n) = Some (ucast n)"
proof -
  have "unat n < 16"
    using assms by (simp add: word_less_nat_alt)
  then have "of_nat (unat n) \<in> set (map of_nat [0..<16] :: u8 list)"
    unfolding set_map set_upt by (intro imageI) simp
  then have "n \<in> set (map of_nat [0..<16])"
    by simp
  then show ?thesis
    by (simp add: upt_rec, elim disjE; simp add: hex_value_def hex_digit_def)
qed

lemma nibble_take_bit: "x AND 0xF = take_bit 4 x" for x :: u32
  by (simp add: take_bit_eq_mask mask_eq_exp_minus_1)

lemma ucast_take_nibble: "ucast (take_bit 4 x :: u32) = (take_bit 4 (ucast x) :: u8)"
  by (rule bit_word_eqI) (auto simp: bit_simps)

lemma nibble_less: "(ucast (x AND 0xF :: u32) :: u8) < 16"
proof -
  have "unat (take_bit 4 y) < 16" for y :: u8
    using take_bit_nat_less_exp [of 4 "unat y"] by (simp add: unsigned_take_bit_eq)
  then show ?thesis
    by (simp add: nibble_take_bit ucast_take_nibble word_less_nat_alt)
qed

lemma ucast_nibble: "ucast (ucast (x AND 0xF :: u32) :: u8) = x AND 0xF"
  unfolding nibble_take_bit by (rule bit_word_eqI) (auto simp: bit_simps)

lemma nibble_step: "drop_bit (k + 4) w * 16 + (drop_bit k w AND 0xF) = drop_bit k w" for w :: u32
proof -
  have "push_bit 4 (drop_bit 4 (drop_bit k w)) + take_bit 4 (drop_bit k w) = drop_bit k w"
    by (rule bits_ident)
  then show ?thesis
    by (simp add: nibble_take_bit push_bit_eq_mult add.commute [of 4])
qed

definition nib :: "u32 \<Rightarrow> nat \<Rightarrow> u8" where
  "nib v k = hex_digit (ucast (drop_bit k v AND 0xF))"

lemma hexs_nibs: "hexs v = [48, 120, nib v 28, nib v 24, nib v 20, nib v 16, nib v 12, nib v 8, nib v 4, nib v 0]"
  by (simp add: hexs_def bytes_def upt_rec nib_def)

lemma parse_hex_step:
  "j = k + 4 \<Longrightarrow> parse_hex_loop (drop_bit j v) (nib v k # s) = parse_hex_loop (drop_bit k v) s"
  by (simp add: nib_def hex_value_digit nibble_less ucast_nibble nibble_step)

lemma parse_hexs [codec_simps]: "parse_u32_hex_or_dec (hexs v) = v"
proof -
  have "drop_bit 32 v = 0"
    by (rule bit_word_eqI) (auto simp: bit_simps dest: bit_imp_le_length)
  then have "parse_hex_loop 0 (nib v 28 # s) = parse_hex_loop (drop_bit 28 v) s" for s
    using parse_hex_step [of 32 28 v s] by simp
  then show ?thesis
    by (simp add: parse_u32_hex_or_dec_def hexs_nibs parse_hex_step del: parse_hex_loop.simps(2))
qed

lemma length_hexs [simp]: "length (hexs v) = 10"
  by (simp add: hexs_nibs)

lemma hexs_no_newline: "10 \<notin> set (hexs v)" "13 \<notin> set (hexs v)"
proof -
  have "hex_digit n \<noteq> 10 \<and> hex_digit n \<noteq> 13" if "n < 16" for n
    using hex_value_digit [OF that] by (auto simp: hex_value_def)
  then have "nib v k \<noteq> 10 \<and> nib v k \<noteq> 13" for k
    using nibble_less by (simp add: nib_def)
  then show "10 \<notin> set (hexs v)" "13 \<notin> set (hexs v)"
    by (simp_all add: hexs_nibs)
qed

section \<open>Lines of text\<close>

definition text_of :: "(u8 list \<times> u8 list) list \<Rightarrow> u8 list" where
  "text_of kvs = concat (map (\<lambda>(k, v). k @ v @ [10]) kvs)"

definition wrote :: "nat \<Rightarrow> u8 list \<Rightarrow> nat \<times> u8 list \<Rightarrow> bool" where
  "wrote L pre s \<longleftrightarrow> fst s = length pre \<and> length (snd s) = L \<and> take (length pre) (snd s) = pre"

lemma text_of_simps [simp]: "text_of [] = []" "text_of ((k, v) # kvs) = k @ v @ 10 # text_of kvs"
  by (simp_all add: text_of_def)

lemma emit_u32_eq: "emit_u32 key v s = emit key (dec (unat v)) s"
  using fmt_u32_dec [of v] by (simp add: emit_u32_def emit_def write_kv_u32_def split: prod.splits)

lemma emit_hex_eq: "emit_hex key v s = emit key (hexs v) s"
  by (simp add: emit_hex_def emit_def write_kv_u32_hex_def hexs_def)

lemma emit_wrote:
  assumes "wrote L pre s" "length pre + length key + length val + 1 \<le> L"
  shows "wrote L (pre @ key @ val @ [10]) (emit key val s)"
proof -
  obtain buf where s: "s = (length pre, buf)" "length buf = L" "take (length pre) buf = pre"
    using assms(1) by (cases s) (auto simp: wrote_def)
  have b: "copy_at (copy_at buf (length pre) key) (length pre + length key) val
      = pre @ key @ val @ drop (length pre + length key + length val) buf"
    using s assms(2) by (simp add: copy_at_def ac_simps)
  have d: "drop (length pre + length key + length val) buf
      = buf ! (length pre + length key + length val) # drop (length pre + length key + length val + 1) buf"
    using s assms(2) by (simp add: Cons_nth_drop_Suc)
  have "emit key val s = (length pre + length key + length val + 1,
      pre @ key @ val @ 10 # drop (length pre + length key + length val + 1) buf)"
    using s(1,2) assms(2) b d by (simp add: emit_def write_kv_def Let_def list_update_append)
  then show ?thesis
    using s(2) assms(2) by (simp add: wrote_def)
qed

lemma emits_wrote:
  "wrote L pre s \<Longrightarrow> length pre + length (text_of kvs) \<le> L \<Longrightarrow>
   wrote L (pre @ text_of kvs) (foldl (\<lambda>s (k, v). emit k v s) s kvs)"
proof (induction kvs arbitrary: pre s)
  case (Cons kv kvs)
  obtain k v where kv: "kv = (k, v)"
    by (cases kv)
  have "wrote L (pre @ k @ v @ [10]) (emit k v s)"
    using Cons.prems kv by (intro emit_wrote) auto
  then show ?case
    using Cons.IH [of "pre @ k @ v @ [10]"] Cons.prems kv by simp
qed simp

section \<open>The text of the boot metadata\<close>

definition meta_kvs :: "BootMeta \<Rightarrow> (u8 list \<times> u8 list) list" where
  "meta_kvs m =
     [(bytes ''active_slot='', slot_char (active_slot m)), (bytes ''boot_count='', dec (unat (boot_count m))),
      (bytes ''last_good='', slot_char (last_good m)), (bytes ''fw_version_a='', dec (unat (fw_version_a m))),
      (bytes ''fw_version_b='', dec (unat (fw_version_b m))), (bytes ''fw_version_r='', dec (unat (fw_version_r m))),
      (bytes ''image_size_a='', dec (unat (image_size_a m))), (bytes ''image_size_b='', dec (unat (image_size_b m))),
      (bytes ''image_size_r='', dec (unat (image_size_r m))), (bytes ''image_crc_a='', dec (unat (image_crc_a m))),
      (bytes ''image_crc_b='', dec (unat (image_crc_b m))), (bytes ''image_crc_r='', dec (unat (image_crc_r m))),
      (bytes ''min_fw_version='', dec (unat (min_fw_version m)))]"

definition rec_kvs :: "BootMetaRecord \<Rightarrow> (u8 list \<times> u8 list) list" where
  "rec_kvs r = (bytes ''seq='', dec (unat (rec_seq r))) # meta_kvs (rec_meta r)"

definition rec_text :: "BootMetaRecord \<Rightarrow> u8 list" where
  "rec_text r = text_of (rec_kvs r) @ bytes ''crc='' @ hexs (crc32 (text_of (rec_kvs r))) @ [10]"

lemma length_bytes [simp]: "length (bytes s) = length s"
  by (simp add: bytes_def)

lemma length_slot_char [simp]: "length (slot_char x) = 1"
  by (simp add: slot_char_def)

lemma length_meta_text: "length (text_of (meta_kvs m)) \<le> 287"
  using length_dec_u32 [of "boot_count m"] length_dec_u32 [of "fw_version_a m"] length_dec_u32 [of "fw_version_b m"]
    length_dec_u32 [of "fw_version_r m"] length_dec_u32 [of "image_size_a m"] length_dec_u32 [of "image_size_b m"]
    length_dec_u32 [of "image_size_r m"] length_dec_u32 [of "image_crc_a m"] length_dec_u32 [of "image_crc_b m"]
    length_dec_u32 [of "image_crc_r m"] length_dec_u32 [of "min_fw_version m"]
  by (simp add: meta_kvs_def)

lemma serialize_meta_wrote:
  assumes "287 \<le> length buf"
  shows "wrote (length buf) (text_of (meta_kvs m)) (serialize_boot_meta m buf)"
proof -
  have "serialize_boot_meta m buf = foldl (\<lambda>s (k, v). emit k v s) (0, buf) (meta_kvs m)"
    by (simp add: serialize_boot_meta_def meta_kvs_def emit_u32_eq Let_def)
  then show ?thesis
    using emits_wrote [of "length buf" "[]" "(0, buf)" "meta_kvs m"] length_meta_text [of m] assms
    by (simp add: wrote_def)
qed

lemma serialize_record_wrote:
  assumes "317 \<le> length buf"
  shows "wrote (length buf) (rec_text r) (serialize_boot_meta_record r buf)"
proof -
  let ?seq = "bytes ''seq='' @ dec (unat (rec_seq r)) @ [10]"
  obtain buf1 where b1: "emit_u32 (bytes ''seq='') (rec_seq r) (0, buf) = (length ?seq, buf1)"
      "length buf1 = length buf" "take (length ?seq) buf1 = ?seq"
    using emit_wrote [of "length buf" "[]" "(0, buf)" "bytes ''seq=''" "dec (unat (rec_seq r))"]
      length_dec_u32 [of "rec_seq r"] assms
    by (cases "emit (bytes ''seq='') (dec (unat (rec_seq r))) (0, buf)") (auto simp: emit_u32_eq wrote_def)
  let ?n = "length ?seq"
  have n: "?n \<le> 15"
    using length_dec_u32 [of "rec_seq r"] by simp
  obtain rest where r: "serialize_boot_meta (rec_meta r) (drop ?n buf1) = (length (text_of (meta_kvs (rec_meta r))), rest)"
      "length rest = length buf - ?n" "take (length (text_of (meta_kvs (rec_meta r)))) rest = text_of (meta_kvs (rec_meta r))"
    using serialize_meta_wrote [of "drop ?n buf1" "rec_meta r"] n b1(2) assms
    by (cases "serialize_boot_meta (rec_meta r) (drop ?n buf1)") (auto simp: wrote_def)
  let ?s = "(?n + length (text_of (meta_kvs (rec_meta r))), take ?n buf1 @ rest)"
  have t: "text_of (rec_kvs r) = ?seq @ text_of (meta_kvs (rec_meta r))"
    by (simp add: rec_kvs_def)
  have w: "wrote (length buf) (text_of (rec_kvs r)) ?s"
    using b1 r n assms by (simp add: wrote_def t)
  have "serialize_boot_meta_record r buf = emit (bytes ''crc='') (hexs (crc32 (text_of (rec_kvs r)))) ?s"
    using b1 r n assms by (simp add: serialize_boot_meta_record_def emit_hex_eq Let_def t)
  moreover have "length (text_of (rec_kvs r)) \<le> 302"
    using n length_meta_text [of "rec_meta r"] by (simp add: t)
  ultimately show ?thesis
    using emit_wrote [OF w, of "bytes ''crc=''" "hexs (crc32 (text_of (rec_kvs r)))"] assms
    by (simp add: rec_text_def)
qed

section \<open>Reading the text back\<close>

definition line_ok :: "u8 list \<times> u8 list \<Rightarrow> bool" where
  "line_ok kv \<longleftrightarrow> (case kv of (k, v) \<Rightarrow> k \<noteq> [] \<and> last k = 61 \<and> butlast k \<noteq> [] \<and> \<not> is_blank (hd k) \<and> hd k \<noteq> 35
     \<and> hd k \<noteq> 99 \<and> 61 \<notin> set (butlast k) \<and> 10 \<notin> set k \<and> 10 \<notin> set v \<and> 13 \<notin> set v)"

lemma dec_no_newline: "10 \<notin> set (dec n)" "13 \<notin> set (dec n)"
  using dec_digits [of n] by (auto simp: list_all_iff is_digit_def)

lemma slot_char_no_newline: "10 \<notin> set (slot_char x)" "13 \<notin> set (slot_char x)"
  by (simp_all add: slot_char_def bytes_def)

lemma rec_lines_ok: "list_all line_ok (rec_kvs r)"
  by (simp add: rec_kvs_def meta_kvs_def line_ok_def dec_no_newline slot_char_no_newline bytes_def is_blank_def)

lemma parse_loop_newline: "parse_boot_meta_loop (10 # rest) m = parse_boot_meta_loop rest m"
  by (subst (1 2) parse_boot_meta_loop.simps) (simp add: is_blank_def)

lemma parse_loop_line:
  assumes "line_ok (k, v)"
  shows "parse_boot_meta_loop (k @ v @ 10 # rest) m = parse_boot_meta_loop rest (boot_meta_field (butlast k) v m)"
proof -
  obtain c cs where k: "butlast k = c # cs" "k = (c # cs) @ [61]"
    using assms append_butlast_last_id [of k] by (cases "butlast k") (auto simp: line_ok_def)
  have c: "\<not> is_blank c" "c \<noteq> 35" "\<forall>b\<in>set (c # cs). b \<noteq> 61 \<and> b \<noteq> 10" "\<forall>b\<in>set v. b \<noteq> 10 \<and> b \<noteq> 13"
    using assms k by (auto simp: line_ok_def)
  have key: "dropWhile (\<lambda>b. b \<noteq> 61 \<and> b \<noteq> 10) (c # cs @ 61 # v @ 10 # rest) = 61 # v @ 10 # rest"
      "takeWhile (\<lambda>b. b \<noteq> 61 \<and> b \<noteq> 10) (c # cs @ 61 # v @ 10 # rest) = c # cs"
    using c(3) dropWhile_append2 [of "c # cs" "\<lambda>b. b \<noteq> 61 \<and> b \<noteq> 10" "61 # v @ 10 # rest"]
      takeWhile_append2 [of "c # cs" "\<lambda>b. b \<noteq> 61 \<and> b \<noteq> 10" "61 # v @ 10 # rest"] by simp_all
  have val: "dropWhile (\<lambda>b. b \<noteq> 10 \<and> b \<noteq> 13) (v @ 10 # rest) = 10 # rest"
      "takeWhile (\<lambda>b. b \<noteq> 10 \<and> b \<noteq> 13) (v @ 10 # rest) = v"
    using c(4) by (simp_all add: dropWhile_append2 takeWhile_append2)
  show ?thesis
    using c(1,2) key val
    by (subst parse_boot_meta_loop.simps) (simp add: k parse_loop_newline del: dropWhile.simps(2) takeWhile.simps(2)
        add: dropWhile.simps(2) [of is_blank])
qed

lemma parse_loop_text:
  "list_all line_ok kvs \<Longrightarrow>
   parse_boot_meta_loop (text_of kvs) m = foldl (\<lambda>m (k, v). boot_meta_field (butlast k) v m) m kvs"
proof (induction kvs arbitrary: m)
  case Nil
  then show ?case
    by (subst parse_boot_meta_loop.simps) simp
next
  case (Cons kv kvs)
  then show ?case
    by (cases kv) (simp add: parse_loop_line)
qed

definition slots_ok :: "BootMeta \<Rightarrow> bool" where
  "slots_ok m \<longleftrightarrow> active_slot m \<in> {SLOT_A, SLOT_B, SLOT_R} \<and> last_good m \<in> {SLOT_A, SLOT_B, SLOT_R}"

lemma parse_slot_char_slot: "x \<in> {SLOT_A, SLOT_B, SLOT_R} \<Longrightarrow> parse_slot_char (slot_char x) = x"
  by (auto simp: parse_slot_char_def slot_char_def SLOT_A_def SLOT_B_def SLOT_R_def bytes_def)

lemma butlast_bytes: "butlast (bytes s) = bytes (butlast s)"
  by (simp add: bytes_def map_butlast)

lemma bytes_eq_iff: "bytes s = bytes t \<longleftrightarrow> s = t"
proof -
  have u: "unat (of_char c :: u8) = of_char c" for c
  proof -
    have "unat (of_nat (of_char c) :: u8) = of_char c mod 256"
      by (simp add: unat_of_nat)
    then show ?thesis
      using nat_of_char_less_256 [of c] by (simp only: of_nat_of_char mod_less)
  qed
  have "inj (of_char :: char \<Rightarrow> u8)"
  proof (rule injI)
    fix c d
    assume "(of_char c :: u8) = of_char d"
    then have "unat (of_char c :: u8) = unat (of_char d :: u8)"
      by (rule arg_cong)
    then show "c = d"
      unfolding u by simp
  qed
  then show ?thesis
    by (simp add: bytes_def inj_map_eq_map)
qed

lemma parse_meta_text:
  assumes "slots_ok (rec_meta r)"
  shows "parse_boot_meta (text_of (rec_kvs r)) = rec_meta r"
proof -
  have "foldl (\<lambda>m (k, v). boot_meta_field (butlast k) v m) m (meta_kvs (rec_meta r)) = rec_meta r" for m
    using assms
    by (simp add: meta_kvs_def slots_ok_def butlast_bytes boot_meta_field_def bytes_eq_iff codec_simps
        parse_slot_char_slot)
  then show ?thesis
    unfolding parse_boot_meta_def parse_loop_text [OF rec_lines_ok] by (simp add: rec_kvs_def)
qed

section \<open>Finding the framing lines\<close>

lemma find_upt_Some:
  "find P [0..<n] = Some i \<longleftrightarrow> i < n \<and> P i \<and> (\<forall>j<i. \<not> P j)"
  by (auto simp: find_Some_iff)

lemma find_upt_None: "find P [0..<n] = None \<longleftrightarrow> (\<forall>j<n. \<not> P j)"
  by (auto simp: find_None_iff)

lemma takeWhile_field:
  "10 \<notin> set v \<Longrightarrow> 13 \<notin> set v \<Longrightarrow> takeWhile (\<lambda>b. b \<noteq> 10 \<and> b \<noteq> 13) (v @ 10 # rest) = v" for v :: "u8 list"
  by (induction v) auto

lemma no_crc_line:
  "list_all line_ok kvs \<Longrightarrow> i < length (text_of kvs) \<Longrightarrow> \<not> line_match (bytes ''crc='') (text_of kvs @ rest) i"
proof (induction kvs arbitrary: i)
  case (Cons kv kvs)
  obtain k v where kv: "kv = (k, v)" "line_ok (k, v)"
    using Cons.prems(1) by (cases kv) auto
  let ?l = "k @ v @ [10]"
  let ?d = "?l @ text_of kvs @ rest"
  have k: "k \<noteq> []" "hd k \<noteq> 99" "10 \<notin> set (k @ v)"
    using kv(2) by (auto simp: line_ok_def)
  have first: "\<not> line_match (bytes ''crc='') ?d 0"
    using k by (cases k) (simp_all add: line_match_def bytes_def)
  have inside: "\<not> line_match (bytes ''crc='') ?d i" if "0 < i" "i < length ?l"
  proof -
    have "?d ! (i - 1) = (k @ v) ! (i - 1)"
      using that by (auto simp: nth_append)
    moreover have "(k @ v) ! (i - 1) \<in> set (k @ v)"
      using that by (intro nth_mem) simp
    ultimately have "?d ! (i - 1) \<noteq> 10"
      using k(3) by metis
    then show ?thesis
      using that(1) unfolding line_match_def by blast
  qed
  have behind: "\<not> line_match (bytes ''crc='') ?d i" if l: "length ?l \<le> i"
  proof -
    obtain j where j: "i = length ?l + j" "j < length (text_of kvs)"
      using le_Suc_ex [OF l] Cons.prems(2) kv by auto
    have "drop i ?d = drop j (text_of kvs @ rest)"
      unfolding j(1) by (simp add: add.commute [of _ j] drop_drop [symmetric] del: drop_drop append_assoc)
    moreover have "?d ! (i - 1) = (if j = 0 then 10 else (text_of kvs @ rest) ! (j - 1))"
      unfolding j(1) by (auto simp: nth_append)
    ultimately show ?thesis
      using Cons.IH [OF _ j(2)] Cons.prems(1) j(1) by (auto simp: line_match_def)
  qed
  show ?case
    using first inside behind kv by (cases "i = 0"; cases "i < length ?l") auto
qed simp

lemma find_crc_take:
  "find_crc_line_start (take k data) =
     (case find_crc_line_start data of None \<Rightarrow> None | Some i \<Rightarrow> if i + 4 \<le> k then Some i else None)"
proof -
  have m: "line_match (bytes ''crc='') (take k data) i \<longleftrightarrow> line_match (bytes ''crc='') data i \<and> i + 4 \<le> k" for i
    by (auto simp: line_match_def take_drop min_def)
  show ?thesis
  proof (cases "find_crc_line_start data")
    case None
    then have "find_crc_line_start (take k data) = None"
      by (simp add: find_crc_line_start_def find_upt_None m)
    then show ?thesis
      using None by simp
  next
    case (Some i)
    then have i: "i < length data" "line_match (bytes ''crc='') data i" "\<forall>j<i. \<not> line_match (bytes ''crc='') data j"
      by (simp_all add: find_crc_line_start_def find_upt_Some)
    show ?thesis
    proof (cases "i + 4 \<le> k")
      case True
      then have "find_crc_line_start (take k data) = Some i"
        using i by (simp add: find_crc_line_start_def find_upt_Some m)
      then show ?thesis
        using True Some by simp
    next
      case False
      then have "\<not> line_match (bytes ''crc='') (take k data) j" for j
        using i(3) by (cases "j < i") (auto simp: m)
      then have "find_crc_line_start (take k data) = None"
        by (simp add: find_crc_line_start_def find_upt_None)
      then show ?thesis
        using False Some by simp
    qed
  qed
qed

lemma rec_text_crc_start: "find_crc_line_start (rec_text r) = Some (length (text_of (rec_kvs r)))"
proof -
  let ?t = "text_of (rec_kvs r)"
  have "?t \<noteq> []" "last ?t = 10"
    by (simp_all add: rec_kvs_def meta_kvs_def)
  then have "?t ! (length ?t - 1) = 10"
    by (simp add: last_conv_nth)
  then have "line_match (bytes ''crc='') (rec_text r) (length ?t)"
    using \<open>?t \<noteq> []\<close> by (simp add: line_match_def rec_text_def nth_append)
  then show ?thesis
    using no_crc_line [OF rec_lines_ok] unfolding find_crc_line_start_def find_upt_Some
    by (simp add: rec_text_def)
qed

lemma parse_seq_text: "parse_seq_line (text_of (rec_kvs r)) = rec_seq r"
proof -
  let ?t = "text_of (rec_kvs r)"
  have t: "?t = bytes ''seq='' @ dec (unat (rec_seq r)) @ 10 # text_of (meta_kvs (rec_meta r))"
    by (simp add: rec_kvs_def)
  have "find (line_match (bytes ''seq='') ?t) [0..<length ?t] = Some 0"
    unfolding find_upt_Some by (simp add: line_match_def t)
  moreover have "field_at ?t (length (bytes ''seq='')) = dec (unat (rec_seq r))"
    using dec_no_newline [of "unat (rec_seq r)"] by (simp add: field_at_def t takeWhile_field)
  ultimately show ?thesis
    by (simp add: parse_seq_line_def codec_simps)
qed

lemma parse_record_take:
  assumes "slots_ok (rec_meta r)"
  shows "parse_boot_meta_record (take k (rec_text r)) \<in> {None, Some r}"
    and "length (rec_text r) \<le> k \<Longrightarrow> parse_boot_meta_record (take k (rec_text r)) = Some r"
proof -
  let ?t = "text_of (rec_kvs r)"
  have f: "find_crc_line_start (take k (rec_text r)) = (if length ?t + 4 \<le> k then Some (length ?t) else None)"
    by (simp add: find_crc_take rec_text_crc_start)
  have p: "take (length ?t) (take k (rec_text r)) = ?t" if "length ?t + 4 \<le> k"
    using that by (simp add: rec_text_def min_def)
  have r: "\<lparr>rec_meta = parse_boot_meta ?t, rec_seq = parse_seq_line ?t\<rparr> = r"
    by (simp add: parse_meta_text [OF assms] parse_seq_text)
  show "parse_boot_meta_record (take k (rec_text r)) \<in> {None, Some r}"
    using f p r by (auto simp: parse_boot_meta_record_def Let_def simp del: take_take)
  show "parse_boot_meta_record (take k (rec_text r)) = Some r" if k: "length (rec_text r) \<le> k"
  proof -
    have "length ?t + 4 \<le> k"
      using k by (simp add: rec_text_def)
    moreover have "field_at (rec_text r) (length ?t + length (bytes ''crc='')) = hexs (crc32 ?t)"
      using hexs_no_newline [of "crc32 ?t"] by (simp add: field_at_def rec_text_def takeWhile_field)
    ultimately show ?thesis
      using f p r k by (simp add: parse_boot_meta_record_def Let_def codec_simps)
  qed
qed



end
