(* ===== verification/Ota_Boot.thy ===== *)
theory Ota_Boot
  imports Ota_Roundtrip
begin

text \<open>
  The boot decision (\<open>crates/ota/src/pure.rs\<close>, \<open>crates/ota/src/lib.rs\<close> and the boot sequence of
  \<open>kernel/src/main.rs\<close>): the boot-attempt counter with its rollback, the two metadata files of
  which the newer valid one counts, the plain file for the boot loader, the verification of a
  slot by size and checksum, the steering of the next boot away from a corrupt slot, and the
  decision to enter recovery mode (\<open>crates/ota/src/recovery.rs\<close>).

  The FAT volume is a map from paths to contents.  What becomes of a file that is truncated and
  written again is an argument of the operation: the open may fail, the file may be lost (closing it
  frees the old chain and removes the directory entry before it writes the new ones), or only the
  first bytes may reach the disk.  Console output is not modelled.
\<close>

type_synonym path = "u8 list"
type_synonym disk = "path \<Rightarrow> u8 list option"

datatype write_fate = OpenFails | Vanishes | Lands nat

definition vfs_replace :: "disk \<Rightarrow> path \<Rightarrow> u8 list \<Rightarrow> write_fate \<Rightarrow> disk" where
  "vfs_replace d p content fate = (case fate of OpenFails \<Rightarrow> d | Vanishes \<Rightarrow> d(p := None) | Lands k \<Rightarrow> d(p \<mapsto> take k content))"

definition OTA_META_PATH_A :: path where "OTA_META_PATH_A = bytes ''/fat/BOOTMETA.A''"
definition OTA_META_PATH_B :: path where "OTA_META_PATH_B = bytes ''/fat/BOOTMETA.B''"
definition OTA_META_PATH :: path where "OTA_META_PATH = bytes ''/fat/BOOTMETA''"
definition OTA_SLOT_A_PATH :: path where "OTA_SLOT_A_PATH = bytes ''/fat/KERN_A.BIN''"
definition OTA_SLOT_B_PATH :: path where "OTA_SLOT_B_PATH = bytes ''/fat/KERN_B.BIN''"
definition OTA_SLOT_R_PATH :: path where "OTA_SLOT_R_PATH = bytes ''/fat/KERN_R.BIN''"
definition OTA_SLOT_A_TMP_PATH :: path where "OTA_SLOT_A_TMP_PATH = bytes ''/fat/KERN_A.TMP''"
definition OTA_SLOT_B_TMP_PATH :: path where "OTA_SLOT_B_TMP_PATH = bytes ''/fat/KERN_B.TMP''"
definition OTA_META_RECORD_MAX_BYTES :: nat where "OTA_META_RECORD_MAX_BYTES = 512"
definition OTA_RECV_BUF_SIZE :: nat where "OTA_RECV_BUF_SIZE = 4096"
definition OTA_DEFAULT_MAX_BOOT_ATTEMPTS :: u32 where "OTA_DEFAULT_MAX_BOOT_ATTEMPTS = 3"

section \<open>The counter and the floor\<close>

datatype BootValidateOutcome = Normal | RolledBack

definition ota_boot_validate_pure :: "BootMeta \<Rightarrow> u32 \<Rightarrow> BootValidateOutcome \<times> BootMeta" where
  "ota_boot_validate_pure m max_attempts =
     (let m = m\<lparr>boot_count := saturating_add (boot_count m) 1\<rparr> in
      if boot_count m > max_attempts then (RolledBack, m\<lparr>active_slot := last_good m, boot_count := 1\<rparr>)
      else (Normal, m))"

definition ota_mark_boot_good_pure :: "BootMeta \<Rightarrow> BootMeta" where
  "ota_mark_boot_good_pure m =
     (let m = m\<lparr>boot_count := 0, last_good := active_slot m\<rparr>;
          active_ver = slot_version m (active_slot m)
      in if active_ver > min_fw_version m then m\<lparr>min_fw_version := active_ver\<rparr> else m)"

definition ota_check_rollback_pure :: "u32 \<Rightarrow> u32 \<Rightarrow> bool" where
  "ota_check_rollback_pure incoming_version min_version \<longleftrightarrow> incoming_version \<ge> min_version"

section \<open>The two records\<close>

definition ota_pick_boot_meta_record ::
  "BootMetaRecord option \<Rightarrow> BootMetaRecord option \<Rightarrow> BootMetaRecord option" where
  "ota_pick_boot_meta_record a b =
     (case (a, b) of
        (Some ra, Some rb) \<Rightarrow> if rec_seq rb > rec_seq ra then Some rb else Some ra
      | (Some r, None) \<Rightarrow> Some r
      | (None, Some r) \<Rightarrow> Some r
      | (None, None) \<Rightarrow> None)"

definition ota_pick_meta_write_slot :: "BootMetaRecord option \<Rightarrow> BootMetaRecord option \<Rightarrow> u8" where
  "ota_pick_meta_write_slot a b =
     (case (a, b) of
        (None, _) \<Rightarrow> SLOT_A
      | (_, None) \<Rightarrow> SLOT_B
      | (Some ra, Some rb) \<Rightarrow> if rec_seq ra \<le> rec_seq rb then SLOT_A else SLOT_B)"

definition ota_next_seq :: "BootMetaRecord option \<Rightarrow> u32" where
  "ota_next_seq current = (case current of None \<Rightarrow> 1 | Some r \<Rightarrow> saturating_add (rec_seq r) 1)"

definition fs_read_meta_record :: "disk \<Rightarrow> path \<Rightarrow> BootMetaRecord option" where
  "fs_read_meta_record d p =
     (case d p of
        None \<Rightarrow> None
      | Some content \<Rightarrow>
          (let buf = take OTA_META_RECORD_MAX_BYTES content in
           if buf = [] then None else parse_boot_meta_record buf))"

definition fs_write_meta_record :: "disk \<Rightarrow> path \<Rightarrow> BootMetaRecord \<Rightarrow> write_fate \<Rightarrow> disk" where
  "fs_write_meta_record d p r fate =
     (let (n, buf) = serialize_boot_meta_record r (replicate OTA_META_RECORD_MAX_BYTES 0)
      in vfs_replace d p (take n buf) fate)"

definition fs_write_plain_boot_meta :: "disk \<Rightarrow> BootMeta \<Rightarrow> write_fate \<Rightarrow> disk" where
  "fs_write_plain_boot_meta d m fate =
     (let (n, buf) = serialize_boot_meta m (replicate OTA_META_RECORD_MAX_BYTES 0)
      in vfs_replace d OTA_META_PATH (take n buf) fate)"

definition ota_read_boot_meta_records :: "disk \<Rightarrow> BootMetaRecord option \<times> BootMetaRecord option" where
  "ota_read_boot_meta_records d = (fs_read_meta_record d OTA_META_PATH_A, fs_read_meta_record d OTA_META_PATH_B)"

definition ota_read_boot_meta :: "disk \<Rightarrow> BootMeta" where
  "ota_read_boot_meta d =
     (let (rec_a, rec_b) = ota_read_boot_meta_records d in
      case ota_pick_boot_meta_record rec_a rec_b of
        Some picked \<Rightarrow> rec_meta picked
      | None \<Rightarrow>
          (case d OTA_META_PATH of
             None \<Rightarrow> boot_meta_default
           | Some content \<Rightarrow>
               (let buf = take OTA_META_RECORD_MAX_BYTES content in
                if buf = [] then boot_meta_default else parse_boot_meta buf)))"

definition ota_write_boot_meta :: "disk \<Rightarrow> BootMeta \<Rightarrow> write_fate \<times> write_fate \<Rightarrow> disk" where
  "ota_write_boot_meta d m fates =
     (let (rec_a, rec_b) = ota_read_boot_meta_records d;
          current_best = ota_pick_boot_meta_record rec_a rec_b;
          next_seq = ota_next_seq current_best;
          target_slot = ota_pick_meta_write_slot rec_a rec_b;
          target_path = (if target_slot = SLOT_A then OTA_META_PATH_A else OTA_META_PATH_B);
          d = fs_write_meta_record d target_path \<lparr>rec_meta = m, rec_seq = next_seq\<rparr> (fst fates)
      in fs_write_plain_boot_meta d m (snd fates))"

section \<open>Boot\<close>

record OtaState =
  ota_disk :: disk
  cfg_active_slot :: u32
  cfg_boot_count :: u32
  cfg_max_boot_attempts :: u32

definition ota_inactive_slot :: "OtaState \<Rightarrow> u8" where
  "ota_inactive_slot st = ota_inactive_slot_pure (ucast (cfg_active_slot st))"

definition ota_slot_path :: "u8 \<Rightarrow> path" where
  "ota_slot_path slot =
     (if slot = SLOT_A then OTA_SLOT_A_PATH else if slot = SLOT_B then OTA_SLOT_B_PATH
      else if slot = SLOT_R then OTA_SLOT_R_PATH else OTA_SLOT_A_PATH)"

definition ota_apply_meta :: "OtaState \<Rightarrow> BootMeta \<Rightarrow> OtaState" where
  "ota_apply_meta st m = st\<lparr>cfg_active_slot := ucast (active_slot m), cfg_boot_count := boot_count m\<rparr>"

definition ota_mark_boot_good :: "OtaState \<Rightarrow> write_fate \<times> write_fate \<Rightarrow> OtaState" where
  "ota_mark_boot_good st fates =
     (let m = ota_mark_boot_good_pure (ota_read_boot_meta (ota_disk st))
      in st\<lparr>ota_disk := ota_write_boot_meta (ota_disk st) m fates, cfg_boot_count := 0\<rparr>)"

fun chunks_of :: "nat \<Rightarrow> 'a list \<Rightarrow> 'a list list" where
  "chunks_of n [] = []"
| "chunks_of n (x # xs) = take (max 1 n) (x # xs) # chunks_of n (drop (max 1 n) (x # xs))"

definition ota_verify_slot :: "disk \<Rightarrow> u8 \<Rightarrow> bool" where
  "ota_verify_slot d slot =
     (let m = ota_read_boot_meta d;
          expected_crc = slot_crc m slot;
          expected_size = slot_size m slot
      in if expected_size = 0 then False
         else case d (ota_slot_path slot) of
             None \<Rightarrow> False
           | Some content \<Rightarrow>
               (let (crc_state, total_read) =
                      foldl (\<lambda>(s, t) chunk. (crc_update s chunk, t + length chunk)) (crc_new, 0)
                        (chunks_of OTA_RECV_BUF_SIZE content)
                in if total_read \<noteq> unat expected_size then False else crc_finalize crc_state = expected_crc))"

definition ota_slot_info :: "disk \<Rightarrow> u8 \<Rightarrow> u32 \<times> u32 \<times> u32" where
  "ota_slot_info d slot =
     (let m = ota_read_boot_meta d in (slot_version m slot, slot_size m slot, slot_crc m slot))"

definition ota_boot_validate :: "OtaState \<Rightarrow> write_fate \<times> write_fate \<Rightarrow> BootMeta \<times> OtaState" where
  "ota_boot_validate st fates =
     (let (outcome, m) = ota_boot_validate_pure (ota_read_boot_meta (ota_disk st)) (cfg_max_boot_attempts st);
          st = st\<lparr>ota_disk := ota_write_boot_meta (ota_disk st) m fates\<rparr>
      in (m, ota_apply_meta st m))"

text \<open>The update part of \<open>kernel_main\<close>: validation, then the check of the active slot.\<close>

definition kernel_boot_ota ::
  "OtaState \<Rightarrow> write_fate \<times> write_fate \<Rightarrow> write_fate \<times> write_fate \<Rightarrow> BootMeta \<times> OtaState" where
  "kernel_boot_ota st f1 f2 =
     (let (m, st) = ota_boot_validate st f1;
          active = active_slot m
      in if slot_size m active > 0 \<and> \<not> ota_verify_slot (ota_disk st) active
         then (let lg = last_good m in
               if lg \<noteq> active \<and> ota_verify_slot (ota_disk st) lg
               then (let m' = m\<lparr>active_slot := lg\<rparr>;
                         st = st\<lparr>ota_disk := ota_write_boot_meta (ota_disk st) m' f2\<rparr>
                     in (m, ota_apply_meta st m'))
               else if ota_verify_slot (ota_disk st) SLOT_R
               then (let m' = m\<lparr>active_slot := SLOT_R\<rparr>;
                         st = st\<lparr>ota_disk := ota_write_boot_meta (ota_disk st) m' f2\<rparr>
                     in (m, ota_apply_meta st m'))
               else (m, st))
         else (m, st))"

section \<open>The recovery decision\<close>

definition RECOVERY_BOOT_LOOP_THRESHOLD :: u32 where "RECOVERY_BOOT_LOOP_THRESHOLD = 3"
definition RECOVERY_FORCE_FLAG :: u32 where "RECOVERY_FORCE_FLAG = 0xDEF0DF02"

record RecoveryInputs =
  crash_count :: u32
  recovery_button_held :: "bool option"
  bootmeta_user_flag :: "u32 option"

datatype RecoveryReason = NotArmed | BootLoop u32 | ButtonHeld | UserRequested

definition should_enter :: "RecoveryReason \<Rightarrow> bool" where
  "should_enter r = (case r of NotArmed \<Rightarrow> False | _ \<Rightarrow> True)"

definition recovery_mode_should_enter :: "RecoveryInputs \<Rightarrow> RecoveryReason" where
  "recovery_mode_should_enter inputs =
     (if bootmeta_user_flag inputs = Some RECOVERY_FORCE_FLAG then UserRequested
      else if crash_count inputs \<ge> RECOVERY_BOOT_LOOP_THRESHOLD then BootLoop (crash_count inputs)
      else if recovery_button_held inputs = Some True then ButtonHeld
      else NotArmed)"

lemma recovery_entered_iff:
  "should_enter (recovery_mode_should_enter inputs) \<longleftrightarrow>
     bootmeta_user_flag inputs = Some 0xDEF0DF02 \<or> 3 \<le> crash_count inputs \<or> recovery_button_held inputs = Some True"
  by (simp add: should_enter_def recovery_mode_should_enter_def RECOVERY_BOOT_LOOP_THRESHOLD_def RECOVERY_FORCE_FLAG_def)

section \<open>Rollback by hand\<close>

definition cmd_ota_rollback :: "OtaState \<Rightarrow> write_fate \<times> write_fate \<Rightarrow> OtaState" where
  "cmd_ota_rollback st fates =
     (let m = ota_read_boot_meta (ota_disk st) in
      if active_slot m = last_good m then st
      else let m = m\<lparr>active_slot := last_good m, boot_count := 0\<rparr>;
               st = st\<lparr>ota_disk := ota_write_boot_meta (ota_disk st) m fates\<rparr>
           in ota_apply_meta st m)"

section \<open>Slot verification is checksum and size of the whole file\<close>

lemma concat_chunks_of: "concat (chunks_of n xs) = xs"
  by (induction n xs rule: chunks_of.induct) simp_all

lemma foldl_crc_total:
  "foldl (\<lambda>(s, t) chunk. (crc_update s chunk, t + length chunk)) (s, t) cs
     = (foldl crc_update s cs, t + length (concat cs))"
  by (induction cs arbitrary: s t) (simp_all add: crc_update_def)

lemma ota_verify_slot_iff:
  "ota_verify_slot d slot \<longleftrightarrow>
     (\<exists>content. d (ota_slot_path slot) = Some content \<and> content \<noteq> []
        \<and> length content = unat (slot_size (ota_read_boot_meta d) slot)
        \<and> crc32 content = slot_crc (ota_read_boot_meta d) slot)"
  by (auto simp: ota_verify_slot_def Let_def foldl_crc_total concat_chunks_of crc_streaming
      unat_eq_0 split: option.splits)

section \<open>Atomic replacement of the metadata\<close>

lemma meta_paths [simp]:
  "OTA_META_PATH_A \<noteq> OTA_META_PATH_B" "OTA_META_PATH_B \<noteq> OTA_META_PATH_A"
  "OTA_META_PATH \<noteq> OTA_META_PATH_A" "OTA_META_PATH_A \<noteq> OTA_META_PATH"
  "OTA_META_PATH \<noteq> OTA_META_PATH_B" "OTA_META_PATH_B \<noteq> OTA_META_PATH"
  by (simp_all add: OTA_META_PATH_A_def OTA_META_PATH_B_def OTA_META_PATH_def bytes_eq_iff)

lemma fs_write_plain_other: "p \<noteq> OTA_META_PATH \<Longrightarrow> fs_write_plain_boot_meta d m f p = d p"
  by (auto simp: fs_write_plain_boot_meta_def vfs_replace_def split: prod.splits write_fate.splits)

lemma fs_write_meta_other: "p \<noteq> q \<Longrightarrow> fs_write_meta_record d q r f p = d p"
  by (auto simp: fs_write_meta_record_def vfs_replace_def split: prod.splits write_fate.splits)

lemma length_rec_text: "length (rec_text r) \<le> 317"
  using length_meta_text [of "rec_meta r"] length_dec_u32 [of "rec_seq r"] by (simp add: rec_text_def rec_kvs_def)

lemma fs_write_meta_eq:
  "fs_write_meta_record d p r f =
     (case f of OpenFails \<Rightarrow> d | Vanishes \<Rightarrow> d(p := None) | Lands k \<Rightarrow> d(p \<mapsto> take k (rec_text r)))"
proof -
  obtain out where "serialize_boot_meta_record r (replicate 512 0) = (length (rec_text r), out)"
      "take (length (rec_text r)) out = rec_text r"
    using serialize_record_wrote [of "replicate 512 0" r]
    by (cases "serialize_boot_meta_record r (replicate 512 0)") (auto simp: wrote_def)
  then show ?thesis
    by (simp add: fs_write_meta_record_def OTA_META_RECORD_MAX_BYTES_def vfs_replace_def split: write_fate.splits)
qed

text \<open>A write reaches the disk completely when every byte of the record lands.\<close>

definition complete :: "write_fate \<Rightarrow> bool" where
  "complete f \<longleftrightarrow> (case f of OpenFails \<Rightarrow> False | Vanishes \<Rightarrow> False | Lands k \<Rightarrow> 317 \<le> k)"

lemma fs_read_after_write:
  assumes "slots_ok (rec_meta r)"
  shows "f \<noteq> OpenFails \<Longrightarrow> fs_read_meta_record (fs_write_meta_record d p r f) p \<in> {None, Some r}"
    and "complete f \<Longrightarrow> fs_read_meta_record (fs_write_meta_record d p r f) p = Some r"
    and "fs_read_meta_record (fs_write_meta_record d p r OpenFails) p = fs_read_meta_record d p"
proof -
  have t: "fs_read_meta_record (fs_write_meta_record d p r (Lands k)) p =
      (if take k (rec_text r) = [] then None else parse_boot_meta_record (take k (rec_text r)))" for k
    using length_rec_text [of r]
    by (simp add: fs_read_meta_record_def fs_write_meta_eq OTA_META_RECORD_MAX_BYTES_def Let_def min_def)
  have v: "fs_read_meta_record (fs_write_meta_record d p r Vanishes) p = None"
    by (simp add: fs_read_meta_record_def fs_write_meta_eq)
  show "f \<noteq> OpenFails \<Longrightarrow> fs_read_meta_record (fs_write_meta_record d p r f) p \<in> {None, Some r}"
    using parse_record_take(1) [OF assms] v by (cases f) (auto simp: t)
  show "complete f \<Longrightarrow> fs_read_meta_record (fs_write_meta_record d p r f) p = Some r"
    using parse_record_take(2) [OF assms] length_rec_text [of r]
    by (cases f) (auto simp: t complete_def rec_text_def)
  show "fs_read_meta_record (fs_write_meta_record d p r OpenFails) p = fs_read_meta_record d p"
    by (simp add: fs_write_meta_eq)
qed

text \<open>
  The metadata files are in order when at least one record is valid and two valid records have
  different sequence numbers.
\<close>

definition best_record :: "disk \<Rightarrow> BootMetaRecord option" where
  "best_record d = ota_pick_boot_meta_record (fs_read_meta_record d OTA_META_PATH_A) (fs_read_meta_record d OTA_META_PATH_B)"

definition meta_ok :: "disk \<Rightarrow> bool" where
  "meta_ok d \<longleftrightarrow> best_record d \<noteq> None
     \<and> (\<forall>a b. fs_read_meta_record d OTA_META_PATH_A = Some a \<longrightarrow> fs_read_meta_record d OTA_META_PATH_B = Some b
          \<longrightarrow> rec_seq a \<noteq> rec_seq b)"

definition best_seq :: "disk \<Rightarrow> nat" where
  "best_seq d = (case best_record d of None \<Rightarrow> 0 | Some r \<Rightarrow> unat (rec_seq r))"

lemma read_best: "best_record d = Some r \<Longrightarrow> ota_read_boot_meta d = rec_meta r"
  by (simp add: ota_read_boot_meta_def best_record_def ota_read_boot_meta_records_def)

lemma write_boot_meta_eq:
  assumes "best_record d = Some r"
  shows "ota_write_boot_meta d m fates =
     fs_write_plain_boot_meta
       (fs_write_meta_record d
          (if ota_pick_meta_write_slot (fs_read_meta_record d OTA_META_PATH_A) (fs_read_meta_record d OTA_META_PATH_B) = SLOT_A
           then OTA_META_PATH_A else OTA_META_PATH_B)
          \<lparr>rec_meta = m, rec_seq = saturating_add (rec_seq r) 1\<rparr> (fst fates)) m (snd fates)"
  using assms by (simp add: ota_write_boot_meta_def ota_read_boot_meta_records_def Let_def ota_next_seq_def flip: best_record_def)

lemma fs_read_plain [simp]:
  "p \<noteq> OTA_META_PATH \<Longrightarrow> fs_read_meta_record (fs_write_plain_boot_meta d m f) p = fs_read_meta_record d p"
  by (simp add: fs_read_meta_record_def fs_write_plain_other)

lemma fs_read_other [simp]:
  "p \<noteq> q \<Longrightarrow> fs_read_meta_record (fs_write_meta_record d q r f) p = fs_read_meta_record d p"
  by (simp add: fs_read_meta_record_def fs_write_meta_other)

lemma pick_newer:
  assumes "x \<in> {old, None, Some new}" "\<forall>y. old = Some y \<longrightarrow> rec_seq y < rec_seq r" "rec_seq r < rec_seq new"
  shows "ota_pick_boot_meta_record x (Some r) = (if x = Some new then Some new else Some r)"
    and "ota_pick_boot_meta_record (Some r) x = (if x = Some new then Some new else Some r)"
    and "x = Some a \<Longrightarrow> rec_seq a \<noteq> rec_seq r"
  using assms by (cases x; force simp: ota_pick_boot_meta_record_def)+

text \<open>The outcome of one write: the record in the target file is the old one, none or the new one.\<close>

lemma write_cases:
  assumes "meta_ok d" "slots_ok m" "best_record d = Some r" "rec_seq r \<noteq> - 1"
  defines "new \<equiv> \<lparr>rec_meta = m, rec_seq = rec_seq r + 1\<rparr>"
  shows "best_record (ota_write_boot_meta d m fates) \<in> {Some r, Some new}
    \<and> (complete (fst fates) \<longrightarrow> best_record (ota_write_boot_meta d m fates) = Some new)
    \<and> meta_ok (ota_write_boot_meta d m fates)"
proof -
  have sat: "saturating_add (rec_seq r) 1 = rec_seq r + 1" "rec_seq r < rec_seq r + 1"
  proof -
    have "unat (rec_seq r) + 1 < 2 ^ 32"
      using unat_u32_not_max [OF assms(4)] by simp
    then show "saturating_add (rec_seq r) 1 = rec_seq r + 1" "rec_seq r < rec_seq r + 1"
      by (simp_all add: saturating_add_def word_less_nat_alt unat_word_ariths)
  qed
  have so: "slots_ok (rec_meta new)"
    using assms(2) by (simp add: new_def)
  let ?a = "fs_read_meta_record d OTA_META_PATH_A"
  let ?b = "fs_read_meta_record d OTA_META_PATH_B"
  have new_seq: "rec_seq new = rec_seq r + 1"
    by (simp add: new_def)
  have pn: "ota_pick_boot_meta_record (Some new) (Some r) = Some new" "ota_pick_boot_meta_record (Some r) (Some new) = Some new"
    using sat(2) by (auto simp: ota_pick_boot_meta_record_def new_seq)
  have target: "fs_read_meta_record (fs_write_meta_record d p new (fst fates)) p
      \<in> {fs_read_meta_record d p, None, Some new}"
    "complete (fst fates) \<Longrightarrow> fs_read_meta_record (fs_write_meta_record d p new (fst fates)) p = Some new" for p
  proof -
    show "fs_read_meta_record (fs_write_meta_record d p new (fst fates)) p \<in> {fs_read_meta_record d p, None, Some new}"
    proof (cases "fst fates = OpenFails")
      case True
      then show ?thesis
        by (simp add: fs_read_after_write(3) [OF so])
    next
      case False
      then show ?thesis
        using fs_read_after_write(1) [OF so False, of d p] by simp
    qed
    show "complete (fst fates) \<Longrightarrow> fs_read_meta_record (fs_write_meta_record d p new (fst fates)) p = Some new"
      by (rule fs_read_after_write(2) [OF so])
  qed
  consider (A) "?b = Some r" "ota_pick_meta_write_slot ?a ?b = SLOT_A" "\<forall>x. ?a = Some x \<longrightarrow> rec_seq x < rec_seq r"
    | (B) "?a = Some r" "ota_pick_meta_write_slot ?a ?b = SLOT_B" "\<forall>x. ?b = Some x \<longrightarrow> rec_seq x < rec_seq r"
  proof (cases ?a)
    case None
    then show ?thesis
      using assms(3) A by (cases ?b) (auto simp: best_record_def ota_pick_boot_meta_record_def ota_pick_meta_write_slot_def)
  next
    case (Some x)
    show ?thesis
    proof (cases ?b)
      case None
      then show ?thesis
        using assms(3) Some B by (auto simp: best_record_def ota_pick_boot_meta_record_def ota_pick_meta_write_slot_def)
    next
      case (Some y)
      have ne: "rec_seq x \<noteq> rec_seq y"
        using assms(1) \<open>?a = Some x\<close> Some by (auto simp: meta_ok_def)
      show ?thesis
        using assms(3) \<open>?a = Some x\<close> Some ne A B
        by (cases "rec_seq x < rec_seq y")
          (auto simp: best_record_def ota_pick_boot_meta_record_def ota_pick_meta_write_slot_def SLOT_A_def SLOT_B_def)
    qed
  qed
  then show ?thesis
  proof cases
    case A
    then have w: "ota_write_boot_meta d m fates =
        fs_write_plain_boot_meta (fs_write_meta_record d OTA_META_PATH_A new (fst fates)) m (snd fates)"
      by (simp add: write_boot_meta_eq [OF assms(3)] sat new_def)
    show ?thesis
      using pick_newer [OF target(1) [of OTA_META_PATH_A] A(3) sat(2) [folded new_seq]] target(2) [of OTA_META_PATH_A] A(1) pn
      by (auto simp: w best_record_def meta_ok_def)
  next
    case B
    then have w: "ota_write_boot_meta d m fates =
        fs_write_plain_boot_meta (fs_write_meta_record d OTA_META_PATH_B new (fst fates)) m (snd fates)"
      by (simp add: write_boot_meta_eq [OF assms(3)] sat new_def SLOT_A_def SLOT_B_def)
    show ?thesis
      using pick_newer [OF target(1) [of OTA_META_PATH_B] B(3) sat(2) [folded new_seq]] target(2) [of OTA_META_PATH_B] B(1) pn
      by (auto simp: w best_record_def meta_ok_def)
  qed
qed

section \<open>Histories of writes\<close>

definition meta_run :: "disk \<Rightarrow> (BootMeta \<times> write_fate \<times> write_fate) list \<Rightarrow> disk" where
  "meta_run d ws = foldl (\<lambda>d (m, fates). ota_write_boot_meta d m fates) d ws"

lemma meta_ok_best: "meta_ok d \<Longrightarrow> \<exists>r. best_record d = Some r"
  by (auto simp: meta_ok_def)

lemma write_step:
  assumes "meta_ok d" "slots_ok m" "best_seq d < 4294967295"
  shows "ota_read_boot_meta (ota_write_boot_meta d m fates) \<in> {ota_read_boot_meta d, m}"
    and "complete (fst fates) \<Longrightarrow> ota_read_boot_meta (ota_write_boot_meta d m fates) = m"
    and "meta_ok (ota_write_boot_meta d m fates)"
    and "best_seq (ota_write_boot_meta d m fates) \<le> best_seq d + 1"
proof -
  obtain r where r: "best_record d = Some r"
    using assms(1) meta_ok_best by blast
  have "rec_seq r \<noteq> - 1"
    using assms(3) r by (auto simp: best_seq_def unsigned_minus_1_eq_mask mask_eq_exp_minus_1)
  note w = write_cases [OF assms(1,2) r this, of fates]
  have u: "unat (rec_seq r + 1) = unat (rec_seq r) + 1"
    using assms(3) r by (simp add: best_seq_def unat_word_ariths)
  from w show "meta_ok (ota_write_boot_meta d m fates)"
    by blast
  from w consider "best_record (ota_write_boot_meta d m fates) = Some r"
    | "best_record (ota_write_boot_meta d m fates) = Some \<lparr>rec_meta = m, rec_seq = rec_seq r + 1\<rparr>"
    by auto
  then show "ota_read_boot_meta (ota_write_boot_meta d m fates) \<in> {ota_read_boot_meta d, m}"
      "best_seq (ota_write_boot_meta d m fates) \<le> best_seq d + 1"
    using r u by (cases; simp add: read_best best_seq_def)+
  show "ota_read_boot_meta (ota_write_boot_meta d m fates) = m" if "complete (fst fates)"
  proof -
    have "best_record (ota_write_boot_meta d m fates) = Some \<lparr>rec_meta = m, rec_seq = rec_seq r + 1\<rparr>"
      using w that by blast
    then show ?thesis
      by (simp add: read_best)
  qed
qed

lemma meta_run_inv:
  "meta_ok d \<Longrightarrow> \<forall>(m, _) \<in> set ws. slots_ok m \<Longrightarrow> best_seq d + length ws \<le> 4294967295 \<Longrightarrow>
   meta_ok (meta_run d ws) \<and> best_seq (meta_run d ws) \<le> best_seq d + length ws"
proof (induction ws rule: rev_induct)
  case (snoc w ws)
  obtain m fates where w: "w = (m, fates)"
    by (cases w)
  have ih: "meta_ok (meta_run d ws)" "best_seq (meta_run d ws) \<le> best_seq d + length ws"
    using snoc by auto
  then show ?case
    using write_step(3,4) [OF ih(1), of m fates] snoc.prems w by (auto simp: meta_run_def)
qed (simp add: meta_run_def)


lemma fs_read_rec_text:
  assumes "slots_ok (rec_meta r)" "d p = Some (rec_text r)"
  shows "fs_read_meta_record d p = Some r"
proof -
  have "take 512 (rec_text r) = rec_text r" "rec_text r \<noteq> []"
    using length_rec_text [of r] by (simp_all add: rec_text_def)
  moreover have "parse_boot_meta_record (rec_text r) = Some r"
    using parse_record_take(2) [OF assms(1), of "length (rec_text r)"] by simp
  ultimately show ?thesis
    using assms(2) by (simp add: fs_read_meta_record_def OTA_META_RECORD_MAX_BYTES_def Let_def)
qed

definition demo_disk :: disk where
  "demo_disk = (\<lambda>_. None)(OTA_META_PATH_A \<mapsto> rec_text \<lparr>rec_meta = boot_meta_default, rec_seq = 5\<rparr>)"

lemma demo_best: "best_record demo_disk = Some \<lparr>rec_meta = boot_meta_default, rec_seq = 5\<rparr>"
proof -
  have a: "fs_read_meta_record demo_disk OTA_META_PATH_A = Some \<lparr>rec_meta = boot_meta_default, rec_seq = 5\<rparr>"
    by (rule fs_read_rec_text) (simp_all add: demo_disk_def slots_ok_def boot_meta_default_def)
  have b: "fs_read_meta_record demo_disk OTA_META_PATH_B = None"
    by (simp add: fs_read_meta_record_def demo_disk_def)
  show ?thesis
    by (simp add: best_record_def a b ota_pick_boot_meta_record_def)
qed

lemma demo_meta_ok: "meta_ok demo_disk" "best_seq demo_disk = 5" "ota_read_boot_meta demo_disk = boot_meta_default"
proof -
  have "fs_read_meta_record demo_disk OTA_META_PATH_B = None"
    by (simp add: fs_read_meta_record_def demo_disk_def)
  then show "meta_ok demo_disk"
    by (simp add: meta_ok_def demo_best)
qed (simp_all add: best_seq_def read_best [OF demo_best] demo_best)


section \<open>The metadata read is always well formed\<close>

lemma boot_meta_field_slots: "slots_ok m \<Longrightarrow> slots_ok (boot_meta_field k v m)"
  by (auto simp: boot_meta_field_def slots_ok_def parse_slot_char_def)

lemma parse_loop_slots: "slots_ok m \<Longrightarrow> slots_ok (parse_boot_meta_loop data m)"
proof (induction data m rule: parse_boot_meta_loop.induct)
  case (1 data m)
  then show ?case
    by (subst parse_boot_meta_loop.simps) (auto simp: boot_meta_field_slots simp del: dropWhile.simps(2) takeWhile.simps(2) split: list.split)
qed

lemma slots_ok_default: "slots_ok boot_meta_default"
  by (simp add: slots_ok_def boot_meta_default_def)

lemma parse_meta_slots: "slots_ok (parse_boot_meta data)"
  unfolding parse_boot_meta_def by (rule parse_loop_slots) (rule slots_ok_default)

lemma fs_read_slots: "fs_read_meta_record d p = Some r \<Longrightarrow> slots_ok (rec_meta r)"
  by (auto simp: fs_read_meta_record_def parse_boot_meta_record_def Let_def parse_meta_slots
      split: option.splits if_splits)

lemma read_slots_ok: "slots_ok (ota_read_boot_meta d)"
  by (auto simp: ota_read_boot_meta_def ota_read_boot_meta_records_def ota_pick_boot_meta_record_def Let_def
      parse_meta_slots fs_read_slots slots_ok_default
      split: option.splits if_splits)

section \<open>Boot loops\<close>

definition full :: "write_fate \<times> write_fate" where
  "full = (Lands OTA_META_RECORD_MAX_BYTES, Lands OTA_META_RECORD_MAX_BYTES)"

definition unconfirmed_boots :: "nat \<Rightarrow> OtaState \<Rightarrow> OtaState" where
  "unconfirmed_boots k st = ((\<lambda>st. snd (ota_boot_validate st full)) ^^ k) st"

lemma complete_full: "complete (fst full)"
  by (simp add: complete_def full_def OTA_META_RECORD_MAX_BYTES_def)

lemma validate_slots: "slots_ok m \<Longrightarrow> slots_ok (snd (ota_boot_validate_pure m mx))"
  by (auto simp: ota_boot_validate_pure_def slots_ok_def Let_def)

lemma boot_validate_step:
  assumes "meta_ok (ota_disk st)" "best_seq (ota_disk st) < 4294967295"
  defines "st' \<equiv> snd (ota_boot_validate st full)"
  shows "ota_read_boot_meta (ota_disk st') = snd (ota_boot_validate_pure (ota_read_boot_meta (ota_disk st)) (cfg_max_boot_attempts st))"
    and "meta_ok (ota_disk st')" and "best_seq (ota_disk st') \<le> best_seq (ota_disk st) + 1"
    and "cfg_max_boot_attempts st' = cfg_max_boot_attempts st"
proof -
  let ?m = "snd (ota_boot_validate_pure (ota_read_boot_meta (ota_disk st)) (cfg_max_boot_attempts st))"
  have d: "ota_disk st' = ota_write_boot_meta (ota_disk st) ?m full"
    by (simp add: st'_def ota_boot_validate_def ota_apply_meta_def Let_def split: prod.splits)
  have m: "slots_ok ?m"
    by (rule validate_slots) (rule read_slots_ok)
  note w = write_step [OF assms(1) m assms(2), of full]
  show "ota_read_boot_meta (ota_disk st') = ?m" "meta_ok (ota_disk st')" "best_seq (ota_disk st') \<le> best_seq (ota_disk st) + 1"
    using w(2) [OF complete_full] w(3,4) unfolding d by blast+
  show "cfg_max_boot_attempts st' = cfg_max_boot_attempts st"
    by (simp add: st'_def ota_boot_validate_def ota_apply_meta_def Let_def split: prod.splits)
qed

lemma unconfirmed_inv:
  assumes "meta_ok (ota_disk st)" "best_seq (ota_disk st) + k \<le> 4294967295"
  shows "meta_ok (ota_disk (unconfirmed_boots k st)) \<and> best_seq (ota_disk (unconfirmed_boots k st)) \<le> best_seq (ota_disk st) + k
    \<and> cfg_max_boot_attempts (unconfirmed_boots k st) = cfg_max_boot_attempts st"
  using assms(2)
proof (induction k)
  case (Suc k)
  then have ih: "meta_ok (ota_disk (unconfirmed_boots k st))" "best_seq (ota_disk (unconfirmed_boots k st)) \<le> best_seq (ota_disk st) + k"
    "cfg_max_boot_attempts (unconfirmed_boots k st) = cfg_max_boot_attempts st"
    by simp_all
  then show ?case
    using boot_validate_step(2,3,4) [OF ih(1)] Suc.prems by (simp add: unconfirmed_boots_def)
qed (simp add: unconfirmed_boots_def assms)

text \<open>
  C20. A boot loop ends on the last good slot.  Boots that are never confirmed keep the active slot
  and count up until the configured number of attempts is used up; the next one makes the last
  good slot active.
\<close>

theorem boot_loop_rolls_back:
  assumes "meta_ok (ota_disk st)" "boot_count m \<le> cfg_max_boot_attempts st" "cfg_max_boot_attempts st \<noteq> - 1"
    "n = unat (cfg_max_boot_attempts st) - unat (boot_count m)" "best_seq (ota_disk st) + n + 1 \<le> 4294967295"
    "m = ota_read_boot_meta (ota_disk st)"
  shows "(\<forall>k\<le>n. ota_read_boot_meta (ota_disk (unconfirmed_boots k st)) = m\<lparr>boot_count := boot_count m + of_nat k\<rparr>)
    \<and> ota_read_boot_meta (ota_disk (unconfirmed_boots (n + 1) st)) = m\<lparr>active_slot := last_good m, boot_count := 1\<rparr>"
proof -
  let ?mx = "cfg_max_boot_attempts st"
  have mx: "unat ?mx < 4294967295" "unat (boot_count m) \<le> unat ?mx"
    using unat_u32_not_max [OF assms(3)] assms(2) by (simp_all add: word_le_nat_alt)
  have u: "unat (boot_count m + of_nat k) = unat (boot_count m) + k" if "k \<le> n" for k
    using that mx assms(4) by (simp add: unat_word_ariths unat_of_nat)
  have sat: "saturating_add (boot_count m + of_nat k) 1 = boot_count m + of_nat (k + 1)" if "k \<le> n" for k
  proof -
    have "unat (boot_count m) + k < 4294967295"
      using that mx assms(4) by linarith
    then show ?thesis
      using u [OF that] saturating_add_one [of "boot_count m + of_nat k"] by (simp add: add.assoc add.commute [of 1])
  qed
  have step: "ota_read_boot_meta (ota_disk (unconfirmed_boots (k + 1) st)) =
      snd (ota_boot_validate_pure (ota_read_boot_meta (ota_disk (unconfirmed_boots k st))) ?mx)" if "k \<le> n" for k
    using boot_validate_step(1) [of "unconfirmed_boots k st"] unconfirmed_inv [OF assms(1), of k] assms(5) that
    by (simp add: unconfirmed_boots_def)
  have count: "ota_read_boot_meta (ota_disk (unconfirmed_boots k st)) = m\<lparr>boot_count := boot_count m + of_nat k\<rparr>" if "k \<le> n" for k
    using that
  proof (induction k)
    case 0
    then show ?case
      by (simp add: unconfirmed_boots_def assms(6))
  next
    case (Suc k)
    then have "\<not> ?mx < boot_count m + of_nat (k + 1)"
      using u [of "Suc k"] mx assms(4) by (simp add: word_less_nat_alt)
    then show ?case
      using Suc step [of k] sat [of k] by (simp add: ota_boot_validate_pure_def Let_def)
  qed
  have "unat (boot_count m + of_nat (n + 1)) = unat ?mx + 1"
    using u [of n] mx assms(4) sat [of n] unat_saturating_add [of "boot_count m + of_nat n" 1] by simp
  then have "?mx < boot_count m + of_nat (n + 1)"
    by (simp add: word_less_nat_alt)
  then have "ota_read_boot_meta (ota_disk (unconfirmed_boots (n + 1) st)) = m\<lparr>active_slot := last_good m, boot_count := 1\<rparr>"
    using step [of n] count [of n] sat [of n] by (simp add: ota_boot_validate_pure_def Let_def)
  then show ?thesis
    using count by blast
qed

definition demo_ota :: OtaState where
  "demo_ota = \<lparr>ota_disk = demo_disk, cfg_active_slot = 0, cfg_boot_count = 0, cfg_max_boot_attempts = OTA_DEFAULT_MAX_BOOT_ATTEMPTS\<rparr>"

theorem boot_loop_rolls_back_witness:
  "ota_read_boot_meta (ota_disk (unconfirmed_boots 3 demo_ota)) = boot_meta_default\<lparr>boot_count := 3\<rparr>
    \<and> ota_read_boot_meta (ota_disk (unconfirmed_boots 4 demo_ota)) = boot_meta_default\<lparr>active_slot := SLOT_A, boot_count := 1\<rparr>"
proof -
  note b = boot_loop_rolls_back [of demo_ota boot_meta_default 3]
  have "boot_meta_default\<lparr>boot_count := boot_count boot_meta_default + of_nat 3\<rparr> = boot_meta_default\<lparr>boot_count := 3\<rparr>"
      "last_good boot_meta_default = SLOT_A"
    by (simp_all add: boot_meta_default_def)
  then show ?thesis
    using b by (simp add: demo_ota_def demo_meta_ok OTA_DEFAULT_MAX_BOOT_ATTEMPTS_def boot_meta_default_def)
qed

section \<open>A corrupt slot is not booted again\<close>

lemma slot_path_not_meta:
  "ota_slot_path s \<noteq> OTA_META_PATH_A" "ota_slot_path s \<noteq> OTA_META_PATH_B" "ota_slot_path s \<noteq> OTA_META_PATH"
  by (simp_all add: ota_slot_path_def OTA_SLOT_A_PATH_def OTA_SLOT_B_PATH_def OTA_SLOT_R_PATH_def
      OTA_META_PATH_A_def OTA_META_PATH_B_def OTA_META_PATH_def bytes_eq_iff)

lemma write_meta_other:
  "p \<noteq> OTA_META_PATH_A \<Longrightarrow> p \<noteq> OTA_META_PATH_B \<Longrightarrow> p \<noteq> OTA_META_PATH \<Longrightarrow> ota_write_boot_meta d m fates p = d p"
  by (simp add: ota_write_boot_meta_def Let_def fs_write_plain_other fs_write_meta_other split: prod.splits)

lemma verify_after_write:
  assumes "ota_read_boot_meta (ota_write_boot_meta d m' fates) = (ota_read_boot_meta d)\<lparr>active_slot := s\<rparr>"
  shows "ota_verify_slot (ota_write_boot_meta d m' fates) slot = ota_verify_slot d slot"
  using slot_path_not_meta [of slot]
  by (simp add: ota_verify_slot_iff assms write_meta_other slot_size_def slot_crc_def)


lemma demo_boots: "meta_ok (ota_disk demo_ota)" "best_seq (ota_disk demo_ota) = 5"
  by (simp_all add: demo_ota_def demo_meta_ok)


section \<open>The sequence number saturates\<close>

text \<open>
  Once the record in \<open>BOOTMETA.A\<close> carries the largest sequence number and is the newer one, the
  next write is lost although it completes: the new record gets the same number, and the tie is
  decided for the old one.
\<close>

lemma saturated_sequence_loses_write:
  assumes "fs_read_meta_record d OTA_META_PATH_A = Some a" "rec_seq a = - 1"
    "fs_read_meta_record d OTA_META_PATH_B = Some b" "rec_seq b < - 1" "slots_ok m" "complete (fst fates)"
  shows "ota_read_boot_meta (ota_write_boot_meta d m fates) = rec_meta a
    \<and> fs_read_meta_record (ota_write_boot_meta d m fates) OTA_META_PATH_B = Some \<lparr>rec_meta = m, rec_seq = - 1\<rparr>"
proof -
  let ?new = "\<lparr>rec_meta = m, rec_seq = - 1\<rparr>"
  have best: "best_record d = Some a"
    using assms(1-4) by (simp add: best_record_def ota_pick_boot_meta_record_def)
  have "saturating_add (rec_seq a) 1 = - 1"
    by (simp add: assms(2) saturating_add_def unsigned_minus_1_eq_mask mask_eq_exp_minus_1)
  then have w: "ota_write_boot_meta d m fates = fs_write_plain_boot_meta (fs_write_meta_record d OTA_META_PATH_B ?new (fst fates)) m (snd fates)"
    using assms(1-4) by (simp add: write_boot_meta_eq [OF best] ota_pick_meta_write_slot_def SLOT_A_def SLOT_B_def not_le [symmetric])
  have nb: "fs_read_meta_record (fs_write_meta_record d OTA_META_PATH_B ?new (fst fates)) OTA_META_PATH_B = Some ?new"
    using assms(5,6) by (intro fs_read_after_write(2)) simp_all
  have "best_record (ota_write_boot_meta d m fates) = Some a"
    using assms(1,2) by (simp add: best_record_def w nb ota_pick_boot_meta_record_def)
  then show ?thesis
    by (simp add: read_best w nb)
qed

lemma saturated_sequence_loses_write_witness:
  defines "a \<equiv> \<lparr>rec_meta = boot_meta_default, rec_seq = - 1\<rparr>" and "b \<equiv> \<lparr>rec_meta = boot_meta_default, rec_seq = 7\<rparr>"
    and "m \<equiv> boot_meta_default\<lparr>boot_count := 1\<rparr>"
  defines "d \<equiv> (\<lambda>_. None)(OTA_META_PATH_A \<mapsto> rec_text a, OTA_META_PATH_B \<mapsto> rec_text b)"
  shows "ota_read_boot_meta (ota_write_boot_meta d m full) = rec_meta a
    \<and> fs_read_meta_record (ota_write_boot_meta d m full) OTA_META_PATH_B = Some \<lparr>rec_meta = m, rec_seq = - 1\<rparr>"
proof (rule saturated_sequence_loses_write [where b = b])
  have s: "slots_ok boot_meta_default"
    by (rule slots_ok_default)
  show "fs_read_meta_record d OTA_META_PATH_A = Some a" "fs_read_meta_record d OTA_META_PATH_B = Some b"
    by (rule fs_read_rec_text; simp add: d_def a_def b_def s)+
  show "slots_ok m"
    using s by (simp add: m_def slots_ok_def)
qed (simp_all add: a_def b_def complete_full word_less_nat_alt unsigned_minus_1_eq_mask mask_eq_exp_minus_1)

end
