(* ===== verification/Ota_Update.thy ===== *)
theory Ota_Update
  imports Ota_Boot
begin

text \<open>
  Installing firmware: the signature sidecar (\<open>crates/crypto/src/ed25519.rs\<close>), its verification
  against the trusted key (\<open>crates/ota/src/secure_boot.rs\<close>), and the receiver of the shell
  (\<open>cmd_ota_recv\<close> and \<open>ota_promote_tmp_to_bin\<close> in \<open>crates/shell/src/lib.rs\<close>).

  The signature scheme of the \<open>ed25519-dalek\<close> crate, the key the build embeds and the build flags
  are parameters.  The network is a list of connections, each with the header bytes it delivered
  and the chunks of payload that followed; every file operation of the receiver takes its outcome
  from the environment.
\<close>

section \<open>Signature files\<close>

definition ED25519_PUBLIC_KEY_SIZE :: nat where "ED25519_PUBLIC_KEY_SIZE = 32"
definition ED25519_SIGNATURE_SIZE :: nat where "ED25519_SIGNATURE_SIZE = 64"
definition MAX_VERIFY_SIZE :: nat where "MAX_VERIFY_SIZE = 2 * 1024 * 1024"
definition SIG_MAGIC :: "u8 list" where "SIG_MAGIC = bytes ''RSIG''"

definition SIG_HEADER_SIZE :: nat where
  "SIG_HEADER_SIZE = 4 + 1 + ED25519_PUBLIC_KEY_SIZE + ED25519_SIGNATURE_SIZE + 4"

record FirmwareSignature =
  sig_magic :: "u8 list"
  sig_algorithm :: u8
  sig_public_key :: "u8 list"
  sig_signature :: "u8 list"
  sig_payload_size :: u32

definition sig_parse_header :: "u8 list \<Rightarrow> FirmwareSignature option" where
  "sig_parse_header data =
     (if length data < SIG_HEADER_SIZE then None
      else if take 4 data \<noteq> SIG_MAGIC then None
      else Some \<lparr>sig_magic = SIG_MAGIC, sig_algorithm = data ! 4, sig_public_key = take 32 (drop 5 data),
                 sig_signature = take 64 (drop 37 data),
                 sig_payload_size = u32_from_le (data ! 101) (data ! 102) (data ! 103) (data ! 104)\<rparr>)"

text \<open>\<open>dalek key sig msg\<close>: the key decodes and strict verification accepts the signature.\<close>

type_synonym dalek = "u8 list \<Rightarrow> u8 list \<Rightarrow> u8 list \<Rightarrow> bool"

definition sig_verify :: "dalek \<Rightarrow> u8 list \<Rightarrow> u8 list \<Rightarrow> u8 list \<Rightarrow> bool" where
  "sig_verify dalek trusted_key signature firmware_data =
     (if length firmware_data > MAX_VERIFY_SIZE then False else dalek trusted_key signature firmware_data)"

section \<open>Secure boot\<close>

record BuildEnv =
  be_pubkey :: "u8 list"
  be_dalek :: dalek
  be_enforced :: bool
  be_platform :: u8
  be_max_image_size :: nat

datatype BootTrust = Verified | Unverified | Failed

datatype BootTrustReason =
    RVerified | NoTrustedKey | SignatureAbsent | SignatureMalformed | PubkeyMismatch
  | ImageUnreadable | SignatureInvalid | ImageTooLargeToVerify

definition SECURE_BOOT_MAX_IMAGE_SIZE :: nat where "SECURE_BOOT_MAX_IMAGE_SIZE = 2 * 1024 * 1024"
definition SECURE_BOOT_SIG_FILE_MAX :: nat where "SECURE_BOOT_SIG_FILE_MAX = SIG_HEADER_SIZE + 16"
definition SECURE_BOOT_READ_CHUNK_SIZE :: nat where "SECURE_BOOT_READ_CHUNK_SIZE = 4096"

definition is_bootable :: "bool \<Rightarrow> BootTrust \<Rightarrow> bool" where
  "is_bootable require_signature t =
     (case t of Verified \<Rightarrow> True | Unverified \<Rightarrow> \<not> require_signature | Failed \<Rightarrow> False)"

text \<open>Paths that go to the FAT driver directly are relative to the volume root.\<close>

definition root_path :: "string \<Rightarrow> path" where
  "root_path name = bytes ''/fat'' @ bytes name"

definition secure_boot_bin_path :: "u8 \<Rightarrow> path" where
  "secure_boot_bin_path slot =
     (if slot = SLOT_A then root_path ''/KERN_A.BIN'' else if slot = SLOT_B then root_path ''/KERN_B.BIN''
      else if slot = SLOT_R then root_path ''/KERN_R.BIN'' else root_path ''/KERN_A.BIN'')"

definition secure_boot_tmp_path :: "u8 \<Rightarrow> path" where
  "secure_boot_tmp_path slot = (if slot = SLOT_B then root_path ''/KERN_B.TMP'' else root_path ''/KERN_A.TMP'')"

definition secure_boot_sig_path :: "u8 \<Rightarrow> path" where
  "secure_boot_sig_path slot =
     (if slot = SLOT_A then root_path ''/KERN_A.SIG'' else if slot = SLOT_B then root_path ''/KERN_B.SIG''
      else if slot = SLOT_R then root_path ''/KERN_R.SIG'' else root_path ''/KERN_A.SIG'')"

definition read_sig_file :: "disk \<Rightarrow> path \<Rightarrow> u8 list" where
  "read_sig_file d p = (case d p of None \<Rightarrow> [] | Some content \<Rightarrow> take SECURE_BOOT_SIG_FILE_MAX content)"

definition read_image_file :: "disk \<Rightarrow> path \<Rightarrow> u8 list" where
  "read_image_file d p =
     (case d p of
        None \<Rightarrow> []
      | Some content \<Rightarrow> concat (chunks_of SECURE_BOOT_READ_CHUNK_SIZE (take SECURE_BOOT_MAX_IMAGE_SIZE content)))"

definition ct_eq :: "u8 list \<Rightarrow> u8 list \<Rightarrow> bool" where
  "ct_eq a b =
     (if length a \<noteq> length b then False
      else foldl (\<lambda>diff i. diff OR (a ! i XOR b ! i)) 0 [0..<length a] = 0)"

definition secure_boot_verify_image_detailed ::
  "BuildEnv \<Rightarrow> disk \<Rightarrow> path \<Rightarrow> path \<Rightarrow> u32 \<Rightarrow> BootTrust \<times> BootTrustReason" where
  "secure_boot_verify_image_detailed env d bin_path sig_path image_size =
     (if list_all (\<lambda>b. b = 0) (be_pubkey env) then (Unverified, NoTrustedKey)
      else let sig_buf = read_sig_file d sig_path in
        if sig_buf = [] then (Unverified, SignatureAbsent)
        else case sig_parse_header sig_buf of
            None \<Rightarrow> (Failed, SignatureMalformed)
          | Some sg \<Rightarrow>
              (if \<not> ct_eq (sig_public_key sg) (be_pubkey env) then (Failed, PubkeyMismatch)
               else if unat image_size > SECURE_BOOT_MAX_IMAGE_SIZE then (Failed, ImageTooLargeToVerify)
               else let img = read_image_file d bin_path in
                 if img = [] then (Failed, ImageUnreadable)
                 else if sig_verify (be_dalek env) (be_pubkey env) (sig_signature sg) img then (Verified, RVerified)
                 else (Failed, SignatureInvalid)))"

definition secure_boot_verify_slot_detailed :: "BuildEnv \<Rightarrow> disk \<Rightarrow> u8 \<Rightarrow> BootTrust \<times> BootTrustReason" where
  "secure_boot_verify_slot_detailed env d slot =
     secure_boot_verify_image_detailed env d (secure_boot_bin_path slot) (secure_boot_sig_path slot)
       (fst (snd (ota_slot_info d slot)))"

definition secure_boot_verify_slot :: "BuildEnv \<Rightarrow> disk \<Rightarrow> u8 \<Rightarrow> BootTrust" where
  "secure_boot_verify_slot env d slot = fst (secure_boot_verify_slot_detailed env d slot)"

definition secure_boot_verify_staged_detailed ::
  "BuildEnv \<Rightarrow> disk \<Rightarrow> u8 \<Rightarrow> u32 \<Rightarrow> BootTrust \<times> BootTrustReason" where
  "secure_boot_verify_staged_detailed env d slot image_size =
     secure_boot_verify_image_detailed env d (secure_boot_tmp_path slot) (secure_boot_sig_path slot) image_size"

text \<open>The signature gate of the boot sequence: whether the kernel goes on with the active slot.\<close>

definition boot_signature_gate :: "BuildEnv \<Rightarrow> disk \<Rightarrow> u8 \<Rightarrow> bool" where
  "boot_signature_gate env d active =
     (let (trust, reason) = secure_boot_verify_slot_detailed env d active
      in if be_enforced env \<and> trust \<noteq> Verified then False else True)"

section \<open>Unlinking by short name\<close>

definition to_ascii_uppercase :: "u8 \<Rightarrow> u8" where
  "to_ascii_uppercase b = (if 97 \<le> b \<and> b \<le> 122 then b - 32 else b)"

definition pad :: "nat \<Rightarrow> u8 list \<Rightarrow> u8 list" where
  "pad n xs = xs @ replicate (n - length xs) 32"

definition path_to_83_local :: "u8 list \<Rightarrow> u8 list option" where
  "path_to_83_local name =
     (if name = [] then None
      else let base = takeWhile (\<lambda>b. b \<noteq> 46) name; ext = drop (Suc (length base)) name
        in if base = [] \<or> length base > 8 \<or> length ext > 3 then None
           else Some (pad 8 (map to_ascii_uppercase base) @ pad 3 (map to_ascii_uppercase ext)))"

definition trim_spaces :: "u8 list \<Rightarrow> u8 list" where
  "trim_spaces xs = rev (dropWhile (\<lambda>b. b = 32) (rev xs))"

definition format_83_name :: "u8 list \<Rightarrow> u8 list" where
  "format_83_name raw =
     (let base = trim_spaces (take 8 raw); ext = trim_spaces (take 3 (drop 8 raw))
      in if ext = [] then base else base @ [46] @ ext)"

definition fat32_unlink_path :: "bool \<Rightarrow> disk \<Rightarrow> u8 list \<Rightarrow> disk" where
  "fat32_unlink_path io_ok d name =
     (case path_to_83_local name of
        None \<Rightarrow> d
      | Some name83 \<Rightarrow> if io_ok then d(bytes ''/fat/'' @ format_83_name name83 := None) else d)"

section \<open>Promotion of a staged image\<close>

text \<open>
  How a promotion goes: an open fails, a write comes up short after some bytes, or every byte is
  copied.  The copy reaches the disk when the file is closed; what the close leaves of it, nothing
  or its first bytes, is not reported to the caller.
\<close>

datatype promote_fate = SrcFails | DstFails | CopyFails nat "nat option" | Copies "nat option"

definition vfs_flush :: "disk \<Rightarrow> path \<Rightarrow> u8 list \<Rightarrow> nat option \<Rightarrow> disk" where
  "vfs_flush d p content flushed = d(p := map_option (\<lambda>k. take k content) flushed)"

definition ota_promote_tmp_to_bin :: "bool \<Rightarrow> disk \<Rightarrow> path \<Rightarrow> path \<Rightarrow> promote_fate \<Rightarrow> bool \<times> disk" where
  "ota_promote_tmp_to_bin io_ok d tmp_path bin_path fate =
     (case d tmp_path of
        None \<Rightarrow> (False, d)
      | Some content \<Rightarrow>
          (let d' = fat32_unlink_path io_ok d bin_path in
           case fate of
             SrcFails \<Rightarrow> (False, d)
           | DstFails \<Rightarrow> (False, d')
           | CopyFails k flushed \<Rightarrow> (False, vfs_flush d' bin_path (take k content) flushed)
           | Copies flushed \<Rightarrow>
               (True, fat32_unlink_path io_ok (vfs_flush d' bin_path content flushed) tmp_path)))"

section \<open>The receiver\<close>

datatype recv_event = Chunk "u8 list" nat | Lost

type_synonym connection = "u8 list option \<times> recv_event list"

fun accept_loop :: "BuildEnv \<Rightarrow> disk \<Rightarrow> connection list \<Rightarrow> (OtaHeader \<times> recv_event list) option" where
  "accept_loop env d [] = None"
| "accept_loop env d ((hdr, payload) # conns) =
     (case hdr of
        None \<Rightarrow> accept_loop env d conns
      | Some buf \<Rightarrow>
          (case ota_parse_header (take OTA_HEADER_SIZE buf) of
             None \<Rightarrow> accept_loop env d conns
           | Some h \<Rightarrow>
               (if \<not> ota_validate_header h (be_platform env) (be_max_image_size env) then accept_loop env d conns
                else if \<not> ota_check_rollback_pure (h_fw_version h) (min_fw_version (ota_read_boot_meta d))
                then accept_loop env d conns
                else Some (h, payload))))"

fun recv_payload :: "nat \<Rightarrow> recv_event list \<Rightarrow> Crc32State \<Rightarrow> u8 list \<Rightarrow> nat \<times> Crc32State \<times> u8 list" where
  "recv_payload remaining events crc fl =
     (if remaining = 0 then (0, crc, fl)
      else case events of
          [] \<Rightarrow> (remaining, crc, fl)
        | Lost # es \<Rightarrow> (remaining, crc, fl)
        | Chunk c landed # es \<Rightarrow>
            (let got = take (min remaining 4096) c
             in recv_payload (remaining - length got) es (crc_update crc got) (fl @ take landed got)))"

record RecvEnv =
  re_conns :: "connection list"
  re_stage :: write_fate
  re_unlinks :: bool
  re_promote :: promote_fate
  re_fates :: "write_fate \<times> write_fate"

definition record_install :: "BootMeta \<Rightarrow> u8 \<Rightarrow> OtaHeader \<Rightarrow> BootMeta" where
  "record_install m target h =
     (let m = m\<lparr>active_slot := target, boot_count := 0\<rparr> in
      if target = SLOT_A
      then m\<lparr>fw_version_a := h_fw_version h, image_size_a := h_image_size h, image_crc_a := h_image_crc32 h\<rparr>
      else m\<lparr>fw_version_b := h_fw_version h, image_size_b := h_image_size h, image_crc_b := h_image_crc32 h\<rparr>)"

definition cmd_ota_recv :: "BuildEnv \<Rightarrow> RecvEnv \<Rightarrow> OtaState \<Rightarrow> OtaState" where
  "cmd_ota_recv env re st =
     (let target_slot = ota_inactive_slot st;
          final_path = ota_slot_path target_slot;
          target_path = (if target_slot = SLOT_A then OTA_SLOT_A_TMP_PATH else OTA_SLOT_B_TMP_PATH);
          d = ota_disk st
      in case accept_loop env d (re_conns re) of
           None \<Rightarrow> st
         | Some (header, payload) \<Rightarrow>
             (if re_stage re = OpenFails then st
              else let (remaining, crc_state, fl) = recv_payload (unat (h_image_size header)) payload crc_new [];
                       d = vfs_replace d target_path fl (re_stage re)
                in if remaining > 0 then st\<lparr>ota_disk := fat32_unlink_path (re_unlinks re) d target_path\<rparr>
                   else if crc_finalize crc_state \<noteq> h_image_crc32 header
                   then st\<lparr>ota_disk := fat32_unlink_path (re_unlinks re) d target_path\<rparr>
                   else let (trust, reason) = secure_boot_verify_staged_detailed env d target_slot (h_image_size header)
                     in if trust \<noteq> Verified \<and> (be_enforced env \<or> trust = Failed)
                        then st\<lparr>ota_disk := fat32_unlink_path (re_unlinks re) d target_path\<rparr>
                        else let (promote_ok, d) = ota_promote_tmp_to_bin (re_unlinks re) d target_path final_path (re_promote re)
                          in if \<not> promote_ok then st\<lparr>ota_disk := fat32_unlink_path (re_unlinks re) d target_path\<rparr>
                             else let m = record_install (ota_read_boot_meta d) target_slot header;
                                      st = st\<lparr>ota_disk := ota_write_boot_meta d m (re_fates re)\<rparr>
                               in ota_apply_meta st m))"

declare recv_payload.simps [simp del]

section \<open>Paths\<close>

lemma bytes_append: "bytes s @ bytes t = bytes (s @ t)"
  by (simp add: bytes_def)

lemmas path_defs = OTA_SLOT_A_PATH_def OTA_SLOT_B_PATH_def OTA_SLOT_R_PATH_def OTA_SLOT_A_TMP_PATH_def
  OTA_SLOT_B_TMP_PATH_def OTA_META_PATH_A_def OTA_META_PATH_B_def OTA_META_PATH_def

definition staging_path :: "u8 \<Rightarrow> path" where
  "staging_path slot = (if slot = SLOT_A then OTA_SLOT_A_TMP_PATH else OTA_SLOT_B_TMP_PATH)"

lemma staging_distinct:
  "staging_path s \<noteq> ota_slot_path t" "ota_slot_path t \<noteq> staging_path s"
  "staging_path s \<noteq> OTA_META_PATH_A" "staging_path s \<noteq> OTA_META_PATH_B" "staging_path s \<noteq> OTA_META_PATH"
  "OTA_META_PATH_A \<noteq> staging_path s" "OTA_META_PATH_B \<noteq> staging_path s" "OTA_META_PATH \<noteq> staging_path s"
  by (simp_all add: staging_path_def ota_slot_path_def path_defs bytes_eq_iff)

lemma slot_path_inj:
  "s \<in> {SLOT_A, SLOT_B, SLOT_R} \<Longrightarrow> t \<in> {SLOT_A, SLOT_B, SLOT_R} \<Longrightarrow> ota_slot_path s = ota_slot_path t \<longleftrightarrow> s = t"
  by (auto simp: ota_slot_path_def path_defs bytes_eq_iff SLOT_A_def SLOT_B_def SLOT_R_def)

lemma tmp_path_staging: "s \<in> {SLOT_A, SLOT_B} \<Longrightarrow> secure_boot_tmp_path s = staging_path s"
  by (auto simp: secure_boot_tmp_path_def staging_path_def root_path_def path_defs bytes_append SLOT_A_def SLOT_B_def)

lemma staging_unlink_never_works:
  "fat32_unlink_path io_ok d (staging_path s) = d" "fat32_unlink_path io_ok d (ota_slot_path s) = d"
  by (simp_all add: fat32_unlink_path_def path_to_83_local_def staging_path_def ota_slot_path_def path_defs bytes_def)

lemma inactive_slot_cases: "ota_inactive_slot st \<in> {SLOT_A, SLOT_B}"
  by (simp add: ota_inactive_slot_def ota_inactive_slot_pure_def)

lemma read_meta_cong:
  assumes "\<And>p. p \<in> {OTA_META_PATH_A, OTA_META_PATH_B, OTA_META_PATH} \<Longrightarrow> d' p = d p"
  shows "ota_read_boot_meta d' = ota_read_boot_meta d"
proof -
  have eqs: "d' OTA_META_PATH_A = d OTA_META_PATH_A" "d' OTA_META_PATH_B = d OTA_META_PATH_B" "d' OTA_META_PATH = d OTA_META_PATH"
    using assms by simp_all
  show ?thesis
    unfolding ota_read_boot_meta_def ota_read_boot_meta_records_def fs_read_meta_record_def eqs by (rule refl)
qed

lemma best_record_cong:
  assumes "d' OTA_META_PATH_A = d OTA_META_PATH_A" "d' OTA_META_PATH_B = d OTA_META_PATH_B"
  shows "best_record d' = best_record d" "meta_ok d' = meta_ok d" "best_seq d' = best_seq d"
  using assms by (simp_all add: best_record_def fs_read_meta_record_def meta_ok_def best_seq_def)

section \<open>What a verified image is\<close>

definition signed :: "BuildEnv \<Rightarrow> u8 list \<Rightarrow> bool" where
  "signed env img \<longleftrightarrow> img \<noteq> [] \<and> (\<exists>sg. be_dalek env (be_pubkey env) sg img)"

lemma recv_payload_length:
  "recv_payload n es crc fl = (r, crc', fl') \<Longrightarrow> length fl' + r \<le> length fl + n"
proof (induction es arbitrary: n crc fl)
  case Nil
  then show ?case
    by (subst (asm) recv_payload.simps) (simp split: if_splits)
next
  case (Cons e es)
  show ?case
  proof (cases e)
    case (Chunk c k)
    show ?thesis
    proof (cases "n = 0")
      case False
      let ?got = "take (min n 4096) c"
      have "recv_payload (n - length ?got) es (crc_update crc ?got) (fl @ take k ?got) = (r, crc', fl')"
        using Cons.prems False Chunk by (subst (asm) recv_payload.simps) (simp add: Let_def)
      from Cons.IH [OF this] show ?thesis
        by simp
    qed (use Cons.prems in \<open>subst (asm) recv_payload.simps, simp\<close>)
  next
    case Lost
    then show ?thesis
      using Cons.prems by (subst (asm) recv_payload.simps) (simp split: if_splits)
  qed
qed

definition event_lands :: "recv_event \<Rightarrow> bool" where
  "event_lands e \<longleftrightarrow> (case e of Lost \<Rightarrow> True | Chunk c k \<Rightarrow> length c \<le> k)"

definition lands_fully :: "RecvEnv \<Rightarrow> bool" where
  "lands_fully re \<longleftrightarrow> (\<forall>(hdr, es) \<in> set (re_conns re). list_all event_lands es)
     \<and> (\<exists>k\<ge>4294967295. re_stage re = Lands k) \<and> (\<exists>k\<ge>4294967295. re_promote re = Copies (Some k))"

lemma recv_payload_full:
  "recv_payload n es crc fl = (r, crc', fl') \<Longrightarrow> list_all event_lands es \<Longrightarrow>
   crc_reg crc = foldl crc_byte 0xFFFFFFFF fl \<Longrightarrow>
   crc_reg crc' = foldl crc_byte 0xFFFFFFFF fl' \<and> length fl' + r = length fl + n"
proof (induction es arbitrary: n crc fl)
  case Nil
  then show ?case
    by (subst (asm) recv_payload.simps) (auto split: if_splits)
next
  case (Cons e es)
  show ?case
  proof (cases e)
    case (Chunk c k)
    show ?thesis
    proof (cases "n = 0")
      case False
      let ?got = "take (min n 4096) c"
      have land: "take k ?got = ?got"
        using Cons.prems(2) Chunk by (intro take_all) (auto simp: event_lands_def)
      have "recv_payload (n - length ?got) es (crc_update crc ?got) (fl @ ?got) = (r, crc', fl')"
        using Cons.prems(1) False Chunk land by (subst (asm) recv_payload.simps) (simp add: Let_def)
      from Cons.IH [OF this] show ?thesis
        using Cons.prems(2,3) by (simp add: crc_update_def)
    qed (use Cons.prems in \<open>subst (asm) recv_payload.simps, simp\<close>)
  next
    case Lost
    then show ?thesis
      using Cons.prems by (subst (asm) recv_payload.simps) (auto split: if_splits)
  qed
qed

lemma verify_staged:
  assumes "secure_boot_verify_staged_detailed env d slot sz = (Verified, reason)" "slot \<in> {SLOT_A, SLOT_B}"
    "d (staging_path slot) = Some fl" "length fl \<le> unat sz"
  shows "signed env fl"
proof -
  from assms(1) obtain sg where sg: "unat sz \<le> SECURE_BOOT_MAX_IMAGE_SIZE"
      "read_image_file d (staging_path slot) \<noteq> []"
      "sig_verify (be_dalek env) (be_pubkey env) sg (read_image_file d (staging_path slot))"
    by (auto simp: secure_boot_verify_staged_detailed_def secure_boot_verify_image_detailed_def Let_def
        tmp_path_staging [OF assms(2)] split: if_splits option.splits)
  have "read_image_file d (staging_path slot) = fl"
    using assms(3,4) sg(1) by (simp add: read_image_file_def concat_chunks_of)
  then show ?thesis
    using sg(2,3) by (auto simp: signed_def sig_verify_def split: if_splits)
qed

lemma accept_loop_check:
  "accept_loop env d conns = Some (h, payload) \<Longrightarrow>
   (\<exists>hdr. (hdr, payload) \<in> set conns) \<and>
   ota_check_rollback_pure (h_fw_version h) (min_fw_version (ota_read_boot_meta d))
   \<and> ota_validate_header h (be_platform env) (be_max_image_size env)"
proof (induction conns)
  case (Cons c conns)
  obtain hdr pl where c: "c = (hdr, pl)"
    by (cases c)
  show ?case
  proof (cases "hdr")
    case None
    then show ?thesis using Cons c by auto
  next
    case (Some buf)
    then show ?thesis
      using Cons c by (cases "ota_parse_header (take OTA_HEADER_SIZE buf)") (auto split: if_splits)
  qed
qed simp

section \<open>The ways the receiver can end\<close>

lemma recv_cases:
  fixes st :: OtaState
  defines "slot \<equiv> ota_inactive_slot st"
  obtains (Refused) d' where "cmd_ota_recv env re st = st\<lparr>ota_disk := d'\<rparr>"
      "\<And>p. p \<noteq> staging_path slot \<Longrightarrow> d' p = ota_disk st p"
  | (Torn) d' img k where "cmd_ota_recv env re st = st\<lparr>ota_disk := d'\<rparr>" "be_enforced env \<Longrightarrow> signed env img"
      "\<And>p. p \<noteq> staging_path slot \<Longrightarrow> p \<noteq> ota_slot_path slot \<Longrightarrow> d' p = ota_disk st p"
      "d' (ota_slot_path slot) \<in> {None, Some (take k img), ota_disk st (ota_slot_path slot)}"
  | (Installed) d' img h m flushed where "m = record_install (ota_read_boot_meta (ota_disk st)) slot h"
      "cmd_ota_recv env re st = ota_apply_meta (st\<lparr>ota_disk := ota_write_boot_meta d' m (re_fates re)\<rparr>) m"
      "be_enforced env \<Longrightarrow> signed env img"
      "\<And>p. p \<noteq> staging_path slot \<Longrightarrow> p \<noteq> ota_slot_path slot \<Longrightarrow> d' p = ota_disk st p"
      "re_promote re = Copies flushed" "d' (ota_slot_path slot) = map_option (\<lambda>k. take k img) flushed"
      "ota_check_rollback_pure (h_fw_version h) (min_fw_version (ota_read_boot_meta (ota_disk st)))"
      "h_image_size h \<noteq> 0"
      "lands_fully re \<Longrightarrow> length img = unat (h_image_size h) \<and> crc32 img = h_image_crc32 h"
proof -
  let ?tmp = "staging_path slot"
  let ?bin = "ota_slot_path slot"
  have slot: "slot \<in> {SLOT_A, SLOT_B}"
    unfolding slot_def by (rule inactive_slot_cases)
  note unf = cmd_ota_recv_def staging_path_def [symmetric] slot_def [symmetric]
  show thesis
  proof (cases "accept_loop env (ota_disk st) (re_conns re)")
    case None
    then have "cmd_ota_recv env re st = st\<lparr>ota_disk := ota_disk st\<rparr>"
      by (simp add: unf Let_def)
    then show ?thesis
      by (rule Refused) simp
  next
    case (Some hp)
    obtain h payload where hp: "hp = (h, payload)"
      by (cases hp)
    obtain r crc fl where pl: "recv_payload (unat (h_image_size h)) payload crc_new [] = (r, crc, fl)"
      by (cases "recv_payload (unat (h_image_size h)) payload crc_new []")
    note chk = accept_loop_check [OF Some [unfolded hp]]
    let ?d1 = "vfs_replace (ota_disk st) ?tmp fl (re_stage re)"
    obtain trust reason where tr: "secure_boot_verify_staged_detailed env ?d1 slot (h_image_size h) = (trust, reason)"
      by (cases "secure_boot_verify_staged_detailed env ?d1 slot (h_image_size h)")
    obtain ok d2 where pr: "ota_promote_tmp_to_bin (re_unlinks re) ?d1 ?tmp ?bin (re_promote re) = (ok, d2)"
      by (cases "ota_promote_tmp_to_bin (re_unlinks re) ?d1 ?tmp ?bin (re_promote re)")
    let ?gate = "r = 0 \<and> crc_finalize crc = h_image_crc32 h \<and> \<not> (trust \<noteq> Verified \<and> (be_enforced env \<or> trust = Failed))"
    have eq: "cmd_ota_recv env re st =
      (if re_stage re = OpenFails then st
       else if \<not> ?gate then st\<lparr>ota_disk := ?d1\<rparr>
       else if \<not> ok then st\<lparr>ota_disk := d2\<rparr>
       else let m = record_install (ota_read_boot_meta d2) slot h
            in ota_apply_meta (st\<lparr>ota_disk := ota_write_boot_meta d2 m (re_fates re)\<rparr>) m)"
      using Some hp pl tr pr by (auto simp: unf Let_def staging_unlink_never_works)
    show ?thesis
    proof (cases "?gate \<and> (\<exists>k. re_stage re = Lands k)")
      case False
      have "\<not> ok \<and> d2 = ?d1" if "re_stage re = Vanishes"
        using pr that by (simp add: ota_promote_tmp_to_bin_def vfs_replace_def)
      then show ?thesis
        using False eq by (intro Refused [of ?d1]; cases "re_stage re") (auto simp: vfs_replace_def)
    next
      case True
      then obtain k where k: "re_stage re = Lands k"
        by blast
      define img where "img = take k fl"
      have d1: "?d1 = (ota_disk st)(?tmp \<mapsto> img)"
        by (simp add: k vfs_replace_def img_def)
      note pr' = pr [unfolded d1 ota_promote_tmp_to_bin_def, simplified staging_unlink_never_works Let_def, simplified]
      have same: "\<And>p. p \<noteq> ?tmp \<Longrightarrow> p \<noteq> ?bin \<Longrightarrow> d2 p = ota_disk st p"
        using pr' by (cases "re_promote re") (auto simp: vfs_flush_def)
      have sg: "signed env img" if "be_enforced env"
        using verify_staged [of env ?d1 slot "h_image_size h" reason img] that True tr slot recv_payload_length [OF pl]
        by (auto simp: d1 img_def)
      show ?thesis
      proof (cases ok)
        case False
        have "\<exists>j. d2 ?bin \<in> {None, Some (take j img), ota_disk st ?bin}"
          using pr' False by (cases "re_promote re") (auto simp: vfs_flush_def staging_distinct, metis)
        then obtain j where "d2 ?bin \<in> {None, Some (take j img), ota_disk st ?bin}"
          by blast
        then show ?thesis
          using True False eq sg same k by (intro Torn [of d2 img j]) auto
      next
        case ok: True
        obtain flushed where f: "re_promote re = Copies flushed" "d2 ?bin = map_option (\<lambda>k. take k img) flushed"
          using pr' ok by (cases "re_promote re") (auto simp: vfs_flush_def staging_distinct)
        have "ota_read_boot_meta d2 = ota_read_boot_meta (ota_disk st)"
          using same slot_path_not_meta [of slot] by (intro read_meta_cong) (auto simp: staging_distinct)
        moreover have "length img = unat (h_image_size h) \<and> crc32 img = h_image_crc32 h" if "lands_fully re"
          using recv_payload_full [OF pl] chk that True k unsigned_less [of "h_image_size h", where ?'a = nat]
          by (fastforce simp: lands_fully_def img_def crc_new_def crc32_def crc_finalize_def)
        moreover have "ota_check_rollback_pure (h_fw_version h) (min_fw_version (ota_read_boot_meta (ota_disk st)))"
            "h_image_size h \<noteq> 0"
          using chk by (auto simp: ota_validate_header_def)
        ultimately show ?thesis
          using True ok eq k by (intro Installed [OF refl _ sg same f, of h]) (simp_all add: Let_def)
      qed
    qed
  qed
qed

lemma installed_meta:
  assumes "m = record_install (ota_read_boot_meta (ota_disk st)) (ota_inactive_slot st) h"
    "\<And>p. p \<noteq> staging_path (ota_inactive_slot st) \<Longrightarrow> p \<noteq> ota_slot_path (ota_inactive_slot st) \<Longrightarrow> d' p = ota_disk st p"
    "meta_ok (ota_disk st)" "best_seq (ota_disk st) < 4294967295"
  shows "meta_ok d'" "best_seq d' = best_seq (ota_disk st)" "ota_read_boot_meta d' = ota_read_boot_meta (ota_disk st)"
    and "ota_read_boot_meta (ota_write_boot_meta d' m fates) \<in> {ota_read_boot_meta (ota_disk st), m}"
    and "complete (fst fates) \<Longrightarrow> ota_read_boot_meta (ota_write_boot_meta d' m fates) = m"
    and "meta_ok (ota_write_boot_meta d' m fates)"
    and "best_seq (ota_write_boot_meta d' m fates) \<le> best_seq (ota_disk st) + 1"
proof -
  have same: "d' p = ota_disk st p" if "p \<in> {OTA_META_PATH_A, OTA_META_PATH_B, OTA_META_PATH}" for p
    using that assms(2) [of p] slot_path_not_meta [of "ota_inactive_slot st"] by (auto simp: staging_distinct)
  show r: "meta_ok d'" "best_seq d' = best_seq (ota_disk st)" "ota_read_boot_meta d' = ota_read_boot_meta (ota_disk st)"
    using best_record_cong [of d' "ota_disk st"] same assms(3) by (auto intro: read_meta_cong)
  have "slots_ok m"
    using inactive_slot_cases [of st] read_slots_ok [of "ota_disk st"]
    by (auto simp: assms(1) record_install_def slots_ok_def Let_def)
  then have w: "slots_ok m" "best_seq d' < 4294967295"
    using assms(4) r(2) by simp_all
  show "ota_read_boot_meta (ota_write_boot_meta d' m fates) \<in> {ota_read_boot_meta (ota_disk st), m}"
    using write_step(1) [OF r(1) w, of fates] unfolding r(3) .
  show "complete (fst fates) \<Longrightarrow> ota_read_boot_meta (ota_write_boot_meta d' m fates) = m"
    by (rule write_step(2) [OF r(1) w])
  show "meta_ok (ota_write_boot_meta d' m fates)"
    by (rule write_step(3) [OF r(1) w])
  show "best_seq (ota_write_boot_meta d' m fates) \<le> best_seq (ota_disk st) + 1"
    using write_step(4) [OF r(1) w, of fates] unfolding r(2) .
qed


definition demo_build :: "bool \<Rightarrow> BuildEnv" where
  "demo_build enforced =
     \<lparr>be_pubkey = replicate 32 1, be_dalek = (\<lambda>key sg msg. key = replicate 32 1 \<and> length sg = 64 \<and> msg = [1, 2, 3]),
      be_enforced = enforced, be_platform = 0, be_max_image_size = 8388608\<rparr>"

definition demo_header :: OtaHeader where
  "demo_header = \<lparr>h_version = 1, h_image_size = 3, h_image_crc32 = crc32 [1, 2, 3], h_fw_version = 4,
                  h_platform_id = 0, h_flags = 0\<rparr>"

definition demo_recv :: RecvEnv where
  "demo_recv = \<lparr>re_conns = [(None, []), (Some (ota_encode_header demo_header (replicate 24 0)), [Chunk [1, 2] 2, Chunk [3] 1])],
                re_stage = Lands 8589934592, re_unlinks = True, re_promote = Copies (Some 8589934592), re_fates = full\<rparr>"

section \<open>An installed image boots\<close>


lemma demo_accepted:
  assumes "min_fw_version (ota_read_boot_meta d) \<le> 4"
  shows "accept_loop (demo_build e) d (re_conns demo_recv) = Some (demo_header, [Chunk [1, 2] 2, Chunk [3] 1])"
proof -
  have "ota_parse_header (ota_encode_header demo_header (replicate 24 0)) = Some demo_header"
      "length (ota_encode_header demo_header (replicate 24 0)) = 24"
    using parse_encode_header [of demo_header "replicate 24 0"]
    by (simp_all add: demo_header_def OTA_HEADER_VERSION_def OTA_HEADER_SIZE_def)
  moreover have "ota_validate_header demo_header 0 8388608"
    by (simp add: ota_validate_header_def demo_header_def)
  moreover have "ota_check_rollback_pure (h_fw_version demo_header) (min_fw_version (ota_read_boot_meta d))"
    using assms by (simp add: ota_check_rollback_pure_def demo_header_def)
  ultimately show ?thesis
    by (simp add: demo_recv_def demo_build_def OTA_HEADER_SIZE_def)
qed

lemma demo_fields:
  "h_image_size demo_header = 3" "h_image_crc32 demo_header = crc32 [1, 2, 3]" "re_stage demo_recv = Lands 8589934592"
  "re_unlinks demo_recv = True" "re_fates demo_recv = full" "be_enforced (demo_build e) = e"
  "demo_recv\<lparr>re_promote := Copies (Some 8589934592)\<rparr> = demo_recv"
  by (simp_all add: demo_header_def demo_recv_def demo_build_def)

lemma demo_installs_if:
  fixes st :: OtaState and flushed :: "nat option"
  defines "slot \<equiv> ota_inactive_slot st"
  assumes "meta_ok (ota_disk st)" "best_seq (ota_disk st) < 4294967295" "min_fw_version (ota_read_boot_meta (ota_disk st)) \<le> 4"
    "secure_boot_verify_staged_detailed (demo_build e) ((ota_disk st)(staging_path slot \<mapsto> [1, 2, 3])) slot 3 = (trust, reason)"
    "trust = Verified \<or> trust = Unverified \<and> \<not> e"
  defines "m \<equiv> record_install (ota_read_boot_meta (ota_disk st)) slot demo_header"
    and "st' \<equiv> cmd_ota_recv (demo_build e) (demo_recv\<lparr>re_promote := Copies flushed\<rparr>) st"
  shows "ota_read_boot_meta (ota_disk st') = m" "cfg_active_slot st' = ucast slot"
    and "\<And>p. p \<notin> {staging_path slot, ota_slot_path slot, OTA_META_PATH_A, OTA_META_PATH_B, OTA_META_PATH} \<Longrightarrow>
      ota_disk st' p = ota_disk st p"
proof -
  let ?tmp = "staging_path slot"
  let ?bin = "ota_slot_path slot"
  let ?d1 = "(ota_disk st)(?tmp \<mapsto> [1, 2, 3])"
  let ?d2 = "?d1(?bin := map_option (\<lambda>k. take k [1, 2, 3]) flushed)"
  have pl: "recv_payload 3 [Chunk [1, 2] 2, Chunk [3] 1] crc_new [] = (0, crc_update (crc_update crc_new [1, 2]) [3], [1, 2, 3])"
    by (simp add: recv_payload.simps Let_def)
  have crc: "crc_finalize (crc_update (crc_update crc_new [1, 2]) [3]) = crc32 [1, 2, 3]"
    using crc_streaming [of "[[1, 2], [3]]"] by simp
  have pr: "ota_promote_tmp_to_bin True ?d1 ?tmp ?bin (Copies flushed) = (True, ?d2)"
    by (simp add: ota_promote_tmp_to_bin_def staging_unlink_never_works vfs_flush_def)
  have same: "?d2 p = ota_disk st p" if "p \<noteq> ?tmp" "p \<noteq> ?bin" for p
    using that by simp
  have r: "ota_read_boot_meta ?d2 = ota_read_boot_meta (ota_disk st)"
    using slot_path_not_meta [of slot] by (intro read_meta_cong) (auto simp: staging_distinct)
  have eq: "st' = ota_apply_meta (st\<lparr>ota_disk := ota_write_boot_meta ?d2 m full\<rparr>) m"
    unfolding st'_def cmd_ota_recv_def staging_path_def [symmetric] slot_def [symmetric] Let_def m_def
    using demo_accepted [OF assms(4), of e] pl crc assms(5,6) pr r
    by (auto simp: demo_fields vfs_replace_def)
  have "ota_read_boot_meta (ota_write_boot_meta ?d2 m full) = m"
    unfolding m_def slot_def
    by (rule installed_meta(5) [OF refl _ assms(2,3)]) (simp_all add: complete_full)
  then show "ota_read_boot_meta (ota_disk st') = m"
    by (simp add: eq ota_apply_meta_def)
  show "cfg_active_slot st' = ucast slot"
    by (simp add: eq ota_apply_meta_def m_def record_install_def Let_def)
  show "ota_disk st' p = ota_disk st p"
    if "p \<notin> {?tmp, ?bin, OTA_META_PATH_A, OTA_META_PATH_B, OTA_META_PATH}" for p
    using that same [of p] by (simp add: eq ota_apply_meta_def write_meta_other)
qed

lemma demo_installs:
  fixes st :: OtaState and flushed :: "nat option"
  defines "slot \<equiv> ota_inactive_slot st"
  assumes "meta_ok (ota_disk st)" "best_seq (ota_disk st) < 4294967295" "min_fw_version (ota_read_boot_meta (ota_disk st)) \<le> 4"
    "ota_disk st (secure_boot_sig_path slot) = None" "secure_boot_sig_path slot \<noteq> staging_path slot"
  defines "st' \<equiv> cmd_ota_recv (demo_build False) (demo_recv\<lparr>re_promote := Copies flushed\<rparr>) st"
  shows "ota_read_boot_meta (ota_disk st') = record_install (ota_read_boot_meta (ota_disk st)) slot demo_header"
    "cfg_active_slot st' = ucast slot"
    and "\<And>p. p \<notin> {staging_path slot, ota_slot_path slot, OTA_META_PATH_A, OTA_META_PATH_B, OTA_META_PATH} \<Longrightarrow>
      ota_disk st' p = ota_disk st p"
proof -
  have "secure_boot_verify_staged_detailed (demo_build False) ((ota_disk st)(staging_path slot \<mapsto> [1, 2, 3])) slot 3
      = (Unverified, SignatureAbsent)"
    using assms(5,6)
    by (simp add: secure_boot_verify_staged_detailed_def secure_boot_verify_image_detailed_def read_sig_file_def
        demo_build_def list_all_iff)
  note i = demo_installs_if [OF assms(2-4) this [unfolded slot_def], where flushed = flushed]
  show "ota_read_boot_meta (ota_disk st') = record_install (ota_read_boot_meta (ota_disk st)) slot demo_header"
      "cfg_active_slot st' = ucast slot"
    using i(1,2) by (simp_all add: slot_def st'_def)
  show "ota_disk st' p = ota_disk st p"
    if "p \<notin> {staging_path slot, ota_slot_path slot, OTA_META_PATH_A, OTA_META_PATH_B, OTA_META_PATH}" for p
    using i(3) that by (simp add: slot_def st'_def)
qed

lemma sig_path_distinct:
  "secure_boot_sig_path s \<notin> {staging_path t, ota_slot_path t, OTA_META_PATH_A, OTA_META_PATH_B, OTA_META_PATH}"
  by (simp add: secure_boot_sig_path_def staging_path_def ota_slot_path_def root_path_def path_defs bytes_append bytes_eq_iff)

lemma demo_no_sig: "demo_disk (secure_boot_sig_path s) = None"
  using sig_path_distinct [of s 0] by (simp add: demo_disk_def)

lemma demo_inactive: "ota_inactive_slot demo_ota = SLOT_B"
  by (simp add: ota_inactive_slot_def demo_ota_def ota_inactive_slot_pure_def SLOT_A_def)

lemma demo_installed:
  "ota_read_boot_meta (ota_disk (cmd_ota_recv (demo_build False) demo_recv demo_ota))
     = record_install boot_meta_default SLOT_B demo_header"
  using demo_installs(1) [of demo_ota "Some 8589934592"] sig_path_distinct [of SLOT_B SLOT_B] demo_no_sig [of SLOT_B]
  by (simp add: demo_fields demo_boots demo_inactive) (simp add: demo_ota_def demo_meta_ok boot_meta_default_def)

definition demo_sig :: "u8 list" where
  "demo_sig = SIG_MAGIC @ [0] @ replicate 32 1 @ replicate 64 0 @ [3, 0, 0, 0]"

definition demo_signed_ota :: OtaState where
  "demo_signed_ota = demo_ota\<lparr>ota_disk := demo_disk(secure_boot_sig_path SLOT_B \<mapsto> demo_sig)\<rparr>"

lemma demo_sig_parse: "sig_parse_header (take SECURE_BOOT_SIG_FILE_MAX demo_sig)
    = Some \<lparr>sig_magic = SIG_MAGIC, sig_algorithm = 0, sig_public_key = replicate 32 1, sig_signature = replicate 64 0, sig_payload_size = 3\<rparr>"
proof -
  have "length SIG_MAGIC = 4" "length demo_sig = 105"
    by (simp_all add: demo_sig_def SIG_MAGIC_def bytes_def)
  then show ?thesis
    by (simp add: sig_parse_header_def SECURE_BOOT_SIG_FILE_MAX_def SIG_HEADER_SIZE_def ED25519_PUBLIC_KEY_SIZE_def
        ED25519_SIGNATURE_SIZE_def demo_sig_def nth_append u32_from_le_def)
qed

lemma ct_eq_refl: "ct_eq a a"
proof -
  have "foldl (\<lambda>diff i. diff OR (a ! i XOR a ! i)) 0 xs = 0" for xs
    by (induction xs) simp_all
  then show ?thesis
    by (simp add: ct_eq_def)
qed

lemma demo_signed_verifies:
  "secure_boot_verify_staged_detailed (demo_build True) ((ota_disk demo_signed_ota)(staging_path SLOT_B \<mapsto> [1, 2, 3])) SLOT_B 3
    = (Verified, RVerified)"
proof -
  have "secure_boot_tmp_path SLOT_B = staging_path SLOT_B"
    by (rule tmp_path_staging) simp
  moreover have "ct_eq (replicate 32 1) (replicate 32 1)"
    by (rule ct_eq_refl)
  moreover have "take SECURE_BOOT_SIG_FILE_MAX demo_sig \<noteq> []"
    by (simp add: demo_sig_def SECURE_BOOT_SIG_FILE_MAX_def)
  ultimately show ?thesis
    using sig_path_distinct [of SLOT_B SLOT_B]
    by (simp add: secure_boot_verify_staged_detailed_def secure_boot_verify_image_detailed_def read_sig_file_def
        read_image_file_def concat_chunks_of SECURE_BOOT_MAX_IMAGE_SIZE_def MAX_VERIFY_SIZE_def sig_verify_def
        demo_sig_parse demo_signed_ota_def demo_build_def list_all_iff)
qed



section \<open>The version floor\<close>

datatype ota_op =
    OpBoot "write_fate \<times> write_fate" "write_fate \<times> write_fate"
  | OpGood "write_fate \<times> write_fate"
  | OpRollback "write_fate \<times> write_fate"
  | OpRecv RecvEnv

fun ota_step :: "BuildEnv \<Rightarrow> OtaState \<Rightarrow> ota_op \<Rightarrow> OtaState" where
  "ota_step env st (OpBoot f1 f2) = snd (kernel_boot_ota st f1 f2)"
| "ota_step env st (OpGood f) = ota_mark_boot_good st f"
| "ota_step env st (OpRollback f) = cmd_ota_rollback st f"
| "ota_step env st (OpRecv re) = cmd_ota_recv env re st"

definition ota_run :: "BuildEnv \<Rightarrow> OtaState \<Rightarrow> ota_op list \<Rightarrow> OtaState" where
  "ota_run env st ops = foldl (ota_step env) st ops"

text \<open>One metadata write that does not lower the floor, on a disk that is in order.\<close>

definition floor_kept :: "nat \<Rightarrow> OtaState \<Rightarrow> OtaState \<Rightarrow> bool" where
  "floor_kept n st st' \<longleftrightarrow> meta_ok (ota_disk st') \<and> best_seq (ota_disk st') \<le> best_seq (ota_disk st) + n
     \<and> min_fw_version (ota_read_boot_meta (ota_disk st)) \<le> min_fw_version (ota_read_boot_meta (ota_disk st'))"

lemma floor_kept_write:
  assumes "meta_ok (ota_disk st)" "best_seq (ota_disk st) < 4294967295" "slots_ok m"
    "min_fw_version (ota_read_boot_meta (ota_disk st)) \<le> min_fw_version m"
    "ota_disk st' = ota_write_boot_meta (ota_disk st) m fates"
  shows "floor_kept 1 st st'"
  using write_step [OF assms(1,3,2), of fates] assms(4,5) by (auto simp: floor_kept_def)

lemma floor_kept_trans:
  "floor_kept m st st1 \<Longrightarrow> floor_kept n st1 st2 \<Longrightarrow> floor_kept (m + n) st st2"
  by (auto simp: floor_kept_def)

lemma floor_kept_refl: "meta_ok (ota_disk st) \<Longrightarrow> ota_disk st' = ota_disk st \<Longrightarrow> floor_kept n st st'"
  by (simp add: floor_kept_def)

lemma floor_kept_mono: "floor_kept m st st' \<Longrightarrow> m \<le> n \<Longrightarrow> floor_kept n st st'"
  by (auto simp: floor_kept_def)

lemma floor_kept_boot:
  assumes "meta_ok (ota_disk st)" "best_seq (ota_disk st) + 2 \<le> 4294967295"
  shows "floor_kept 2 st (snd (kernel_boot_ota st f1 f2))"
proof -
  let ?d = "ota_disk st"
  obtain oc m where p: "ota_boot_validate_pure (ota_read_boot_meta ?d) (cfg_max_boot_attempts st) = (oc, m)"
    by (cases "ota_boot_validate_pure (ota_read_boot_meta ?d) (cfg_max_boot_attempts st)")
  let ?d1 = "ota_write_boot_meta ?d m f1"
  let ?st1 = "ota_apply_meta (st\<lparr>ota_disk := ?d1\<rparr>) m"
  have m: "min_fw_version m = min_fw_version (ota_read_boot_meta ?d)" "slots_ok m"
    using p validate_slots [OF read_slots_ok [of ?d], of "cfg_max_boot_attempts st"]
    by (auto simp: ota_boot_validate_pure_def Let_def split: if_splits)
  have lt: "best_seq ?d < 4294967295"
    using assms(2) by linarith
  note w = write_step [OF assms(1) m(2) lt, of f1]
  have v: "ota_boot_validate st f1 = (m, ?st1)"
    by (simp add: ota_boot_validate_def p)
  have st1: "ota_disk ?st1 = ?d1" "min_fw_version (ota_read_boot_meta ?d1) = min_fw_version (ota_read_boot_meta ?d)"
    using w(1) m(1) by (auto simp: ota_apply_meta_def)
  have k1: "floor_kept 1 st ?st1"
    using w st1 by (simp add: floor_kept_def)
  have k2: "floor_kept 2 st (ota_apply_meta (?st1\<lparr>ota_disk := ota_write_boot_meta ?d1 (m\<lparr>active_slot := s\<rparr>) f2\<rparr>) (m\<lparr>active_slot := s\<rparr>))"
    if "s \<in> {SLOT_A, SLOT_B, SLOT_R}" for s
  proof -
    have "slots_ok (m\<lparr>active_slot := s\<rparr>)"
      using m(2) that by (simp add: slots_ok_def)
    moreover have "best_seq ?d1 < 4294967295"
      using w(4) assms(2) by linarith
    ultimately have "floor_kept 1 ?st1 (ota_apply_meta (?st1\<lparr>ota_disk := ota_write_boot_meta ?d1 (m\<lparr>active_slot := s\<rparr>) f2\<rparr>) (m\<lparr>active_slot := s\<rparr>))"
      using w(3) st1 m(1) by (intro floor_kept_write [where m = "m\<lparr>active_slot := s\<rparr>" and fates = f2]) (simp_all add: ota_apply_meta_def)
    from floor_kept_trans [OF k1 this] show ?thesis
      by (simp add: numeral_2_eq_2)
  qed
  have lg: "last_good m \<in> {SLOT_A, SLOT_B, SLOT_R}"
    using m(2) by (simp add: slots_ok_def)
  show ?thesis
    using k2 [OF lg] k2 [of SLOT_R] floor_kept_mono [OF k1, of 2] st1(1)
    by (simp add: kernel_boot_ota_def v Let_def)
qed

lemma floor_kept_recv:
  assumes "meta_ok (ota_disk st)" "best_seq (ota_disk st) < 4294967295"
  shows "floor_kept 1 st (cmd_ota_recv env re st)"
proof (cases rule: recv_cases [of env re st])
  case (Refused d')
  have "ota_read_boot_meta d' = ota_read_boot_meta (ota_disk st)" "meta_ok d'" "best_seq d' = best_seq (ota_disk st)"
    using Refused(2) assms(1) best_record_cong [of d' "ota_disk st"]
    by (auto intro!: read_meta_cong simp: staging_distinct)
  then show ?thesis
    using Refused(1) by (simp add: floor_kept_def)
next
  case (Torn d' img k)
  have "ota_read_boot_meta d' = ota_read_boot_meta (ota_disk st)" "meta_ok d'" "best_seq d' = best_seq (ota_disk st)"
    using Torn(3) assms(1) best_record_cong [of d' "ota_disk st"] slot_path_not_meta [of "ota_inactive_slot st"]
    by (auto intro!: read_meta_cong simp: staging_distinct)
  then show ?thesis
    using Torn(1) by (simp add: floor_kept_def)
next
  case (Installed d' img h m flushed)
  have "min_fw_version m = min_fw_version (ota_read_boot_meta (ota_disk st))"
    by (simp add: Installed(1) record_install_def Let_def)
  then show ?thesis
    using installed_meta(4,6,7) [OF Installed(1,4) assms, of "re_fates re"] Installed(2)
    by (auto simp: floor_kept_def ota_apply_meta_def)
qed

lemma mark_good_meta:
  assumes "meta_ok (ota_disk st)" "best_seq (ota_disk st) < 4294967295"
  shows "floor_kept 1 st (ota_mark_boot_good st f)"
    and "complete (fst f) \<Longrightarrow> slot_version (ota_read_boot_meta (ota_disk st)) (active_slot (ota_read_boot_meta (ota_disk st)))
      \<le> min_fw_version (ota_read_boot_meta (ota_disk (ota_mark_boot_good st f)))"
proof -
  let ?m = "ota_read_boot_meta (ota_disk st)"
  have m: "slots_ok (ota_mark_boot_good_pure ?m)" "min_fw_version ?m \<le> min_fw_version (ota_mark_boot_good_pure ?m)"
      "slot_version ?m (active_slot ?m) \<le> min_fw_version (ota_mark_boot_good_pure ?m)"
    using read_slots_ok [of "ota_disk st"]
    by (auto simp: ota_mark_boot_good_pure_def slots_ok_def Let_def slot_version_def)
  show "floor_kept 1 st (ota_mark_boot_good st f)"
    using assms m by (intro floor_kept_write [where m = "ota_mark_boot_good_pure ?m" and fates = f])
      (simp_all add: ota_mark_boot_good_def)
  show "slot_version ?m (active_slot ?m) \<le> min_fw_version (ota_read_boot_meta (ota_disk (ota_mark_boot_good st f)))"
    if "complete (fst f)"
    using write_step(2) [OF assms(1) m(1) assms(2) that] m(3) by (simp add: ota_mark_boot_good_def)
qed

lemma floor_kept_step:
  assumes "meta_ok (ota_disk st)" "best_seq (ota_disk st) + 2 \<le> 4294967295"
  shows "floor_kept 2 st (ota_step env st op)"
proof (cases op)
  case (OpRollback f)
  let ?m = "ota_read_boot_meta (ota_disk st)"
  have "floor_kept 1 st (ota_step env st op)"
  proof (cases "active_slot ?m = last_good ?m")
    case True
    then show ?thesis
      using OpRollback assms(1) by (simp add: cmd_ota_rollback_def floor_kept_refl)
  next
    case False
    then show ?thesis
      using OpRollback assms read_slots_ok [of "ota_disk st"]
      by (intro floor_kept_write [where m = "?m\<lparr>active_slot := last_good ?m, boot_count := 0\<rparr>" and fates = f])
        (simp_all add: cmd_ota_rollback_def Let_def ota_apply_meta_def slots_ok_def)
  qed
  then show ?thesis
    by (rule floor_kept_mono) simp
qed (use assms floor_kept_boot floor_kept_mono [OF mark_good_meta(1), of st 2] floor_kept_mono [OF floor_kept_recv, of st 2] in simp_all)

lemma floor_kept_run:
  assumes "meta_ok (ota_disk st)" "best_seq (ota_disk st) + 2 * length ops \<le> 4294967295"
  shows "floor_kept (2 * length ops) st (ota_run env st ops)"
  using assms
proof (induction ops arbitrary: st)
  case (Cons op ops)
  have k: "floor_kept 2 st (ota_step env st op)"
    using Cons.prems by (intro floor_kept_step) simp_all
  then have "floor_kept (2 * length ops) (ota_step env st op) (ota_run env (ota_step env st op) ops)"
    using Cons.prems by (intro Cons.IH) (auto simp: floor_kept_def)
  from floor_kept_trans [OF k this] show ?case
    by (simp add: ota_run_def)
qed (simp add: ota_run_def floor_kept_refl)



section \<open>Updating an unconfirmed system\<close>


definition demo_updated :: OtaState where
  "demo_updated = cmd_ota_recv (demo_build False) demo_recv demo_ota"

lemma demo_updated_facts:
  "meta_ok (ota_disk demo_updated)" "best_seq (ota_disk demo_updated) < 4294967295"
  "ota_read_boot_meta (ota_disk demo_updated) = record_install boot_meta_default SLOT_B demo_header"
  "cfg_active_slot demo_updated = ucast SLOT_B" "ota_disk demo_updated (secure_boot_sig_path s) = None"
proof -
  have "floor_kept 1 demo_ota demo_updated"
    unfolding demo_updated_def by (rule floor_kept_recv) (simp_all add: demo_boots)
  then show "meta_ok (ota_disk demo_updated)" "best_seq (ota_disk demo_updated) < 4294967295"
    by (auto simp: floor_kept_def demo_boots)
  show "ota_read_boot_meta (ota_disk demo_updated) = record_install boot_meta_default SLOT_B demo_header"
    by (simp add: demo_updated_def demo_installed)
  have pre: "min_fw_version (ota_read_boot_meta (ota_disk demo_ota)) \<le> 4" "ota_disk demo_ota = demo_disk"
      "best_seq (ota_disk demo_ota) < 4294967295"
      "secure_boot_sig_path (ota_inactive_slot demo_ota) \<noteq> staging_path (ota_inactive_slot demo_ota)"
    using sig_path_distinct [of "ota_inactive_slot demo_ota" "ota_inactive_slot demo_ota"]
    by (simp_all add: demo_ota_def demo_meta_ok boot_meta_default_def)
  show "cfg_active_slot demo_updated = ucast SLOT_B"
    using demo_installs(2) [of demo_ota "Some 8589934592"] pre demo_boots(1) demo_no_sig demo_inactive by (simp add: demo_updated_def demo_fields)
  show "ota_disk demo_updated (secure_boot_sig_path s) = None"
    using demo_installs(3) [of demo_ota "secure_boot_sig_path s" "Some 8589934592"] pre demo_boots(1) demo_no_sig sig_path_distinct [of s]
    by (simp add: demo_updated_def demo_fields)
qed


section \<open>A promotion whose flush fails\<close>

lemma bin_path_slot: "secure_boot_bin_path s = ota_slot_path s"
  by (simp add: secure_boot_bin_path_def ota_slot_path_def root_path_def path_defs bytes_append)

lemma missing_image_fails:
  assumes "d (ota_slot_path s) = None"
  shows "\<not> ota_verify_slot d s" "boot_signature_gate env d s \<longleftrightarrow> \<not> be_enforced env"
proof -
  show "\<not> ota_verify_slot d s"
    using assms by (simp add: ota_verify_slot_def Let_def)
  have "fst (secure_boot_verify_slot_detailed env d s) \<noteq> Verified"
    using assms by (auto simp: secure_boot_verify_slot_detailed_def secure_boot_verify_image_detailed_def bin_path_slot
        read_image_file_def Let_def split: option.splits)
  then show "boot_signature_gate env d s \<longleftrightarrow> \<not> be_enforced env"
    by (auto simp: boot_signature_gate_def split: prod.splits)
qed



end
