(* ===== verification/Sched_Word.thy ===== *)
theory Sched_Word
  imports Rust_Prelude
begin

text \<open>
  The scheduling state word of a task (\<open>sched_word\<close> in \<open>crates/sched/src/task.rs\<close>): the task state and
  the wake stamp packed into one atomic 32-bit word, with the transitions of the blocking task,
  of a waker, of the reaper and of the scheduler.

  Each transition of the source is a load followed by a compare-and-exchange that is retried until
  it succeeds.  The exchange succeeds only on the word that was loaded, so the whole loop acts on
  the word it finds at that moment: it is modelled by the function from the old word to the
  result and the new word.
\<close>

datatype TaskState = Ready | Running | Blocked | Zombie | Invalid

definition STATE_MASK :: u32 where "STATE_MASK = 7"
definition WAKE_STAMP :: u32 where "WAKE_STAMP = 8"

definition pack_state :: "TaskState \<Rightarrow> u32" where
  "pack_state s = (case s of Ready \<Rightarrow> 0 | Running \<Rightarrow> 1 | Blocked \<Rightarrow> 2 | Zombie \<Rightarrow> 3 | Invalid \<Rightarrow> 4)"

definition state_of :: "u32 \<Rightarrow> TaskState" where
  "state_of w =
     (let s = w AND STATE_MASK in
      if s = 0 then Ready else if s = 1 then Running else if s = 2 then Blocked
      else if s = 3 then Zombie else Invalid)"

datatype WakeTransition = Dispatched | Stamped | Mismatch | NotBlocked

definition commit_blocked_or_consume_wake :: "u32 \<Rightarrow> bool \<times> u32" where
  "commit_blocked_or_consume_wake w =
     (if w AND WAKE_STAMP \<noteq> 0 then (False, pack_state Running)
      else case state_of w of
          Running \<Rightarrow> (True, pack_state Blocked)
        | Blocked \<Rightarrow> (True, w)
        | _ \<Rightarrow> (True, w))"

definition wake_transition :: "u32 \<Rightarrow> bool \<Rightarrow> bool \<Rightarrow> bool \<Rightarrow> WakeTransition \<times> u32" where
  "wake_transition w reason_matches stamp_if_unblocked saved =
     (if state_of w = Blocked
      then if \<not> reason_matches then (Mismatch, w)
           else if \<not> saved then (Stamped, w OR WAKE_STAMP)
           else (Dispatched, pack_state Ready)
      else if stamp_if_unblocked then (Stamped, w OR WAKE_STAMP)
      else (NotBlocked, w))"

definition reap_orphaned_stamp :: "u32 \<Rightarrow> bool \<times> u32" where
  "reap_orphaned_stamp w =
     (if w AND WAKE_STAMP = 0 \<or> state_of w \<noteq> Blocked then (False, w) else (True, pack_state Ready))"

definition set_state :: "u32 \<Rightarrow> TaskState \<Rightarrow> u32" where
  "set_state w s = (w AND WAKE_STAMP) OR pack_state s"

section \<open>The two components of the word\<close>

definition stamped :: "u32 \<Rightarrow> bool" where
  "stamped w \<longleftrightarrow> w AND WAKE_STAMP \<noteq> 0"

definition state_word :: "TaskState \<Rightarrow> bool \<Rightarrow> u32" where
  "state_word s b = (if b then pack_state s OR WAKE_STAMP else pack_state s)"

definition word_ok :: "u32 \<Rightarrow> bool" where
  "word_ok w \<longleftrightarrow> w = state_word (state_of w) (stamped w)"

lemmas word_defs = STATE_MASK_def WAKE_STAMP_def pack_state_def state_word_def

lemma state_of_word [simp]: "state_of (state_word s b) = s"
  by (cases s; cases b; simp add: state_of_def word_defs)

lemma stamped_word [simp]: "stamped (state_word s b) \<longleftrightarrow> b"
  by (cases s; cases b; simp add: stamped_def word_defs)

lemma stamp_bit_word [simp]: "state_word s b AND WAKE_STAMP = 0 \<longleftrightarrow> \<not> b"
  using stamped_word [of s b] by (auto simp: stamped_def)

lemma word_ok_word [simp]: "word_ok (state_word s b)"
  by (simp add: word_ok_def)

lemma pack_state_word: "pack_state s = state_word s False"
  by (simp add: state_word_def)

lemma stamp_word [simp]: "state_word s b OR WAKE_STAMP = state_word s True"
  by (cases b) (simp_all add: state_word_def)

lemma set_state_word [simp]: "set_state (state_word s b) s' = state_word s' b"
  by (cases s; cases b; cases s'; simp add: set_state_def word_defs)

lemma commit_word [simp]:
  "commit_blocked_or_consume_wake (state_word s b) =
     (if b then (False, state_word Running False)
      else (True, state_word (if s = Running then Blocked else s) False))"
  using stamped_word [of s b]
  by (cases s) (auto simp: commit_blocked_or_consume_wake_def pack_state_word simp flip: stamped_def)

lemma wake_word [simp]:
  "wake_transition (state_word s b) matches stamp saved =
     (if s = Blocked
      then if \<not> matches then (Mismatch, state_word s b)
           else if \<not> saved then (Stamped, state_word s True)
           else (Dispatched, state_word Ready False)
      else if stamp then (Stamped, state_word s True)
      else (NotBlocked, state_word s b))"
  by (simp add: wake_transition_def pack_state_word)

lemma reap_word [simp]:
  "reap_orphaned_stamp (state_word s b) =
     (if b \<and> s = Blocked then (True, state_word Ready False) else (False, state_word s b))"
  using stamped_word [of s b, unfolded stamped_def]
  by (auto simp: reap_orphaned_stamp_def pack_state_word)

end
