(* ===== verification/Sched_Wake.thy ===== *)
theory Sched_Wake
  imports Sched_Word
begin

text \<open>
  Blocking and waking (\<open>block_current\<close>, \<open>try_wake_task\<close>, \<open>wq_wake_by_tid\<close>, \<open>wake_task_by_tid\<close>,
  \<open>reap_stamped_sleepers\<close> and the hand-over in \<open>do_schedule\<close>, all in
  \<open>crates/sched/src/scheduler.rs\<close>, and the wake functions of \<open>crates/sched/src/wait.rs\<close>), as they act
  on one task while other harts interleave with them.

  The state of the task is its state word, the flag \<open>context_saving\<close>, its wait reason and its
  queued flag; \<open>place\<close> says where the hart that has the task as its current one is, and \<open>claimed\<close>
  that a hart has taken the task off a ready queue and waits until its context is saved.  A waker
  reads \<open>context_saving\<close> first and acts on the word later: its two halves are separate events, as
  are the checks and the exchange of the reaper.  \<open>owed\<close> records that a wake was delivered which
  the task has not come back from yet, \<open>twice\<close> that two harts execute the task at once.
\<close>

datatype WaitReason =
    NoWait | Irq u32 | Channel u32 | Ring u32 | Timer u64 | Port u32 | WaitQueue | Rpc u32
  | FastIpcServer u32 | FastIpcClient u64

section \<open>The wakes\<close>

datatype wake =
    by_irq u32 | by_channel u32 | by_ring u32 | by_port u32 | expired_timers u64
  | by_wait_queue | by_rpc u32 | fast_ipc_server u32 | fast_ipc_client_tid u64 | fast_ipc_client u64

definition wake_pred :: "wake \<Rightarrow> WaitReason \<Rightarrow> bool" where
  "wake_pred w r =
     (case w of
        by_irq irq \<Rightarrow> (case r of Irq i \<Rightarrow> i = irq | _ \<Rightarrow> False)
      | by_channel handle \<Rightarrow> (case r of Channel h \<Rightarrow> h = handle | _ \<Rightarrow> False)
      | by_ring ring_id \<Rightarrow> (case r of Ring i \<Rightarrow> i = ring_id | _ \<Rightarrow> False)
      | by_port port_id \<Rightarrow> (case r of Port i \<Rightarrow> i = port_id | _ \<Rightarrow> False)
      | expired_timers now_ticks \<Rightarrow> (case r of Timer deadline \<Rightarrow> now_ticks \<ge> deadline | _ \<Rightarrow> False)
      | by_wait_queue \<Rightarrow> r = WaitQueue
      | by_rpc caller_tid \<Rightarrow> (case r of Rpc tid \<Rightarrow> tid = caller_tid | _ \<Rightarrow> False)
      | fast_ipc_server server_tid \<Rightarrow> (case r of FastIpcServer tid \<Rightarrow> tid = server_tid | _ \<Rightarrow> False)
      | fast_ipc_client_tid handle \<Rightarrow> (case r of FastIpcClient h \<Rightarrow> h = handle | _ \<Rightarrow> False)
      | fast_ipc_client handle \<Rightarrow> (case r of FastIpcClient h \<Rightarrow> h = handle | _ \<Rightarrow> False))"

text \<open>The wakes directed at a task identifier may stamp a task that has not blocked yet.\<close>

definition wake_stamps :: "wake \<Rightarrow> bool" where
  "wake_stamps w =
     (case w of by_wait_queue \<Rightarrow> True | by_rpc _ \<Rightarrow> True | fast_ipc_server _ \<Rightarrow> True
      | fast_ipc_client_tid _ \<Rightarrow> True | _ \<Rightarrow> False)"

section \<open>The task and the operations on it\<close>

datatype place = Exec | Blocking | Choosing | Leaving | Parked

record wtask =
  word :: u32
  saving :: bool
  wreason :: WaitReason
  queued :: bool
  place :: place
  claimed :: bool
  samples :: "bool list"
  reapers :: nat
  owed :: bool
  twice :: bool

definition enqueue_flag :: "wtask \<Rightarrow> wtask" where
  "enqueue_flag t = (if queued t then t else t\<lparr>queued := True\<rparr>)"

definition block_begin :: "WaitReason \<Rightarrow> wtask \<Rightarrow> wtask" where
  "block_begin r t = t\<lparr>saving := True, wreason := r, place := Blocking\<rparr>"

definition block_commit :: "wtask \<Rightarrow> wtask" where
  "block_commit t =
     (let (committed, w) = commit_blocked_or_consume_wake (word t)
      in if \<not> committed then t\<lparr>word := w, saving := False, place := Exec, owed := False\<rparr>
         else t\<lparr>word := w, place := Choosing\<rparr>)"

definition switch_away :: "wtask \<Rightarrow> wtask" where
  "switch_away t =
     (let t = (if state_of (word t) = Running
               then enqueue_flag (t\<lparr>saving := True, word := set_state (word t) Ready\<rparr>)
               else if state_of (word t) = Blocked \<and> word t AND WAKE_STAMP \<noteq> 0
               then enqueue_flag (t\<lparr>word := pack_state Ready, wreason := NoWait\<rparr>)
               else t)
      in t\<lparr>place := Leaving\<rparr>)"

definition context_saved :: "wtask \<Rightarrow> wtask" where
  "context_saved t = t\<lparr>saving := False, place := Parked\<rparr>"

definition activate :: "wtask \<Rightarrow> wtask" where
  "activate t =
     t\<lparr>claimed := False, word := set_state (word t) Running, place := Exec, owed := False,
       twice := twice t \<or> place t \<noteq> Parked\<rparr>"

definition wake_act :: "wake \<Rightarrow> bool \<Rightarrow> wtask \<Rightarrow> wtask" where
  "wake_act w saved t =
     (let (wt, wd) = wake_transition (word t) (wake_pred w (wreason t)) (wake_stamps w) saved;
          t = t\<lparr>word := wd\<rparr>
      in case wt of
           Dispatched \<Rightarrow> enqueue_flag (t\<lparr>wreason := NoWait, owed := True\<rparr>)
         | Stamped \<Rightarrow> t\<lparr>owed := True\<rparr>
         | _ \<Rightarrow> t)"

definition reap_check :: "wtask \<Rightarrow> bool" where
  "reap_check t \<longleftrightarrow>
     \<not> (word t AND WAKE_STAMP = 0 \<or> state_of (word t) \<noteq> Blocked) \<and> \<not> saving t
     \<and> place t \<notin> {Exec, Blocking, Choosing}"

definition reap_act :: "wtask \<Rightarrow> wtask" where
  "reap_act t =
     (let (won, w) = reap_orphaned_stamp (word t)
      in if won then enqueue_flag (t\<lparr>word := w, wreason := NoWait\<rparr>) else t)"

section \<open>Interleavings\<close>

datatype event =
    Block WaitReason | Commit | Tick | NoOther | Stay | Leave | Saved | Claim | Run
  | Sample | Act wake nat | ReapCheck | ReapAct | Wake wake | Reap

text \<open>
  The events of the hart that executes the task: it blocks, commits, enters \<open>do_schedule\<close> from a
  timer tick or a yield, finds no other task, finds itself, hands over to another task, and has
  its context saved.  Those of the hart that picks the task up, of wakers and of reapers.
  \<open>Wake\<close> and \<open>Reap\<close> are the wake and the reaping done without interruption.
\<close>

fun wstep :: "event \<Rightarrow> wtask \<Rightarrow> wtask option" where
  "wstep (Block r) t = (if place t = Exec then Some (block_begin r t) else None)"
| "wstep Commit t = (if place t = Blocking then Some (block_commit t) else None)"
| "wstep Tick t = (if place t = Exec then Some (t\<lparr>place := Choosing\<rparr>) else None)"
| "wstep NoOther t = (if place t = Choosing then Some (t\<lparr>place := Exec\<rparr>) else None)"
| "wstep Stay t = (if place t = Choosing \<and> queued t then Some (t\<lparr>queued := False, place := Exec\<rparr>) else None)"
| "wstep Leave t = (if place t = Choosing then Some (switch_away t) else None)"
| "wstep Saved t = (if place t = Leaving then Some (context_saved t) else None)"
| "wstep Claim t = (if queued t then Some (t\<lparr>queued := False, claimed := True\<rparr>) else None)"
| "wstep Run t = (if claimed t \<and> \<not> saving t then Some (activate t) else None)"
| "wstep Sample t = Some (t\<lparr>samples := samples t @ [\<not> saving t]\<rparr>)"
| "wstep (Act w i) t =
     (if i < length (samples t)
      then Some (wake_act w (samples t ! i) (t\<lparr>samples := take i (samples t) @ drop (Suc i) (samples t)\<rparr>)) else None)"
| "wstep ReapCheck t = (if reap_check t then Some (t\<lparr>reapers := Suc (reapers t)\<rparr>) else None)"
| "wstep ReapAct t = (if reapers t > 0 then Some (reap_act (t\<lparr>reapers := reapers t - 1\<rparr>)) else None)"
| "wstep (Wake w) t = Some (wake_act w (\<not> saving t) t)"
| "wstep Reap t = (if reap_check t then Some (reap_act t) else None)"

definition wtask_running :: wtask where
  "wtask_running = \<lparr>word = pack_state Running, saving = False, wreason = NoWait, queued = False, place = Exec,
     claimed = False, samples = [], reapers = 0, owed = False, twice = False\<rparr>"

inductive wreach :: "(event \<Rightarrow> bool) \<Rightarrow> wtask \<Rightarrow> wtask \<Rightarrow> bool" for allowed where
  wreach_refl: "wreach allowed t t"
| wreach_step: "wreach allowed t u \<Longrightarrow> allowed e \<Longrightarrow> wstep e u = Some v \<Longrightarrow> wreach allowed t v"

fun wakes_split :: "event \<Rightarrow> bool" where
  "wakes_split Sample = True"
| "wakes_split (Act w i) = True"
| "wakes_split _ = False"

fun reaps_split :: "event \<Rightarrow> bool" where
  "reaps_split ReapCheck = True"
| "reaps_split ReapAct = True"
| "reaps_split _ = False"

section \<open>No delivered wake is lost\<close>

text \<open>
  Where the task can be: executing, it is running, or blocked with its context not saved, and in no
  queue; on its way out or parked, it is ready and in exactly one queue or claimed, or blocked.
\<close>

definition winv :: "wtask \<Rightarrow> bool" where
  "winv t \<longleftrightarrow>
     word_ok (word t) \<and> \<not> twice t \<and> (owed t \<longrightarrow> stamped (word t) \<or> state_of (word t) = Ready)
     \<and> (if place t \<in> {Leaving, Parked}
        then saving t = (place t = Leaving)
          \<and> (state_of (word t) = Ready \<and> queued t \<noteq> claimed t \<or> state_of (word t) = Blocked \<and> \<not> queued t \<and> \<not> claimed t)
        else \<not> queued t \<and> \<not> claimed t \<and> state_of (word t) \<in> {Running, Blocked}
          \<and> (if place t = Blocking then saving t else saving t = (state_of (word t) = Blocked)))"

lemma winv_running: "winv wtask_running"
  by (simp add: winv_def wtask_running_def pack_state_word)

lemma wake_act_cases:
  assumes "word t = state_word s b"
  shows "s = Blocked \<and> saved \<and> wake_act wk saved t = enqueue_flag (t\<lparr>word := state_word Ready False, wreason := NoWait, owed := True\<rparr>)
    \<or> wake_act wk saved t = t\<lparr>word := state_word s True, owed := True\<rparr> \<or> wake_act wk saved t = t"
  using assms by (simp add: wake_act_def)

lemma winv_step:
  assumes "winv t" "wstep e t = Some u" "\<not> wakes_split e" "\<not> reaps_split e"
  shows "winv u"
proof -
  obtain s b where w: "word t = state_word s b"
    using assms(1) by (auto simp: winv_def word_ok_def)
  note t = assms(1) [unfolded winv_def w, simplified]
  have u: "place t = Exec \<or> place t = Choosing \<Longrightarrow> (s = Running \<or> s = Blocked) \<and> saving t = (s = Blocked) \<and> \<not> queued t \<and> \<not> claimed t"
      "place t = Blocking \<Longrightarrow> (s = Running \<or> s = Blocked) \<and> saving t \<and> \<not> queued t \<and> \<not> claimed t"
      "place t = Leaving \<or> place t = Parked \<Longrightarrow> saving t = (place t = Leaving)
         \<and> (s = Ready \<and> queued t \<noteq> claimed t \<or> s = Blocked \<and> \<not> queued t \<and> \<not> claimed t)"
      "\<not> twice t" "owed t \<Longrightarrow> b \<or> s = Ready"
    using t by (auto split: if_splits)
  show ?thesis
  proof (cases e)
    case (Block r)
    then have g: "place t = Exec" "u = block_begin r t"
      using assms(2) by (simp_all split: if_splits)
    then show ?thesis
      using u by (simp add: winv_def w block_begin_def)
  next
    case Commit
    then have g: "place t = Blocking" "u = block_commit t"
      using assms(2) by (simp_all split: if_splits)
    then show ?thesis
      using u(2,4,5) by (cases b) (auto simp: winv_def w block_commit_def)
  next
    case Tick
    then have g: "place t = Exec" "u = t\<lparr>place := Choosing\<rparr>"
      using assms(2) by (simp_all split: if_splits)
    then show ?thesis
      using u by (simp add: winv_def w )
  next
    case NoOther
    then have g: "place t = Choosing" "u = t\<lparr>place := Exec\<rparr>"
      using assms(2) by (simp_all split: if_splits)
    then show ?thesis
      using u by (simp add: winv_def w )
  next
    case Stay
    then have g: "place t = Choosing" "queued t" "u = t\<lparr>queued := False, place := Exec\<rparr>"
      using assms(2) by (simp_all split: if_splits)
    then show ?thesis
      using u by (simp add: winv_def w )
  next
    case Leave
    then have g: "place t = Choosing" "u = switch_away t"
      using assms(2) by (simp_all split: if_splits)
    then show ?thesis
      using u(1,4,5) by (cases s; cases b) (auto simp: winv_def w switch_away_def enqueue_flag_def pack_state_word)
  next
    case Saved
    then have g: "place t = Leaving" "u = context_saved t"
      using assms(2) by (simp_all split: if_splits)
    then show ?thesis
      using u by (simp add: winv_def w context_saved_def)
  next
    case Claim
    then have g: "queued t" "u = t\<lparr>queued := False, claimed := True\<rparr>"
      using assms(2) by (simp_all split: if_splits)
    then show ?thesis
      using u by (cases "place t") (simp_all add: winv_def w)
  next
    case Run
    then have g: "claimed t" "\<not> saving t" "u = activate t"
      using assms(2) by (simp_all split: if_splits)
    then show ?thesis
      using u by (cases "place t") (simp_all add: winv_def w activate_def)
  next
    case (Wake wk)
    then have "u = wake_act wk (\<not> saving t) t"
      using assms(2) by simp
    then consider (dispatched) "s = Blocked" "\<not> saving t"
          "u = enqueue_flag (t\<lparr>word := state_word Ready False, wreason := NoWait, owed := True\<rparr>)"
      | (stamped) "u = t\<lparr>word := state_word s True, owed := True\<rparr>" | (same) "u = t"
      using wake_act_cases [OF w, where wk = wk and saved = "\<not> saving t"] by argo
    then show ?thesis
    proof cases
      case dispatched
      then have "place t = Parked" "\<not> queued t" "\<not> claimed t"
        using u(1,2,3) by (cases "place t"; simp)+
      then show ?thesis
        using dispatched u(4) by (simp add: winv_def enqueue_flag_def)
    next
      case stamped
      then show ?thesis
        using u by (cases "place t") (simp_all add: winv_def)
    next
      case same
      then show ?thesis
        using assms(1) by simp
    qed
  next
    case Reap
    then have r: "s = Blocked" "b" "\<not> saving t" "place t = Leaving \<or> place t = Parked" "u = reap_act t"
      using assms(2) by (cases "place t"; simp add: reap_check_def w split: if_splits)+
    then show ?thesis
      using u(3,4) by (simp add: winv_def reap_act_def enqueue_flag_def w)
  qed (use assms(3,4) in simp_all)
qed

lemma winv_reach:
  assumes "wreach allowed t u" "winv t" "\<And>e. allowed e \<Longrightarrow> \<not> wakes_split e \<and> \<not> reaps_split e"
  shows "winv u"
  using assms
proof (induction rule: wreach.induct)
  case (wreach_step t u e v)
  then show ?case
    using winv_step [of u e v] by simp
qed


definition wpath :: "event list \<Rightarrow> wtask \<Rightarrow> wtask option" where
  "wpath es t = foldl (\<lambda>r e. Option.bind r (wstep e)) (Some t) es"

lemma wpath_None [simp]: "foldl (\<lambda>r e. Option.bind r (wstep e)) None es = None"
  by (induction es) simp_all

lemma wreach_path:
  "wpath es t = Some u \<Longrightarrow> list_all allowed es \<Longrightarrow> wreach allowed t u"
proof (induction es arbitrary: u rule: rev_induct)
  case (snoc e es)
  then obtain v where "wpath es t = Some v" "wstep e v = Some u"
    by (cases "wpath es t") (auto simp: wpath_def)
  then show ?case
    using snoc by (auto intro: wreach_step)
qed (simp add: wpath_def wreach_refl)

lemmas wpath_eval = wpath_def wtask_running_def block_begin_def block_commit_def switch_away_def context_saved_def
  activate_def wake_act_def reap_check_def reap_act_def enqueue_flag_def wake_pred_def wake_stamps_def
  pack_state_word Let_def


section \<open>The checks of wakers and reapers go stale\<close>

text \<open>A ready task that is in no queue, claimed by nobody and executed by no hart stays so.\<close>

definition stranded :: "wtask \<Rightarrow> bool" where
  "stranded t \<longleftrightarrow> place t = Parked \<and> \<not> queued t \<and> \<not> claimed t \<and> word_ok (word t) \<and> state_of (word t) = Ready"

lemma stranded_step:
  assumes "stranded t" "wstep e t = Some u"
  shows "stranded u"
proof -
  obtain b where w: "word t = state_word Ready b"
    using assms(1) by (auto simp: stranded_def word_ok_def)
  show ?thesis
    using assms w by (cases e) (auto simp: stranded_def wake_act_def reap_check_def reap_act_def split: if_splits)
qed

lemma stranded_reach: "wreach allowed t u \<Longrightarrow> stranded t \<Longrightarrow> stranded u"
  by (induction rule: wreach.induct) (auto intro: stranded_step)



end
