(* ===== verification/Sched_Queue.thy ===== *)
theory Sched_Queue
  imports Bounded_Fifo Sched_Wake
begin

text \<open>
  The ready queues of the scheduler (\<open>cpu_enqueue\<close>, \<open>cpu_dequeue\<close>, \<open>cpu_peek_highest_prio\<close>,
  \<open>cpu_remove\<close> and the priority changes of \<open>crates/sched/src/scheduler.rs\<close>): per hart a ring for each
  of the 32 priorities and a bitmap of the rings that hold something, over one pool of tasks whose
  \<open>queued\<close> flag says that the task sits in a ring.  The operations run under the lock of the
  hart's queue and are atomic steps.  \<open>HART_TP\<close> is the register \<open>tp\<close> of each hart, from which
  \<open>current_cpu_id\<close> reads the number of the hart, and \<open>EXECUTES\<close> the task whose registers the hart
  holds.  The size of the pool and of each ring is the configured
  \<open>MAX_TASKS\<close>, the length of the pool.
\<close>

definition NUM_PRIORITIES :: nat where "NUM_PRIORITIES = 32"
definition MAX_CPUS :: nat where "MAX_CPUS = 4"
definition RT_PRIORITY_THRESHOLD :: u32 where "RT_PRIORITY_THRESHOLD = 12"
definition RT_TIME_SLICE_TICKS :: u32 where "RT_TIME_SLICE_TICKS = 0"
definition TIME_SLICE_TICKS :: u32 where "TIME_SLICE_TICKS = 1"

definition is_rt_priority :: "u32 \<Rightarrow> bool" where
  "is_rt_priority prio \<longleftrightarrow> prio < RT_PRIORITY_THRESHOLD"

record DeadlineParams =
  period_us :: u64
  runtime_us :: u64
  abs_deadline :: u64
  remaining :: u64

record Task =
  tk_tid :: u32
  state_wd :: u32
  priority :: u32
  base_priority :: u32
  time_slice :: u32
  cpu_affinity :: int
  context_tp :: nat
  total_runtime :: u64
  deadline :: DeadlineParams
  donation_count :: u32
  tk_queued :: bool
  wait_reason :: WaitReason
  context_saving :: bool

record PrioQueue =
  pq_buf :: "nat list"
  pq_head :: nat
  pq_tail :: nat
  pq_count :: nat

record PerCpuSched =
  current_idx :: "nat option"
  ready_bitmap :: u32
  ready_queues :: "PrioQueue list"

record Sched =
  TASKS :: "Task list"
  TASK_VALID :: "bool list"
  PER_CPU :: "PerCpuSched list"
  NUM_ONLINE_CPUS :: nat
  DEADLINE_TICK_COUNTER :: u64
  NEXT_TID :: u32
  PREEMPT_COUNT :: "u32 list"
  HART_TP :: "nat list"
  EXECUTES :: "nat option list"

definition EMPTY_PRIO_QUEUE :: "nat \<Rightarrow> PrioQueue" where
  "EMPTY_PRIO_QUEUE n = \<lparr>pq_buf = replicate n 0, pq_head = 0, pq_tail = 0, pq_count = 0\<rparr>"

definition EMPTY_CPU :: "nat \<Rightarrow> PerCpuSched" where
  "EMPTY_CPU n = \<lparr>current_idx = None, ready_bitmap = 0, ready_queues = replicate NUM_PRIORITIES (EMPTY_PRIO_QUEUE n)\<rparr>"

definition sched_boot :: "Task list \<Rightarrow> bool list \<Rightarrow> nat \<Rightarrow> Sched" where
  "sched_boot ts valid online =
     \<lparr>TASKS = map (\<lambda>t. t\<lparr>tk_queued := False\<rparr>) ts, TASK_VALID = valid,
      PER_CPU = replicate MAX_CPUS (EMPTY_CPU (length ts)), NUM_ONLINE_CPUS = online, DEADLINE_TICK_COUNTER = 0,
      NEXT_TID = 1, PREEMPT_COUNT = replicate MAX_CPUS 0, HART_TP = [0..<MAX_CPUS], EXECUTES = replicate MAX_CPUS None\<rparr>"

definition prio_bucket :: "u32 \<Rightarrow> nat" where
  "prio_bucket prio = min (unat prio) (NUM_PRIORITIES - 1)"

definition trailing_zeros :: "u32 \<Rightarrow> nat" where
  "trailing_zeros w = (case find (bit w) [0..<32] of None \<Rightarrow> 32 | Some i \<Rightarrow> i)"

datatype EnqueueOutcome = Append | AlreadyQueued | Full

definition enqueue_decision :: "bool \<Rightarrow> nat \<Rightarrow> nat \<Rightarrow> EnqueueOutcome" where
  "enqueue_decision already_queued count capacity =
     (if already_queued then AlreadyQueued else if count \<ge> capacity then Full else Append)"

section \<open>One ring\<close>

definition pq_put :: "PrioQueue \<Rightarrow> nat \<Rightarrow> PrioQueue" where
  "pq_put q idx =
     q\<lparr>pq_buf := (pq_buf q)[pq_tail q := idx], pq_tail := (pq_tail q + 1) mod length (pq_buf q), pq_count := pq_count q + 1\<rparr>"

definition pq_get :: "PrioQueue \<Rightarrow> nat \<times> PrioQueue" where
  "pq_get q = (pq_buf q ! pq_head q, q\<lparr>pq_head := (pq_head q + 1) mod length (pq_buf q), pq_count := pq_count q - 1\<rparr>)"

fun pq_scan :: "nat \<Rightarrow> bool \<Rightarrow> nat list \<Rightarrow> nat list \<times> bool" where
  "pq_scan idx found [] = ([], found)"
| "pq_scan idx found (e # es) =
     (if e = idx \<and> \<not> found then pq_scan idx True es
      else let (tmp, found) = pq_scan idx found es in (e # tmp, found))"

definition pq_remove :: "PrioQueue \<Rightarrow> nat \<Rightarrow> bool \<times> PrioQueue" where
  "pq_remove q idx =
     (let n = min (pq_count q) (length (pq_buf q));
          (tmp, found) = pq_scan idx False (map (\<lambda>j. pq_buf q ! ((pq_head q + j) mod length (pq_buf q))) [0..<n])
      in if found
         then (True, q\<lparr>pq_buf := copy_at (pq_buf q) 0 tmp, pq_head := 0, pq_tail := length tmp mod length (pq_buf q),
                       pq_count := length tmp\<rparr>)
         else (False, q))"

section \<open>The queues of one hart\<close>

definition upd_queue :: "PerCpuSched \<Rightarrow> nat \<Rightarrow> PrioQueue \<Rightarrow> PerCpuSched" where
  "upd_queue c prio q = c\<lparr>ready_queues := (ready_queues c)[prio := q]\<rparr>"

definition set_ready :: "PerCpuSched \<Rightarrow> nat \<Rightarrow> PerCpuSched" where
  "set_ready c prio = c\<lparr>ready_bitmap := ready_bitmap c OR push_bit prio 1\<rparr>"

definition clear_ready :: "PerCpuSched \<Rightarrow> nat \<Rightarrow> PerCpuSched" where
  "clear_ready c prio = c\<lparr>ready_bitmap := ready_bitmap c AND NOT (push_bit prio 1)\<rparr>"

definition upd_task :: "Sched \<Rightarrow> nat \<Rightarrow> (Task \<Rightarrow> Task) \<Rightarrow> Sched" where
  "upd_task st idx f = st\<lparr>TASKS := (TASKS st)[idx := f (TASKS st ! idx)]\<rparr>"

definition upd_cpu :: "Sched \<Rightarrow> nat \<Rightarrow> PerCpuSched \<Rightarrow> Sched" where
  "upd_cpu st cpu c = st\<lparr>PER_CPU := (PER_CPU st)[cpu := c]\<rparr>"

definition set_queued :: "Sched \<Rightarrow> nat \<Rightarrow> bool \<Rightarrow> Sched" where
  "set_queued st idx b = upd_task st idx (\<lambda>t. t\<lparr>tk_queued := b\<rparr>)"

definition cpu_enqueue :: "Sched \<Rightarrow> nat \<Rightarrow> nat \<Rightarrow> bool \<times> Sched" where
  "cpu_enqueue st cpu idx =
     (let prio = prio_bucket (priority (TASKS st ! idx));
          already = tk_queued (TASKS st ! idx);
          st = set_queued st idx True;
          c = PER_CPU st ! cpu;
          q = ready_queues c ! prio
      in case enqueue_decision already (pq_count q) (length (TASKS st)) of
           AlreadyQueued \<Rightarrow> (False, st)
         | Full \<Rightarrow> (False, set_queued st idx False)
         | Append \<Rightarrow> (True, upd_cpu st cpu (set_ready (upd_queue c prio (pq_put q idx)) prio)))"

definition cpu_dequeue :: "Sched \<Rightarrow> nat \<Rightarrow> nat option \<times> Sched" where
  "cpu_dequeue st cpu =
     (let c = PER_CPU st ! cpu in
      if ready_bitmap c = 0 then (None, st)
      else let prio = trailing_zeros (ready_bitmap c) in
        if prio \<ge> NUM_PRIORITIES then (None, st)
        else let q = ready_queues c ! prio in
          if pq_count q = 0 then (None, upd_cpu st cpu (clear_ready c prio))
          else let (idx, q) = pq_get q;
                   c = upd_queue c prio q;
                   c = (if pq_count q = 0 then clear_ready c prio else c);
                   st = upd_cpu st cpu c
               in (Some idx, if idx < length (TASKS st) then set_queued st idx False else st))"

definition cpu_peek_highest_prio :: "Sched \<Rightarrow> nat \<Rightarrow> nat option" where
  "cpu_peek_highest_prio st cpu =
     (let bitmap = ready_bitmap (PER_CPU st ! cpu) in if bitmap = 0 then None else Some (trailing_zeros bitmap))"

definition cpu_remove :: "Sched \<Rightarrow> nat \<Rightarrow> nat \<Rightarrow> bool \<times> Sched" where
  "cpu_remove st cpu idx =
     (let prio = prio_bucket (priority (TASKS st ! idx));
          c = PER_CPU st ! cpu;
          (found, q) = pq_remove (ready_queues c ! prio) idx
      in if found
         then let c = upd_queue c prio q;
                  c = (if pq_count q = 0 then clear_ready c prio else c)
              in (True, set_queued (upd_cpu st cpu c) idx False)
         else (False, st))"

section \<open>Changes of priority\<close>

definition sched_idx_for_tid :: "Sched \<Rightarrow> u32 \<Rightarrow> nat option" where
  "sched_idx_for_tid st tid =
     (if tid = 0 then None
      else find (\<lambda>i. TASK_VALID st ! i \<and> tk_tid (TASKS st ! i) = tid) [0..<length (TASKS st)])"

definition pi_boost_task :: "Sched \<Rightarrow> u32 \<Rightarrow> u32 \<Rightarrow> Sched" where
  "pi_boost_task st tid new_prio =
     (case find (\<lambda>i. TASK_VALID st ! i \<and> tk_tid (TASKS st ! i) = tid) [0..<length (TASKS st)] of
        None \<Rightarrow> st
      | Some i \<Rightarrow>
          upd_task st i (\<lambda>t. let t = t\<lparr>donation_count := donation_count t + 1\<rparr>
                             in if new_prio < priority t then t\<lparr>priority := new_prio\<rparr> else t))"

definition pi_restore_task :: "Sched \<Rightarrow> u32 \<Rightarrow> Sched" where
  "pi_restore_task st tid =
     (case find (\<lambda>i. TASK_VALID st ! i \<and> tk_tid (TASKS st ! i) = tid) [0..<length (TASKS st)] of
        None \<Rightarrow> st
      | Some i \<Rightarrow>
          upd_task st i (\<lambda>t. let left = saturating_sub (donation_count t) 1;
                                 t = t\<lparr>donation_count := left\<rparr>
                             in if left = 0 then t\<lparr>priority := base_priority t\<rparr> else t))"

definition rebucket :: "Sched \<Rightarrow> nat \<Rightarrow> nat \<Rightarrow> u32 \<Rightarrow> Sched" where
  "rebucket st cpu idx prio =
     (let (removed, st) = (if state_of (state_wd (TASKS st ! idx)) = Ready then cpu_remove st cpu idx else (False, st));
          st = upd_task st idx (\<lambda>t. t\<lparr>priority := prio\<rparr>)
      in if removed then snd (cpu_enqueue st cpu idx) else st)"

definition boost_ready_task :: "Sched \<Rightarrow> nat \<Rightarrow> u32 \<Rightarrow> u32 \<Rightarrow> Sched" where
  "boost_ready_task st cpu tid new_prio =
     (case sched_idx_for_tid st tid of
        None \<Rightarrow> st
      | Some idx \<Rightarrow>
          (let st = upd_task st idx (\<lambda>t. t\<lparr>donation_count := donation_count t + 1\<rparr>)
           in if new_prio < priority (TASKS st ! idx) then rebucket st cpu idx new_prio else st))"

definition restore_ready_task :: "Sched \<Rightarrow> nat \<Rightarrow> u32 \<Rightarrow> Sched" where
  "restore_ready_task st cpu tid =
     (case sched_idx_for_tid st tid of
        None \<Rightarrow> st
      | Some idx \<Rightarrow>
          (let left = saturating_sub (donation_count (TASKS st ! idx)) 1;
               st = upd_task st idx (\<lambda>t. t\<lparr>donation_count := left\<rparr>);
               base = base_priority (TASKS st ! idx)
           in if left > 0 then st
              else if priority (TASKS st ! idx) = base then st
              else rebucket st cpu idx base))"

section \<open>A ring is a bounded queue\<close>

definition pq_inv :: "nat \<Rightarrow> PrioQueue \<Rightarrow> bool" where
  "pq_inv n q \<longleftrightarrow> length (pq_buf q) = n \<and> pq_head q < n \<and> pq_count q \<le> n \<and> pq_tail q = (pq_head q + pq_count q) mod n"

definition pq_list :: "PrioQueue \<Rightarrow> nat list" where
  "pq_list q = ring_contents (pq_buf q) (pq_head q) (pq_count q)"

lemma length_pq_list [simp]: "length (pq_list q) = pq_count q"
  by (simp add: pq_list_def)

lemma pq_list_Nil: "pq_list q = [] \<longleftrightarrow> pq_count q = 0"
  by (metis length_0_conv length_pq_list)

lemma pq_put_refines:
  assumes "pq_inv n q" "pq_count q < n"
  shows "pq_inv n (pq_put q idx)" "pq_list (pq_put q idx) = pq_list q @ [idx]"
  using assms ring_contents_push [of "pq_count q" "pq_buf q" "pq_head q" idx]
  by (auto simp: pq_inv_def pq_put_def pq_list_def mod_Suc_eq)

lemma pq_get_refines:
  assumes "pq_inv n q" "pq_count q \<noteq> 0" "pq_get q = (idx, q')"
  shows "pq_inv n q'" "pq_list q = idx # pq_list q'" "pq_count q' = pq_count q - 1"
proof -
  obtain m where m: "pq_count q = Suc m"
    using assms(2) by (cases "pq_count q") simp_all
  have "0 < length (pq_buf q)"
    using assms(1) by (auto simp: pq_inv_def)
  then show "pq_inv n q'" "pq_list q = idx # pq_list q'" "pq_count q' = pq_count q - 1"
    using assms m ring_contents_pop [of "pq_buf q" "pq_head q" m]
    by (auto simp: pq_inv_def pq_get_def pq_list_def mod_add_left_eq)
qed

lemma pq_scan_eq: "pq_scan idx True es = (es, True)" "pq_scan idx False es = (remove1 idx es, idx \<in> set es)"
proof -
  show t: "pq_scan idx True es = (es, True)" for es
    by (induction es) simp_all
  show "pq_scan idx False es = (remove1 idx es, idx \<in> set es)"
    by (induction es) (auto simp: t)
qed

lemma pq_remove_refines:
  assumes "pq_inv n q"
  shows "pq_remove q idx = (True, q') \<Longrightarrow> idx \<in> set (pq_list q) \<and> pq_inv n q' \<and> pq_list q' = remove1 idx (pq_list q)"
    and "pq_remove q idx = (False, q') \<Longrightarrow> idx \<notin> set (pq_list q) \<and> q' = q"
proof -
  let ?xs = "remove1 idx (pq_list q)"
  have es: "map (\<lambda>j. pq_buf q ! ((pq_head q + j) mod length (pq_buf q))) [0..<min (pq_count q) (length (pq_buf q))] = pq_list q"
    using assms by (simp add: pq_inv_def pq_list_def ring_contents_def min_def)
  have eq: "pq_remove q idx =
      (if idx \<in> set (pq_list q)
       then (True, q\<lparr>pq_buf := ?xs @ drop (length ?xs) (pq_buf q), pq_head := 0, pq_tail := length ?xs mod n, pq_count := length ?xs\<rparr>)
       else (False, q))"
    unfolding pq_remove_def es Let_def pq_scan_eq using assms by (simp add: pq_inv_def copy_at_def)
  have fits: "length ?xs \<le> n" "0 < n"
    using assms by (auto simp: pq_inv_def length_remove1)
  then have "ring_contents (?xs @ drop (length ?xs) (pq_buf q)) 0 (length ?xs) = ?xs"
    using assms by (intro nth_equalityI) (auto simp: ring_contents_def pq_inv_def nth_append)
  then show "pq_remove q idx = (True, q') \<Longrightarrow> idx \<in> set (pq_list q) \<and> pq_inv n q' \<and> pq_list q' = ?xs"
    using assms fits unfolding eq by (auto simp: pq_inv_def pq_list_def [of "q\<lparr>pq_buf := _, pq_head := _, pq_tail := _, pq_count := _\<rparr>"] split: if_splits)
  show "pq_remove q idx = (False, q') \<Longrightarrow> idx \<notin> set (pq_list q) \<and> q' = q"
    unfolding eq by (auto split: if_splits)
qed

definition pq_push :: "nat \<Rightarrow> PrioQueue \<Rightarrow> PrioQueue option" where
  "pq_push idx q = (if pq_count q < length (pq_buf q) then Some (pq_put q idx) else None)"

definition pq_pop :: "PrioQueue \<Rightarrow> (nat \<times> PrioQueue) option" where
  "pq_pop q = (if pq_count q = 0 then None else Some (pq_get q))"

interpretation prio_ring: bounded_fifo "pq_inv n" pq_list n "\<lambda>_. True" pq_push pq_pop for n
proof
  show "pq_inv n q \<Longrightarrow> length (pq_list q) \<le> n" for q
    by (simp add: pq_inv_def)
  show "pq_inv n q \<Longrightarrow> pq_push x q = None \<longleftrightarrow> \<not> True \<or> length (pq_list q) = n" for x q
    by (auto simp: pq_inv_def pq_push_def)
  show "pq_inv n q \<Longrightarrow> pq_push x q = Some q' \<Longrightarrow> pq_inv n q' \<and> pq_list q' = pq_list q @ [x]" for x q q'
    using pq_put_refines [of n q x] by (auto simp: pq_push_def pq_inv_def split: if_splits)
  show "pq_inv n q \<Longrightarrow> pq_pop q = None \<longleftrightarrow> pq_list q = []" for q
    by (simp add: pq_pop_def pq_list_Nil)
  show "pq_inv n q \<Longrightarrow> pq_pop q = Some (x, q') \<Longrightarrow> pq_inv n q' \<and> pq_list q = x # pq_list q'" for x q q'
    using pq_get_refines [of n q x q'] by (auto simp: pq_pop_def split: if_splits)
qed

section \<open>The queues of a hart\<close>

definition cpu_inv :: "nat \<Rightarrow> PerCpuSched \<Rightarrow> bool" where
  "cpu_inv n c \<longleftrightarrow> length (ready_queues c) = NUM_PRIORITIES
     \<and> (\<forall>p<NUM_PRIORITIES. pq_inv n (ready_queues c ! p) \<and> (bit (ready_bitmap c) p \<longleftrightarrow> pq_list (ready_queues c ! p) \<noteq> []))"

definition cpu_list :: "PerCpuSched \<Rightarrow> nat \<Rightarrow> nat list" where
  "cpu_list c p = (if p < NUM_PRIORITIES then pq_list (ready_queues c ! p) else [])"

lemma bit_set_ready: "p < 32 \<Longrightarrow> bit (ready_bitmap (set_ready c prio)) p \<longleftrightarrow> bit (ready_bitmap c) p \<or> p = prio"
  by (auto simp: set_ready_def bit_or_iff bit_exp_iff possible_bit_word)

lemma bit_clear_ready: "p < 32 \<Longrightarrow> bit (ready_bitmap (clear_ready c prio)) p \<longleftrightarrow> bit (ready_bitmap c) p \<and> p \<noteq> prio"
  by (auto simp: clear_ready_def bit_and_iff bit_not_iff bit_exp_iff possible_bit_word)

lemma ready_queues_simps [simp]:
  "ready_queues (set_ready c p) = ready_queues c" "ready_queues (clear_ready c p) = ready_queues c"
  "ready_queues (upd_queue c p q) = (ready_queues c)[p := q]" "ready_bitmap (upd_queue c p q) = ready_bitmap c"
  "cpu_list (set_ready c p) = cpu_list c" "cpu_list (clear_ready c p) = cpu_list c"
  by (simp_all add: set_ready_def clear_ready_def upd_queue_def cpu_list_def fun_eq_iff)

lemma cpu_list_upd:
  "length (ready_queues c) = NUM_PRIORITIES \<Longrightarrow> p < NUM_PRIORITIES \<Longrightarrow> cpu_list (upd_queue c p q) = (cpu_list c)(p := pq_list q)"
  by (auto simp: cpu_list_def upd_queue_def)

lemma cpu_inv_put:
  assumes "cpu_inv n c" "p < NUM_PRIORITIES" "pq_inv n q" "pq_list q \<noteq> []"
  shows "cpu_inv n (set_ready (upd_queue c p q) p)"
  using assms by (auto simp: cpu_inv_def bit_set_ready NUM_PRIORITIES_def nth_list_update)

lemma cpu_inv_take:
  assumes "cpu_inv n c" "p < NUM_PRIORITIES" "pq_inv n q" "bit (ready_bitmap c) p"
  shows "cpu_inv n (if pq_count q = 0 then clear_ready (upd_queue c p q) p else upd_queue c p q)"
  using assms by (auto simp: cpu_inv_def bit_clear_ready NUM_PRIORITIES_def nth_list_update pq_list_Nil)

section \<open>All queues over the pool\<close>

text \<open>
  Queues are in order over a pool of \<open>n\<close> tasks when every entry is a task of the pool, no task has
  two entries, and a task is flagged exactly when it has an entry.
\<close>

definition queues_ok :: "nat \<Rightarrow> (nat \<Rightarrow> bool) \<Rightarrow> (nat \<Rightarrow> nat \<Rightarrow> nat list) \<Rightarrow> bool" where
  "queues_ok n flag q \<longleftrightarrow>
     (\<forall>c p. distinct (q c p)) \<and> (\<forall>c p i. i \<in> set (q c p) \<longrightarrow> i < n \<and> flag i)
     \<and> (\<forall>i<n. flag i \<longrightarrow> (\<exists>c p. i \<in> set (q c p)))
     \<and> (\<forall>c p c' p' i. i \<in> set (q c p) \<longrightarrow> i \<in> set (q c' p') \<longrightarrow> c = c' \<and> p = p')"

definition upd_q :: "(nat \<Rightarrow> nat \<Rightarrow> nat list) \<Rightarrow> nat \<Rightarrow> nat \<Rightarrow> nat list \<Rightarrow> nat \<Rightarrow> nat \<Rightarrow> nat list" where
  "upd_q q c p xs = q(c := (q c)(p := xs))"

lemma upd_q_apply: "upd_q q c p xs c' p' = (if c' = c \<and> p' = p then xs else q c' p')"
  by (simp add: upd_q_def)

lemma queues_ok_add:
  assumes "queues_ok n flag q" "i < n" "\<not> flag i"
  shows "queues_ok n (flag(i := True)) (upd_q q c p (q c p @ [i]))"
proof -
  have "i \<notin> set (q c' p')" for c' p'
    using assms unfolding queues_ok_def by blast
  then show ?thesis
    using assms unfolding queues_ok_def by (auto simp: upd_q_apply) metis
qed

lemma queues_ok_del:
  assumes "queues_ok n flag q" "i \<in> set (q c p)"
  shows "queues_ok n (flag(i := False)) (upd_q q c p (remove1 i (q c p)))"
proof -
  have d: "distinct (q c' p')" "j \<in> set (q c' p') \<Longrightarrow> j < n \<and> flag j"
      "j < n \<Longrightarrow> flag j \<Longrightarrow> \<exists>c p. j \<in> set (q c p)"
      "j \<in> set (q c' p') \<Longrightarrow> j \<in> set (q c'' p'') \<Longrightarrow> c' = c'' \<and> p' = p''" for c' p' c'' p'' j
    using assms(1) unfolding queues_ok_def by blast+
  have "i \<in> set (q c' p') \<Longrightarrow> c' = c \<and> p' = p" for c' p'
    using d(4) assms(2) by blast
  moreover have "\<exists>c' p'. j \<in> set (upd_q q c p (remove1 i (q c p)) c' p')" if "j < n" "flag j" "j \<noteq> i" for j
  proof -
    from d(3) that(1,2) obtain c' p' where "j \<in> set (q c' p')"
      by blast
    then have "j \<in> set (upd_q q c p (remove1 i (q c p)) c' p')"
      using d(1) that(3) by (auto simp: upd_q_apply)
    then show ?thesis
      by blast
  qed
  ultimately show ?thesis
    unfolding queues_ok_def using d(1,2,4) by (auto simp: upd_q_apply)
qed

lemma queues_ok_room:
  assumes "queues_ok n flag q" "i < n" "\<not> flag i"
  shows "length (q c p) < n"
proof -
  have s: "distinct (q c p)" "set (q c p) \<subseteq> {..<n} - {i}"
    using assms unfolding queues_ok_def by blast+
  then have "length (q c p) \<le> card ({..<n} - {i})"
    by (metis card_mono distinct_card finite_Diff finite_lessThan)
  then show ?thesis
    using assms(2) by simp
qed

lemma queues_ok_flag: "queues_ok n flag q \<Longrightarrow> i < n \<Longrightarrow> flag i \<longleftrightarrow> (\<exists>c p. i \<in> set (q c p))"
  unfolding queues_ok_def by blast

section \<open>The abstract scheduler queue\<close>

record sched_spec =
  sp_tasks :: "Task list"
  sp_valid :: "bool list"
  sp_queues :: "nat \<Rightarrow> nat \<Rightarrow> nat list"

definition sp_occurs :: "sched_spec \<Rightarrow> nat \<Rightarrow> bool" where
  "sp_occurs s i \<longleftrightarrow> list_ex (\<lambda>c. list_ex (\<lambda>p. i \<in> set (sp_queues s c p)) [0..<NUM_PRIORITIES]) [0..<MAX_CPUS]"

definition sp_set :: "sched_spec \<Rightarrow> nat \<Rightarrow> nat \<Rightarrow> nat list \<Rightarrow> sched_spec" where
  "sp_set s c p xs = s\<lparr>sp_queues := upd_q (sp_queues s) c p xs\<rparr>"

definition sp_task :: "sched_spec \<Rightarrow> nat \<Rightarrow> (Task \<Rightarrow> Task) \<Rightarrow> sched_spec" where
  "sp_task s i f = s\<lparr>sp_tasks := (sp_tasks s)[i := f (sp_tasks s ! i)]\<rparr>"

definition sp_level :: "sched_spec \<Rightarrow> nat \<Rightarrow> nat" where
  "sp_level s i = prio_bucket (priority (sp_tasks s ! i))"

definition sp_enqueue :: "sched_spec \<Rightarrow> nat \<Rightarrow> nat \<Rightarrow> bool \<times> sched_spec" where
  "sp_enqueue s c i =
     (if sp_occurs s i then (False, s) else (True, sp_set s c (sp_level s i) (sp_queues s c (sp_level s i) @ [i])))"

definition sp_dequeue :: "sched_spec \<Rightarrow> nat \<Rightarrow> nat option \<times> sched_spec" where
  "sp_dequeue s c =
     (case find (\<lambda>p. sp_queues s c p \<noteq> []) [0..<NUM_PRIORITIES] of
        None \<Rightarrow> (None, s)
      | Some p \<Rightarrow> (Some (hd (sp_queues s c p)), sp_set s c p (tl (sp_queues s c p))))"

definition sp_find :: "sched_spec \<Rightarrow> u32 \<Rightarrow> nat option" where
  "sp_find s tid = find (\<lambda>i. sp_valid s ! i \<and> tk_tid (sp_tasks s ! i) = tid) [0..<length (sp_tasks s)]"

definition sp_rebucket :: "sched_spec \<Rightarrow> nat \<Rightarrow> nat \<Rightarrow> u32 \<Rightarrow> sched_spec" where
  "sp_rebucket s c i prio =
     (let p = sp_level s i in
      if state_of (state_wd (sp_tasks s ! i)) = Ready \<and> i \<in> set (sp_queues s c p)
      then let s = sp_task (sp_set s c p (remove1 i (sp_queues s c p))) i (\<lambda>t. t\<lparr>priority := prio\<rparr>);
               p = sp_level s i
           in sp_set s c p (sp_queues s c p @ [i])
      else sp_task s i (\<lambda>t. t\<lparr>priority := prio\<rparr>))"

datatype q_op =
    Enqueue nat nat | Dequeue nat | PiBoost u32 u32 | PiRestore u32 | BoostReady nat u32 u32 | RestoreReady nat u32

datatype q_out = Queued bool | Next "nat option" | Done

fun q_step :: "Sched \<Rightarrow> q_op \<Rightarrow> q_out \<times> Sched" where
  "q_step st (Enqueue cpu idx) = (case cpu_enqueue st cpu idx of (b, st') \<Rightarrow> (Queued b, st'))"
| "q_step st (Dequeue cpu) = (case cpu_dequeue st cpu of (r, st') \<Rightarrow> (Next r, st'))"
| "q_step st (PiBoost tid prio) = (Done, pi_boost_task st tid prio)"
| "q_step st (PiRestore tid) = (Done, pi_restore_task st tid)"
| "q_step st (BoostReady cpu tid prio) = (Done, boost_ready_task st cpu tid prio)"
| "q_step st (RestoreReady cpu tid) = (Done, restore_ready_task st cpu tid)"

fun sp_step :: "sched_spec \<Rightarrow> q_op \<Rightarrow> q_out \<times> sched_spec" where
  "sp_step s (Enqueue c i) = (case sp_enqueue s c i of (b, s') \<Rightarrow> (Queued b, s'))"
| "sp_step s (Dequeue c) = (case sp_dequeue s c of (r, s') \<Rightarrow> (Next r, s'))"
| "sp_step s (PiBoost tid prio) =
     (Done, case sp_find s tid of None \<Rightarrow> s
            | Some i \<Rightarrow> sp_task s i (\<lambda>t. t\<lparr>donation_count := donation_count t + 1, priority := min prio (priority t)\<rparr>))"
| "sp_step s (PiRestore tid) =
     (Done, case sp_find s tid of None \<Rightarrow> s
            | Some i \<Rightarrow> sp_task s i (\<lambda>t. let n = saturating_sub (donation_count t) 1
                in t\<lparr>donation_count := n, priority := (if n = 0 then base_priority t else priority t)\<rparr>))"
| "sp_step s (BoostReady c tid prio) =
     (Done, case (if tid = 0 then None else sp_find s tid) of None \<Rightarrow> s
            | Some i \<Rightarrow> (let s = sp_task s i (\<lambda>t. t\<lparr>donation_count := donation_count t + 1\<rparr>)
                in if prio < priority (sp_tasks s ! i) then sp_rebucket s c i prio else s))"
| "sp_step s (RestoreReady c tid) =
     (Done, case (if tid = 0 then None else sp_find s tid) of None \<Rightarrow> s
            | Some i \<Rightarrow> (let n = saturating_sub (donation_count (sp_tasks s ! i)) 1;
                    s = sp_task s i (\<lambda>t. t\<lparr>donation_count := n\<rparr>)
                in if n = 0 \<and> priority (sp_tasks s ! i) \<noteq> base_priority (sp_tasks s ! i)
                   then sp_rebucket s c i (base_priority (sp_tasks s ! i)) else s))"

fun q_run :: "Sched \<Rightarrow> q_op list \<Rightarrow> q_out list \<times> Sched" where
  "q_run st [] = ([], st)"
| "q_run st (x # xs) = (case q_step st x of (y, st) \<Rightarrow> case q_run st xs of (ys, st) \<Rightarrow> (y # ys, st))"

fun sp_run :: "sched_spec \<Rightarrow> q_op list \<Rightarrow> q_out list \<times> sched_spec" where
  "sp_run s [] = ([], s)"
| "sp_run s (x # xs) = (case sp_step s x of (y, s) \<Rightarrow> case sp_run s xs of (ys, s) \<Rightarrow> (y # ys, s))"

fun q_op_ok :: "nat \<Rightarrow> q_op \<Rightarrow> bool" where
  "q_op_ok n (Enqueue cpu idx) \<longleftrightarrow> cpu < MAX_CPUS \<and> idx < n"
| "q_op_ok n (Dequeue cpu) \<longleftrightarrow> cpu < MAX_CPUS"
| "q_op_ok n (BoostReady cpu _ _) \<longleftrightarrow> cpu < MAX_CPUS"
| "q_op_ok n (RestoreReady cpu _) \<longleftrightarrow> cpu < MAX_CPUS"
| "q_op_ok n _ \<longleftrightarrow> True"

section \<open>Refinement\<close>

definition sched_queues :: "Sched \<Rightarrow> nat \<Rightarrow> nat \<Rightarrow> nat list" where
  "sched_queues st c p = (if c < MAX_CPUS then cpu_list (PER_CPU st ! c) p else [])"

definition sched_inv :: "Sched \<Rightarrow> bool" where
  "sched_inv st \<longleftrightarrow> length (TASK_VALID st) = length (TASKS st) \<and> length (PER_CPU st) = MAX_CPUS
     \<and> (\<forall>c<MAX_CPUS. cpu_inv (length (TASKS st)) (PER_CPU st ! c))
     \<and> queues_ok (length (TASKS st)) (\<lambda>i. tk_queued (TASKS st ! i)) (sched_queues st)"

definition unflag :: "Task \<Rightarrow> Task" where
  "unflag t = t\<lparr>tk_queued := False\<rparr>"

definition sched_abs :: "Sched \<Rightarrow> sched_spec" where
  "sched_abs st = \<lparr>sp_tasks = map unflag (TASKS st), sp_valid = TASK_VALID st, sp_queues = sched_queues st\<rparr>"

lemma sched_abs_simps [simp]:
  "sp_tasks (sched_abs st) = map unflag (TASKS st)" "sp_valid (sched_abs st) = TASK_VALID st"
  "sp_queues (sched_abs st) = sched_queues st"
  by (simp_all add: sched_abs_def)

lemma unflag_simps [simp]:
  "tk_tid (unflag t) = tk_tid t" "priority (unflag t) = priority t" "base_priority (unflag t) = base_priority t"
  "donation_count (unflag t) = donation_count t" "state_wd (unflag t) = state_wd t"
  by (simp_all add: unflag_def)

lemma prio_bucket_less: "prio_bucket p < NUM_PRIORITIES"
  by (simp add: prio_bucket_def NUM_PRIORITIES_def)

lemma sched_fields [simp]:
  "TASKS (upd_cpu st cpu c) = TASKS st" "TASK_VALID (upd_cpu st cpu c) = TASK_VALID st"
  "PER_CPU (upd_cpu st cpu c) = (PER_CPU st)[cpu := c]"
  "TASKS (upd_task st i f) = (TASKS st)[i := f (TASKS st ! i)]" "TASK_VALID (upd_task st i f) = TASK_VALID st"
  "PER_CPU (upd_task st i f) = PER_CPU st" "sched_queues (upd_task st i f) = sched_queues st"
  by (simp_all add: upd_cpu_def upd_task_def sched_queues_def fun_eq_iff)

lemma set_queued_fields [simp]:
  "TASKS (set_queued st i b) = (TASKS st)[i := (TASKS st ! i)\<lparr>tk_queued := b\<rparr>]" "TASK_VALID (set_queued st i b) = TASK_VALID st"
  "PER_CPU (set_queued st i b) = PER_CPU st" "sched_queues (set_queued st i b) = sched_queues st"
  by (simp_all add: set_queued_def)

lemma sched_queues_upd_cpu:
  assumes "length (PER_CPU st) = MAX_CPUS" "cpu < MAX_CPUS" "cpu_list c = (cpu_list (PER_CPU st ! cpu))(p := xs)"
  shows "sched_queues (upd_cpu st cpu c) = upd_q (sched_queues st) cpu p xs"
  using assms by (auto simp: sched_queues_def upd_q_apply fun_eq_iff nth_list_update)

lemma upd_cpu_set_queued: "upd_cpu (set_queued st i b) cpu c = set_queued (upd_cpu st cpu c) i b"
  by (simp add: upd_cpu_def set_queued_def upd_task_def)

lemma sched_invD:
  assumes "sched_inv st" "cpu < MAX_CPUS"
  shows "length (PER_CPU st) = MAX_CPUS" "cpu_inv (length (TASKS st)) (PER_CPU st ! cpu)"
    "length (ready_queues (PER_CPU st ! cpu)) = NUM_PRIORITIES"
    "p < NUM_PRIORITIES \<Longrightarrow> pq_inv (length (TASKS st)) (ready_queues (PER_CPU st ! cpu) ! p)"
    "p < NUM_PRIORITIES \<Longrightarrow> bit (ready_bitmap (PER_CPU st ! cpu)) p \<longleftrightarrow> sched_queues st cpu p \<noteq> []"
    "p < NUM_PRIORITIES \<Longrightarrow> pq_list (ready_queues (PER_CPU st ! cpu) ! p) = sched_queues st cpu p"
    "p < NUM_PRIORITIES \<Longrightarrow> pq_count (ready_queues (PER_CPU st ! cpu) ! p) = length (sched_queues st cpu p)"
  using assms by (auto simp: sched_inv_def cpu_inv_def sched_queues_def cpu_list_def)

lemma sched_inv_queues: "sched_inv st \<Longrightarrow> queues_ok (length (TASKS st)) (\<lambda>i. tk_queued (TASKS st ! i)) (sched_queues st)"
  by (simp add: sched_inv_def)

lemma queues_ok_cong:
  "(\<And>i. i < n \<Longrightarrow> f i = g i) \<Longrightarrow> queues_ok n f q = queues_ok n g q"
  unfolding queues_ok_def by blast

lemma sched_change:
  assumes "sched_inv st" "cpu < MAX_CPUS" "i < length (TASKS st)" "cpu_inv (length (TASKS st)) c"
    "cpu_list c = (cpu_list (PER_CPU st ! cpu))(p := xs)"
    "queues_ok (length (TASKS st)) ((\<lambda>i. tk_queued (TASKS st ! i))(i := b)) (upd_q (sched_queues st) cpu p xs)"
  shows "sched_inv (set_queued (upd_cpu st cpu c) i b) \<and> sched_abs (set_queued (upd_cpu st cpu c) i b) = sp_set (sched_abs st) cpu p xs"
proof -
  have q: "sched_queues (upd_cpu st cpu c) = upd_q (sched_queues st) cpu p xs"
    using sched_queues_upd_cpu sched_invD(1) assms by blast
  have "queues_ok (length (TASKS st)) (\<lambda>j. tk_queued ((TASKS st)[i := (TASKS st ! i)\<lparr>tk_queued := b\<rparr>] ! j)) (upd_q (sched_queues st) cpu p xs)"
    using assms(6) by (subst queues_ok_cong [where g = "(\<lambda>i. tk_queued (TASKS st ! i))(i := b)"]) (simp_all add: nth_list_update)
  moreover have "map unflag ((TASKS st)[i := (TASKS st ! i)\<lparr>tk_queued := b\<rparr>]) = map unflag (TASKS st)"
    using assms(3) by (intro nth_equalityI) (auto simp: nth_list_update unflag_def)
  ultimately show ?thesis
    using assms(1,2,4) q by (auto simp: sched_inv_def sched_abs_def sp_set_def nth_list_update)
qed

lemma sp_occurs_iff:
  assumes "sched_inv st" "i < length (TASKS st)"
  shows "sp_occurs (sched_abs st) i \<longleftrightarrow> tk_queued (TASKS st ! i)"
proof -
  have "i \<in> set (sched_queues st c p) \<Longrightarrow> c < MAX_CPUS \<and> p < NUM_PRIORITIES" for c p
    by (auto simp: sched_queues_def cpu_list_def split: if_splits)
  then show ?thesis
    using queues_ok_flag [OF sched_inv_queues [OF assms(1)] assms(2)] by (simp add: sp_occurs_def list_ex_iff Bex_def) blast
qed

lemma set_queued_same: "idx < length (TASKS st) \<Longrightarrow> tk_queued (TASKS st ! idx) = b \<Longrightarrow> set_queued st idx b = st"
  by (cases st) (auto simp: set_queued_def upd_task_def list_update_same_conv)

lemma sp_level_abs [simp]: "i < length (TASKS st) \<Longrightarrow> sp_level (sched_abs st) i = prio_bucket (priority (TASKS st ! i))"
  by (simp add: sp_level_def)

lemma cpu_enqueue_refines:
  assumes "sched_inv st" "cpu < MAX_CPUS" "idx < length (TASKS st)" "cpu_enqueue st cpu idx = (b, st')"
  shows "sched_inv st' \<and> sp_enqueue (sched_abs st) cpu idx = (b, sched_abs st') \<and> length (TASKS st') = length (TASKS st)"
proof (cases "tk_queued (TASKS st ! idx)")
  case True
  then have "b = False" "st' = st"
    using assms(3,4) by (simp_all add: cpu_enqueue_def enqueue_decision_def set_queued_same Let_def)
  then show ?thesis
    using True assms by (simp add: sp_enqueue_def sp_occurs_iff)
next
  case False
  let ?p = "prio_bucket (priority (TASKS st ! idx))" and ?c = "PER_CPU st ! cpu"
  let ?q = "ready_queues ?c ! ?p"
  let ?c' = "set_ready (upd_queue ?c ?p (pq_put ?q idx)) ?p"
  note D = sched_invD [OF assms(1,2)] and Q = sched_inv_queues [OF assms(1)] and P = prio_bucket_less [of "priority (TASKS st ! idx)"]
  have room: "pq_count ?q < length (TASKS st)"
    using queues_ok_room [OF Q assms(3) False] D(7) [OF P] by simp
  then have r: "b = True" "st' = set_queued (upd_cpu st cpu ?c') idx True"
    using assms(3,4) False by (simp_all add: cpu_enqueue_def enqueue_decision_def Let_def upd_cpu_set_queued)
  note put = pq_put_refines [OF D(4) [OF P] room, of idx]
  have "cpu_inv (length (TASKS st)) ?c'" "cpu_list ?c' = (cpu_list ?c)(?p := sched_queues st cpu ?p @ [idx])"
    using cpu_inv_put [OF D(2) P put(1)] cpu_list_upd [OF D(3) P] put(2) D(6) [OF P] by simp_all
  then show ?thesis
    using sched_change [OF assms(1-3)] queues_ok_add [OF Q assms(3) False] False assms(1,3)
    by (simp add: r sp_enqueue_def sp_occurs_iff)
qed

lemma trailing_zeros_find:
  assumes "sched_inv st" "cpu < MAX_CPUS"
  shows "ready_bitmap (PER_CPU st ! cpu) = 0 \<Longrightarrow> find (\<lambda>p. sched_queues st cpu p \<noteq> []) [0..<NUM_PRIORITIES] = None"
    and "ready_bitmap (PER_CPU st ! cpu) \<noteq> 0 \<Longrightarrow>
      find (\<lambda>p. sched_queues st cpu p \<noteq> []) [0..<NUM_PRIORITIES] = Some (trailing_zeros (ready_bitmap (PER_CPU st ! cpu)))"
proof -
  let ?w = "ready_bitmap (PER_CPU st ! cpu)"
  have eq: "find (\<lambda>p. sched_queues st cpu p \<noteq> []) [0..<NUM_PRIORITIES] = find (bit ?w) [0..<NUM_PRIORITIES]"
    using sched_invD(5) [OF assms] by (intro find_cong) auto
  show "?w = 0 \<Longrightarrow> find (\<lambda>p. sched_queues st cpu p \<noteq> []) [0..<NUM_PRIORITIES] = None"
    unfolding eq by (simp add: find_None_iff)
  assume "?w \<noteq> 0"
  then have "\<exists>k<32. bit ?w k"
    using bit_word_eqI [of ?w 0] by auto
  then show "find (\<lambda>p. sched_queues st cpu p \<noteq> []) [0..<NUM_PRIORITIES] = Some (trailing_zeros ?w)"
    unfolding eq by (auto simp: trailing_zeros_def NUM_PRIORITIES_def find_None_iff split: option.split)
qed

lemma cpu_dequeue_refines:
  assumes "sched_inv st" "cpu < MAX_CPUS" "cpu_dequeue st cpu = (r, st')"
  shows "sched_inv st' \<and> sp_dequeue (sched_abs st) cpu = (r, sched_abs st') \<and> length (TASKS st') = length (TASKS st)"
proof (cases "ready_bitmap (PER_CPU st ! cpu) = 0")
  case True
  then show ?thesis
    using assms trailing_zeros_find(1) [OF assms(1,2)] by (simp add: cpu_dequeue_def sp_dequeue_def)
next
  case False
  let ?c = "PER_CPU st ! cpu"
  define p where "p = trailing_zeros (ready_bitmap ?c)"
  have f: "find (\<lambda>p. sched_queues st cpu p \<noteq> []) [0..<NUM_PRIORITIES] = Some p"
    unfolding p_def by (rule trailing_zeros_find(2) [OF assms(1,2) False])
  then have P: "p < NUM_PRIORITIES" and ne: "sched_queues st cpu p \<noteq> []"
    by (auto simp: find_Some_iff)
  note D = sched_invD [OF assms(1,2)] and Q = sched_inv_queues [OF assms(1)]
  obtain idx q where g: "pq_get (ready_queues ?c ! p) = (idx, q)"
    by (cases "pq_get (ready_queues ?c ! p)")
  note get = pq_get_refines [OF D(4) [OF P] _ g]
  have cnt: "pq_count (ready_queues ?c ! p) \<noteq> 0"
    using D(7) [OF P] ne by simp
  have L: "sched_queues st cpu p = idx # pq_list q"
    using get(2) [OF cnt] D(6) [OF P] by simp
  then have idx: "idx < length (TASKS st)"
    using Q unfolding queues_ok_def by (metis list.set_intros(1))
  let ?c' = "if pq_count q = 0 then clear_ready (upd_queue ?c p q) p else upd_queue ?c p q"
  have r: "r = Some idx" "st' = set_queued (upd_cpu st cpu ?c') idx False"
    using assms(3) False P cnt g idx by (simp_all add: cpu_dequeue_def Let_def flip: p_def split: if_splits)
  have "cpu_inv (length (TASKS st)) ?c'" "cpu_list ?c' = (cpu_list ?c)(p := pq_list q)"
    using cpu_inv_take [OF D(2) P get(1) [OF cnt]] D(5) [OF P] ne cpu_list_upd [OF D(3) P] by simp_all
  moreover have "queues_ok (length (TASKS st)) ((\<lambda>i. tk_queued (TASKS st ! i))(idx := False)) (upd_q (sched_queues st) cpu p (pq_list q))"
    using queues_ok_del [OF Q, of idx cpu p] L by simp
  ultimately show ?thesis
    using sched_change [OF assms(1,2) idx] f L by (simp add: r sp_dequeue_def)
qed

lemma cpu_remove_refines:
  assumes "sched_inv st" "cpu < MAX_CPUS" "idx < length (TASKS st)" "cpu_remove st cpu idx = (b, st')"
  defines "p \<equiv> prio_bucket (priority (TASKS st ! idx))"
  shows "b = (idx \<in> set (sched_queues st cpu p)) \<and> sched_inv st' \<and> length (TASKS st') = length (TASKS st)
    \<and> sched_abs st' = (if b then sp_set (sched_abs st) cpu p (remove1 idx (sched_queues st cpu p)) else sched_abs st)
    \<and> (b \<longrightarrow> \<not> tk_queued (TASKS st' ! idx))"
proof -
  let ?c = "PER_CPU st ! cpu"
  have P: "p < NUM_PRIORITIES"
    unfolding p_def by (rule prio_bucket_less)
  note D = sched_invD [OF assms(1,2)] and Q = sched_inv_queues [OF assms(1)]
  obtain found q where g: "pq_remove (ready_queues ?c ! p) idx = (found, q)"
    by (cases "pq_remove (ready_queues ?c ! p) idx")
  show ?thesis
  proof (cases found)
    case False
    then show ?thesis
      using pq_remove_refines(2) [OF D(4) [OF P], of idx q] g assms(1,4) D(6) [OF P]
      by (simp add: cpu_remove_def flip: p_def)
  next
    case True
    let ?c' = "if pq_count q = 0 then clear_ready (upd_queue ?c p q) p else upd_queue ?c p q"
    have rm: "idx \<in> set (sched_queues st cpu p)" "pq_inv (length (TASKS st)) q" "pq_list q = remove1 idx (sched_queues st cpu p)"
      using pq_remove_refines(1) [OF D(4) [OF P], of idx q] g True D(6) [OF P] by simp_all
    then have ne: "sched_queues st cpu p \<noteq> []"
      by auto
    have r: "b = True" "st' = set_queued (upd_cpu st cpu ?c') idx False"
      using assms(4) g True by (simp_all add: cpu_remove_def Let_def flip: p_def)
    have "cpu_inv (length (TASKS st)) ?c'" "cpu_list ?c' = (cpu_list ?c)(p := pq_list q)"
      using cpu_inv_take [OF D(2) P rm(2)] D(5) [OF P] ne cpu_list_upd [OF D(3) P] by simp_all
    then show ?thesis
      using sched_change [OF assms(1-3)] queues_ok_del [OF Q rm(1)] rm assms(3) by (simp add: r)
  qed
qed

lemma upd_task_refines:
  assumes "sched_inv st" "i < length (TASKS st)" "\<And>t. tk_queued (f t) = tk_queued t" "\<And>t. unflag (f t) = f (unflag t)"
  shows "sched_inv (upd_task st i f)" "sched_abs (upd_task st i f) = sp_task (sched_abs st) i f"
proof -
  have "(\<lambda>j. tk_queued ((TASKS st)[i := f (TASKS st ! i)] ! j)) = (\<lambda>j. tk_queued (TASKS st ! j))"
    using assms(2,3) by (auto simp: fun_eq_iff nth_list_update)
  then show "sched_inv (upd_task st i f)"
    using assms(1) by (simp add: sched_inv_def)
  show "sched_abs (upd_task st i f) = sp_task (sched_abs st) i f"
    using assms(2,4) by (simp add: sched_abs_def sp_task_def map_update)
qed

lemma sp_rebucket_enqueue:
  assumes "sched_inv st" "cpu < MAX_CPUS" "idx < length (TASKS st)" "\<not> tk_queued (TASKS st ! idx)"
  shows "sched_inv (snd (cpu_enqueue st cpu idx)) \<and> length (TASKS (snd (cpu_enqueue st cpu idx))) = length (TASKS st)
    \<and> sched_abs (snd (cpu_enqueue st cpu idx)) =
        sp_set (sched_abs st) cpu (sp_level (sched_abs st) idx) (sched_queues st cpu (sp_level (sched_abs st) idx) @ [idx])"
proof (cases "cpu_enqueue st cpu idx")
  case (Pair b st')
  then show ?thesis
    using cpu_enqueue_refines [OF assms(1-3) Pair] sp_occurs_iff [OF assms(1,3)] assms(4)
    by (auto simp: sp_enqueue_def)
qed

lemma set_priority_refines:
  assumes "sched_inv st" "i < length (TASKS st)"
  shows "sched_inv (upd_task st i (\<lambda>t. t\<lparr>priority := prio\<rparr>))"
    "sched_abs (upd_task st i (\<lambda>t. t\<lparr>priority := prio\<rparr>)) = sp_task (sched_abs st) i (\<lambda>t. t\<lparr>priority := prio\<rparr>)"
  using assms by (intro upd_task_refines; simp add: unflag_def)+

lemma rebucket_refines:
  assumes "sched_inv st" "cpu < MAX_CPUS" "idx < length (TASKS st)"
  shows "sched_inv (rebucket st cpu idx prio) \<and> sched_abs (rebucket st cpu idx prio) = sp_rebucket (sched_abs st) cpu idx prio
    \<and> length (TASKS (rebucket st cpu idx prio)) = length (TASKS st)"
proof (cases "cpu_remove st cpu idx")
  case (Pair b st1)
  note rm = cpu_remove_refines [OF assms Pair]
  let ?st2 = "upd_task st1 idx (\<lambda>t. t\<lparr>priority := prio\<rparr>)"
  have i1: "sched_inv st1" "idx < length (TASKS st1)"
    using rm assms(3) by auto
  note pr = set_priority_refines [OF i1, of prio]
  show ?thesis
  proof (cases "state_of (state_wd (TASKS st ! idx)) = Ready \<and> b")
    case True
    then have e: "rebucket st cpu idx prio = snd (cpu_enqueue ?st2 cpu idx)"
      by (simp add: rebucket_def Pair)
    have "\<not> tk_queued (TASKS ?st2 ! idx)"
      using rm True i1(2) by simp
    then show ?thesis
      using sp_rebucket_enqueue [OF pr(1) assms(2), of idx] i1(2) True rm pr(2) assms(3)
      by (simp add: e sp_rebucket_def sp_task_def sp_set_def Let_def flip: sched_abs_simps(3))
  next
    case False
    then have "rebucket st cpu idx prio = upd_task st idx (\<lambda>t. t\<lparr>priority := prio\<rparr>)"
      using rm Pair by (auto simp: rebucket_def cpu_remove_def Let_def split: prod.splits if_splits)
    then show ?thesis
      using set_priority_refines [OF assms(1,3), of prio] False rm assms(3) by (auto simp: sp_rebucket_def Let_def)
  qed
qed

lemma sp_find_abs:
  assumes "sched_inv st"
  shows "find (\<lambda>i. TASK_VALID st ! i \<and> tk_tid (TASKS st ! i) = tid) [0..<length (TASKS st)] = sp_find (sched_abs st) tid"
  unfolding sp_find_def by (rule find_cong) simp_all

lemma sp_find_less: "sp_find (sched_abs st) tid = Some i \<Longrightarrow> i < length (TASKS st)"
  by (auto simp: sp_find_def find_Some_iff)

definition step_refines :: "Sched \<Rightarrow> q_op \<Rightarrow> bool" where
  "step_refines st x \<longleftrightarrow>
     sched_inv (snd (q_step st x)) \<and> sp_step (sched_abs st) x = map_prod id sched_abs (q_step st x)
     \<and> length (TASKS (snd (q_step st x))) = length (TASKS st)"

lemma step_refines_pi_boost:
  assumes "sched_inv st"
  shows "step_refines st (PiBoost tid prio)"
proof (cases "sp_find (sched_abs st) tid")
  case (Some i)
  let ?f = "\<lambda>t. t\<lparr>donation_count := donation_count t + 1, priority := min prio (priority t)\<rparr>"
  have "pi_boost_task st tid prio = upd_task st i ?f"
    using Some by (simp add: pi_boost_task_def sp_find_abs [OF assms] upd_task_def Let_def min_def)
  then show ?thesis
    using upd_task_refines [of st i ?f] assms sp_find_less [OF Some] Some by (simp add: step_refines_def unflag_def)
qed (use assms in \<open>simp add: step_refines_def pi_boost_task_def sp_find_abs\<close>)

lemma step_refines_pi_restore:
  assumes "sched_inv st"
  shows "step_refines st (PiRestore tid)"
proof (cases "sp_find (sched_abs st) tid")
  case (Some i)
  let ?f = "\<lambda>t. let n = saturating_sub (donation_count t) 1
    in t\<lparr>donation_count := n, priority := (if n = 0 then base_priority t else priority t)\<rparr>"
  have "pi_restore_task st tid = upd_task st i ?f"
    using Some by (simp add: pi_restore_task_def sp_find_abs [OF assms] upd_task_def Let_def)
  then show ?thesis
    using upd_task_refines [of st i ?f] assms sp_find_less [OF Some] Some by (simp add: step_refines_def unflag_def Let_def)
qed (use assms in \<open>simp add: step_refines_def pi_restore_task_def sp_find_abs\<close>)

lemma set_donations_refines:
  assumes "sched_inv st" "i < length (TASKS st)" "\<And>t. d (unflag t) = d t"
  shows "sched_inv (upd_task st i (\<lambda>t. t\<lparr>donation_count := d t\<rparr>))"
    "sched_abs (upd_task st i (\<lambda>t. t\<lparr>donation_count := d t\<rparr>)) = sp_task (sched_abs st) i (\<lambda>t. t\<lparr>donation_count := d t\<rparr>)"
proof -
  have "unflag (t\<lparr>donation_count := d t\<rparr>) = (unflag t)\<lparr>donation_count := d (unflag t)\<rparr>" for t
    unfolding assms(3) by (simp add: unflag_def)
  then show "sched_inv (upd_task st i (\<lambda>t. t\<lparr>donation_count := d t\<rparr>))"
    "sched_abs (upd_task st i (\<lambda>t. t\<lparr>donation_count := d t\<rparr>)) = sp_task (sched_abs st) i (\<lambda>t. t\<lparr>donation_count := d t\<rparr>)"
    using upd_task_refines [OF assms(1,2)] by simp_all
qed

lemma step_refines_boost_ready:
  assumes "sched_inv st" "cpu < MAX_CPUS"
  shows "step_refines st (BoostReady cpu tid prio)"
proof (cases "if tid = 0 then None else sp_find (sched_abs st) tid")
  case None
  then show ?thesis
    using assms by (auto simp: step_refines_def boost_ready_task_def sched_idx_for_tid_def sp_find_abs split: if_splits)
next
  case (Some i)
  then have i: "i < length (TASKS st)" "tid \<noteq> 0" "sp_find (sched_abs st) tid = Some i"
    using sp_find_less by (auto split: if_splits)
  have u: "sched_inv (upd_task st i (\<lambda>t. t\<lparr>donation_count := donation_count t + 1\<rparr>))"
    "sched_abs (upd_task st i (\<lambda>t. t\<lparr>donation_count := donation_count t + 1\<rparr>)) =
       sp_task (sched_abs st) i (\<lambda>t. t\<lparr>donation_count := donation_count t + 1\<rparr>)"
    using set_donations_refines [OF assms(1) i(1)] by simp_all
  show ?thesis
    using rebucket_refines [OF u(1) assms(2), of i prio] u assms i
    by (simp add: step_refines_def boost_ready_task_def sched_idx_for_tid_def sp_find_abs sp_task_def Let_def)
qed

lemma step_refines_restore_ready:
  assumes "sched_inv st" "cpu < MAX_CPUS"
  shows "step_refines st (RestoreReady cpu tid)"
proof (cases "if tid = 0 then None else sp_find (sched_abs st) tid")
  case None
  then show ?thesis
    using assms by (auto simp: step_refines_def restore_ready_task_def sched_idx_for_tid_def sp_find_abs split: if_splits)
next
  case (Some i)
  then have i: "i < length (TASKS st)" "tid \<noteq> 0" "sp_find (sched_abs st) tid = Some i"
    using sp_find_less by (auto split: if_splits)
  define n where "n = saturating_sub (donation_count (TASKS st ! i)) 1"
  have u: "sched_inv (upd_task st i (\<lambda>t. t\<lparr>donation_count := n\<rparr>))"
    "sched_abs (upd_task st i (\<lambda>t. t\<lparr>donation_count := n\<rparr>)) = sp_task (sched_abs st) i (\<lambda>t. t\<lparr>donation_count := n\<rparr>)"
    using set_donations_refines [OF assms(1) i(1), of "\<lambda>_. n"] by simp_all
  show ?thesis
    using rebucket_refines [OF u(1) assms(2), of i "base_priority (TASKS st ! i)"] u assms i
    by (simp add: step_refines_def restore_ready_task_def sched_idx_for_tid_def sp_find_abs sp_task_def Let_def word_neq_0_conv flip: n_def)
qed

lemma q_step_refines:
  assumes "sched_inv st" "q_op_ok (length (TASKS st)) x"
  shows "step_refines st x"
proof (cases x)
  case (Enqueue cpu idx)
  then show ?thesis
    using assms cpu_enqueue_refines [of st cpu idx] by (cases "cpu_enqueue st cpu idx") (auto simp: step_refines_def)
next
  case (Dequeue cpu)
  then show ?thesis
    using assms cpu_dequeue_refines [of st cpu] by (cases "cpu_dequeue st cpu") (auto simp: step_refines_def)
qed (use assms step_refines_pi_boost step_refines_pi_restore step_refines_boost_ready step_refines_restore_ready in simp_all)

lemma q_run_refines:
  assumes "sched_inv st" "list_all (q_op_ok (length (TASKS st))) ops" "q_run st ops = (outs, st')"
  shows "sched_inv st' \<and> sp_run (sched_abs st) ops = (outs, sched_abs st') \<and> length (TASKS st') = length (TASKS st)"
  using assms
proof (induction ops arbitrary: st outs)
  case (Cons x xs)
  obtain y st1 where s: "q_step st x = (y, st1)"
    by (cases "q_step st x")
  then obtain ys where r: "q_run st1 xs = (ys, st')" "outs = y # ys"
    using Cons.prems(3) by (auto split: prod.splits)
  have "sched_inv st1" "sp_step (sched_abs st) x = (y, sched_abs st1)" "length (TASKS st1) = length (TASKS st)"
    using q_step_refines [OF Cons.prems(1), of x] Cons.prems(2) s by (auto simp: step_refines_def)
  then show ?case
    using Cons.IH [of st1 ys] Cons.prems(2) r by simp
qed simp

lemma pq_inv_empty: "0 < n \<Longrightarrow> pq_inv n (EMPTY_PRIO_QUEUE n)" "pq_list (EMPTY_PRIO_QUEUE n) = []"
  by (simp_all add: pq_inv_def EMPTY_PRIO_QUEUE_def pq_list_def ring_contents_def)

lemma sched_queues_boot [simp]: "sched_queues (sched_boot ts valid online) = (\<lambda>_ _. [])"
  by (auto simp: fun_eq_iff sched_queues_def sched_boot_def cpu_list_def EMPTY_CPU_def pq_inv_empty)

lemma sched_inv_boot:
  assumes "length valid = length ts" "ts \<noteq> []"
  shows "sched_inv (sched_boot ts valid online)"
  using assms unfolding sched_inv_def sched_queues_boot
  by (auto simp: sched_boot_def cpu_inv_def EMPTY_CPU_def pq_inv_empty queues_ok_def)

section \<open>Effects and frame of the queue operations\<close>

definition frame where
  "frame st = (TASK_VALID st, NUM_ONLINE_CPUS st, NEXT_TID st, HART_TP st, EXECUTES st, map current_idx (PER_CPU st),
     DEADLINE_TICK_COUNTER st, PREEMPT_COUNT st)"

lemma frame_upd_cpu: "current_idx c = current_idx (PER_CPU st ! cpu) \<Longrightarrow> frame (upd_cpu st cpu c) = frame st"
  by (cases "cpu < length (PER_CPU st)") (auto simp: frame_def upd_cpu_def map_update list_update_same_conv list_update_beyond)

lemma frame_upd_task [simp]: "frame (upd_task st i f) = frame st" "frame (set_queued st i b) = frame st"
  by (simp_all add: frame_def upd_task_def set_queued_def)

lemma current_idx_simps [simp]:
  "current_idx (set_ready c p) = current_idx c" "current_idx (clear_ready c p) = current_idx c"
  "current_idx (upd_queue c p q) = current_idx c"
  by (simp_all add: set_ready_def clear_ready_def upd_queue_def)

lemma frame_enqueue [simp]: "frame (snd (cpu_enqueue st cpu idx)) = frame st"
  by (simp add: cpu_enqueue_def Let_def frame_upd_cpu split: EnqueueOutcome.splits)

lemma frame_dequeue [simp]: "frame (snd (cpu_dequeue st cpu)) = frame st"
  by (simp add: cpu_dequeue_def Let_def frame_upd_cpu split: prod.split)

lemma cpu_enqueue_effect:
  assumes "sched_inv st" "cpu < MAX_CPUS" "idx < length (TASKS st)" "\<not> tk_queued (TASKS st ! idx)"
  defines "st' \<equiv> snd (cpu_enqueue st cpu idx)" and "p \<equiv> prio_bucket (priority (TASKS st ! idx))"
  shows "fst (cpu_enqueue st cpu idx)" "sched_inv st'" "TASKS st' = (TASKS st)[idx := (TASKS st ! idx)\<lparr>tk_queued := True\<rparr>]"
    "sched_queues st' = upd_q (sched_queues st) cpu p (sched_queues st cpu p @ [idx])" "frame st' = frame st"
proof -
  obtain b where e: "cpu_enqueue st cpu idx = (b, st')"
    unfolding st'_def by (cases "cpu_enqueue st cpu idx") simp
  note r = cpu_enqueue_refines [OF assms(1-3) e]
  have sp: "sp_enqueue (sched_abs st) cpu idx = (True, sp_set (sched_abs st) cpu p (sched_queues st cpu p @ [idx]))"
    using assms(1,3,4) by (simp add: sp_enqueue_def sp_occurs_iff p_def)
  then show "fst (cpu_enqueue st cpu idx)" "sched_inv st'"
    using r e by simp_all
  show "sched_queues st' = upd_q (sched_queues st) cpu p (sched_queues st cpu p @ [idx])"
    using r sp by (metis prod.inject sched_abs_simps(3) sp_set_def sched_spec.select_convs(3) sched_spec.surjective sched_spec.update_convs(3))
  have "b"
    using r sp by simp
  then show "TASKS st' = (TASKS st)[idx := (TASKS st ! idx)\<lparr>tk_queued := True\<rparr>]"
    using e by (auto simp: cpu_enqueue_def Let_def split: EnqueueOutcome.splits)
  show "frame st' = frame st"
    unfolding st'_def by simp
qed

lemma cpu_dequeue_effect:
  assumes "sched_inv st" "cpu < MAX_CPUS" "cpu_dequeue st cpu = (Some idx, st')"
  obtains p xs where "sched_queues st cpu p = idx # xs" "sched_queues st' = upd_q (sched_queues st) cpu p xs"
    "idx < length (TASKS st)" "tk_queued (TASKS st ! idx)" "sched_inv st'"
    "TASKS st' = (TASKS st)[idx := (TASKS st ! idx)\<lparr>tk_queued := False\<rparr>]" "frame st' = frame st"
proof -
  note r = cpu_dequeue_refines [OF assms]
  then obtain p where p: "find (\<lambda>p. sched_queues st cpu p \<noteq> []) [0..<NUM_PRIORITIES] = Some p" "hd (sched_queues st cpu p) = idx"
    "sched_abs st' = sp_set (sched_abs st) cpu p (tl (sched_queues st cpu p))"
    by (auto simp: sp_dequeue_def split: option.splits)
  then have q: "sched_queues st cpu p = idx # tl (sched_queues st cpu p)"
    by (auto simp: find_Some_iff)
  have s: "sched_queues st' = upd_q (sched_queues st) cpu p (tl (sched_queues st cpu p))"
    using arg_cong [OF p(3), of sp_queues] by (simp add: sp_set_def)
  have i: "idx < length (TASKS st)" "tk_queued (TASKS st ! idx)"
    using sched_inv_queues [OF assms(1)] q unfolding queues_ok_def by (metis list.set_intros(1))+
  have "TASKS st' = (TASKS st)[idx := (TASKS st ! idx)\<lparr>tk_queued := False\<rparr>]"
    using assms(3) i(1) by (auto simp: cpu_dequeue_def Let_def split: if_splits prod.splits)
  moreover have "frame st' = frame st"
    using frame_dequeue [of st cpu] assms(3) by simp
  ultimately show ?thesis
    using that q s i r by blast
qed

lemma cpu_dequeue_none:
  assumes "sched_inv st" "cpu < MAX_CPUS" "cpu_dequeue st cpu = (None, st')"
  shows "st' = st" "sched_queues st cpu p = []"
proof -
  have z: "ready_bitmap (PER_CPU st ! cpu) = 0"
  proof (rule ccontr)
    assume "ready_bitmap (PER_CPU st ! cpu) \<noteq> 0"
    then show False
      using trailing_zeros_find(2) [OF assms(1,2)] cpu_dequeue_refines [OF assms] by (simp add: sp_dequeue_def)
  qed
  then show "st' = st"
    using assms(3) by (simp add: cpu_dequeue_def)
  show "sched_queues st cpu p = []"
    using trailing_zeros_find(1) [OF assms(1,2) z]
    by (cases "p < NUM_PRIORITIES") (auto simp: find_None_iff sched_queues_def cpu_list_def)
qed

section \<open>The property\<close>

text \<open>
  C8. Whatever sequence of enqueues, dequeues, priority donations and restorations the harts perform
  on the ready queues, from the empty queues of boot, every result is that of the abstract scheduler
  that keeps for each hart and priority a list of tasks: an enqueue appends the task to the list of
  its priority unless it is queued anywhere already (and is never refused for lack of room), a
  dequeue takes the head of the first nonempty list of the hart, a change of priority of a ready
  task moves it to the back of the list of its new priority.  At the end the \<open>queued\<close> flag of a
  task tells whether it is in a queue, and no task is in two places.
\<close>

theorem ready_queues_refine:
  assumes "length valid = length ts" "ts \<noteq> []" "list_all (q_op_ok (length ts)) ops"
    "q_run (sched_boot ts valid online) ops = (outs, st)"
  shows "sp_run (sched_abs (sched_boot ts valid online)) ops = (outs, sched_abs st)
    \<and> (\<forall>i<length ts. tk_queued (TASKS st ! i) \<longleftrightarrow> (\<exists>c p. i \<in> set (sched_queues st c p)))
    \<and> (\<forall>c p. distinct (sched_queues st c p))
    \<and> (\<forall>c p c' p'. (c, p) \<noteq> (c', p') \<longrightarrow> set (sched_queues st c p) \<inter> set (sched_queues st c' p') = {})"
proof -
  have n: "length (TASKS (sched_boot ts valid online)) = length ts"
    by (simp add: sched_boot_def)
  have r: "sched_inv st" "sp_run (sched_abs (sched_boot ts valid online)) ops = (outs, sched_abs st)" "length (TASKS st) = length ts"
    using q_run_refines [OF sched_inv_boot [OF assms(1,2)] _ assms(4)] assms(3) n by simp_all
  have q: "queues_ok (length ts) (\<lambda>i. tk_queued (TASKS st ! i)) (sched_queues st)"
    using sched_inv_queues [OF r(1)] r(3) by simp
  have "set (sched_queues st c p) \<inter> set (sched_queues st c' p') = {}" if "(c, p) \<noteq> (c', p')" for c p c' p'
    using q that unfolding queues_ok_def by blast
  moreover have "distinct (sched_queues st c p)" for c p
    using q unfolding queues_ok_def by blast
  ultimately show ?thesis
    using r(2) queues_ok_flag [OF q] by blast
qed

definition demo_deadline :: DeadlineParams where
  "demo_deadline = \<lparr>period_us = 0, runtime_us = 0, abs_deadline = 0, remaining = 0\<rparr>"

definition demo_task :: "u32 \<Rightarrow> u32 \<Rightarrow> Task" where
  "demo_task t prio = \<lparr>tk_tid = t, state_wd = 0, priority = prio, base_priority = prio, time_slice = 1, cpu_affinity = -1,
     context_tp = 0, total_runtime = 0, deadline = demo_deadline, donation_count = 0, tk_queued = False, wait_reason = NoWait,
     context_saving = False\<rparr>"

definition demo_ops :: "q_op list" where
  "demo_ops = [Enqueue 0 0, Enqueue 0 1, Enqueue 1 0, BoostReady 0 7 3, Dequeue 0, RestoreReady 0 7, Enqueue 0 0, Dequeue 0, Dequeue 0, Dequeue 0]"

lemma demo_state: "state_of 0 = Ready"
  by (simp add: state_of_def STATE_MASK_def)

lemma demo_levels: "[0..<NUM_PRIORITIES] = [0, 1, 2, 3, 4, 5, 6, 7, 8, 9, 10, 11, 12, 13, 14, 15, 16, 17, 18, 19, 20, 21, 22, 23, 24, 25, 26, 27, 28, 29, 30, 31]" "[0..<MAX_CPUS] = [0, 1, 2, 3]" "[0..<2] = [0, 1]"
  by code_simp+

lemma demo_bucket: "prio_bucket 3 = 3" "prio_bucket 10 = 10" "prio_bucket 20 = 20"
  by code_simp+

lemma sched_abs_boot:
  "sched_abs (sched_boot ts valid online) = \<lparr>sp_tasks = map unflag ts, sp_valid = valid, sp_queues = (\<lambda>_ _. [])\<rparr>"
  by (simp add: sched_abs_def) (simp add: sched_boot_def unflag_def)

theorem ready_queues_refine_witness:
  "fst (q_run (sched_boot [demo_task 7 20, demo_task 8 10] [True, True] 2) demo_ops) =
     [Queued True, Queued True, Queued False, Done, Next (Some 0), Done, Queued True, Next (Some 1), Next (Some 0), Next None]"
proof -
  obtain outs st where r: "q_run (sched_boot [demo_task 7 20, demo_task 8 10] [True, True] 2) demo_ops = (outs, st)"
    by (cases "q_run (sched_boot [demo_task 7 20, demo_task 8 10] [True, True] 2) demo_ops")
  have ok: "list_all (q_op_ok (length [demo_task 7 20, demo_task 8 10])) demo_ops"
    by (simp add: demo_ops_def MAX_CPUS_def)
  have "fst (sp_run (sched_abs (sched_boot [demo_task 7 20, demo_task 8 10] [True, True] 2)) demo_ops) = outs"
    using ready_queues_refine [OF _ _ ok r] by simp
  moreover have "fst (sp_run (sched_abs (sched_boot [demo_task 7 20, demo_task 8 10] [True, True] 2)) demo_ops) =
     [Queued True, Queued True, Queued False, Done, Next (Some 0), Done, Queued True, Next (Some 1), Next (Some 0), Next None]"
    by (simp add: demo_ops_def sched_abs_boot sp_enqueue_def sp_dequeue_def sp_occurs_def sp_set_def sp_task_def sp_find_def sp_level_def
        sp_rebucket_def upd_q_apply demo_task_def unflag_def demo_bucket demo_levels demo_state saturating_sub_def)
  ultimately show ?thesis
    using r by simp
qed

end
