(* ===== verification/Sched_Place.thy ===== *)
theory Sched_Place
  imports Sched_Queue
begin

text \<open>
  Where a task is placed (\<open>pick_cpu_by_load\<close> in \<open>crates/sched/src/task.rs\<close>; \<open>find_best_cpu\<close>,
  \<open>pick_target_cpu\<close>, \<open>wake_target_cpu\<close> and \<open>rebalance_from_offline_cpus\<close> in
  \<open>crates/sched/src/scheduler.rs\<close>): the scoring of the harts by the tasks that live on them, the choice
  of the best hart, and the rescue of the tasks that boot left in the queues of harts that never
  started.
\<close>

section \<open>The choice of a hart\<close>

record CpuLoad =
  rt_blocking :: u32
  blocking :: u32
  total :: u32

fun load_less :: "CpuLoad \<Rightarrow> CpuLoad \<Rightarrow> bool" where
  "load_less a b \<longleftrightarrow>
     rt_blocking a < rt_blocking b
     \<or> rt_blocking a = rt_blocking b \<and> (blocking a < blocking b \<or> blocking a = blocking b \<and> total a < total b)"

fun pick_scan :: "nat \<Rightarrow> nat \<Rightarrow> CpuLoad \<Rightarrow> CpuLoad list \<Rightarrow> nat" where
  "pick_scan i best best_load [] = best"
| "pick_scan i best best_load (l # ls) =
     (if load_less l best_load then pick_scan (Suc i) i l ls else pick_scan (Suc i) best best_load ls)"

fun pick_cpu_by_load :: "CpuLoad list \<Rightarrow> nat" where
  "pick_cpu_by_load [] = 0"
| "pick_cpu_by_load (l # ls) = pick_scan 1 0 l ls"

definition home_cpu :: "Task \<Rightarrow> nat" where
  "home_cpu t = (if cpu_affinity t \<ge> 0 then min (nat (cpu_affinity t)) (MAX_CPUS - 1) else min (context_tp t) (MAX_CPUS - 1))"

definition add_load :: "u32 \<Rightarrow> Task \<Rightarrow> CpuLoad \<Rightarrow> CpuLoad" where
  "add_load prio t l =
     (let l = l\<lparr>total := saturating_add (total l) 1\<rparr>
      in if prio_bucket (priority t) < prio_bucket prio
         then let l = l\<lparr>blocking := saturating_add (blocking l) 1\<rparr>
              in if is_rt_priority (priority t) then l\<lparr>rt_blocking := saturating_add (rt_blocking l) 1\<rparr> else l
         else l)"

definition score :: "Sched \<Rightarrow> u32 \<Rightarrow> nat \<Rightarrow> nat \<Rightarrow> nat \<Rightarrow> CpuLoad list \<Rightarrow> CpuLoad list" where
  "score st prio exclude num_online i loads =
     (if i = exclude \<or> \<not> TASK_VALID st ! i then loads
      else let t = TASKS st ! i in
        if state_of (state_wd t) = Zombie then loads
        else let home = home_cpu t in
          if home \<ge> num_online then loads
          else loads[home := add_load prio t (loads ! home)])"

definition cpu_loads :: "Sched \<Rightarrow> u32 \<Rightarrow> nat \<Rightarrow> nat \<Rightarrow> CpuLoad list" where
  "cpu_loads st prio exclude num_online =
     fold (score st prio exclude num_online) [0..<length (TASKS st)]
       (replicate MAX_CPUS \<lparr>rt_blocking = 0, blocking = 0, total = 0\<rparr>)"

definition find_best_cpu :: "Sched \<Rightarrow> u32 \<Rightarrow> nat \<Rightarrow> nat" where
  "find_best_cpu st prio exclude =
     (let num_online = min (NUM_ONLINE_CPUS st) MAX_CPUS in
      if num_online \<le> 1 then 0 else pick_cpu_by_load (take num_online (cpu_loads st prio exclude num_online)))"

definition pick_target_cpu :: "Sched \<Rightarrow> int \<Rightarrow> u32 \<Rightarrow> nat \<Rightarrow> nat" where
  "pick_target_cpu st affinity prio exclude =
     (if affinity \<ge> 0 then min (nat affinity) (MAX_CPUS - 1) else find_best_cpu st prio exclude)"

definition wake_target_cpu :: "Sched \<Rightarrow> nat \<Rightarrow> nat" where
  "wake_target_cpu st idx =
     (let task = TASKS st ! idx in
      if cpu_affinity task \<ge> 0 then min (nat (cpu_affinity task)) (MAX_CPUS - 1)
      else min (find_best_cpu st (priority task) idx) (MAX_CPUS - 1))"

section \<open>The rescue of the tasks of harts that never started\<close>

definition move_task :: "Sched \<Rightarrow> nat \<Rightarrow> Sched" where
  "move_task st idx =
     (let target_cpu = find_best_cpu st (priority (TASKS st ! idx)) idx;
          st = (if cpu_affinity (TASKS st ! idx) \<ge> 0
                then upd_task st idx (\<lambda>t. t\<lparr>cpu_affinity := int target_cpu\<rparr>) else st);
          st = upd_task st idx (\<lambda>t. t\<lparr>context_tp := target_cpu\<rparr>)
      in snd (cpu_enqueue st target_cpu idx))"

partial_function (option) drain_cpu :: "nat \<Rightarrow> Sched \<Rightarrow> nat \<Rightarrow> (nat \<times> Sched) option" where
  "drain_cpu dead_cpu st moved =
     (case cpu_dequeue st dead_cpu of
        (None, st) \<Rightarrow> Some (moved, st)
      | (Some idx, st) \<Rightarrow> drain_cpu dead_cpu (move_task st idx) (Suc moved))"

fun drain_cpus :: "nat list \<Rightarrow> Sched \<Rightarrow> nat \<Rightarrow> (nat \<times> Sched) option" where
  "drain_cpus [] st moved = Some (moved, st)"
| "drain_cpus (dead_cpu # rest) st moved =
     (case drain_cpu dead_cpu st moved of None \<Rightarrow> None | Some (moved, st) \<Rightarrow> drain_cpus rest st moved)"

definition rebalance_from_offline_cpus :: "nat \<Rightarrow> nat \<Rightarrow> Sched \<Rightarrow> (nat \<times> Sched) option" where
  "rebalance_from_offline_cpus online total_cpus st =
     (let total_cpus = min total_cpus MAX_CPUS in
      if online = 0 \<or> online \<ge> total_cpus then Some (0, st)
      else drain_cpus [online..<total_cpus] st 0)"

section \<open>The first best load is picked\<close>

lemma load_less_trans: "load_less a b \<Longrightarrow> load_less b c \<Longrightarrow> load_less a c"
  by auto

lemma load_less_irrefl: "\<not> load_less a a"
  by simp

lemma not_load_less_trans: "\<not> load_less b a \<Longrightarrow> \<not> load_less c b \<Longrightarrow> \<not> load_less c a"
  by (auto simp: not_less)

lemma load_less_le_trans: "load_less a b \<Longrightarrow> \<not> load_less c b \<Longrightarrow> load_less a c"
  by (auto simp: not_less)

definition first_best :: "CpuLoad list \<Rightarrow> nat \<Rightarrow> bool" where
  "first_best ls k \<longleftrightarrow> k < length ls \<and> (\<forall>j<length ls. \<not> load_less (ls ! j) (ls ! k)) \<and> (\<forall>j<k. load_less (ls ! k) (ls ! j))"

lemma first_best_snoc:
  assumes "first_best ls k"
  shows "first_best (ls @ [l]) (if load_less l (ls ! k) then length ls else k)"
proof (cases "load_less l (ls ! k)")
  case True
  have "load_less l (ls ! j)" if "j < length ls" for j
    using load_less_le_trans [OF True] assms that unfolding first_best_def by blast
  moreover have "\<not> load_less (ls ! j) l" if "j < length ls" for j
    using load_less_trans [of "ls ! j" l] load_less_irrefl calculation [OF that] by blast
  ultimately show ?thesis
    using True load_less_irrefl by (auto simp: first_best_def nth_append less_Suc_eq simp del: load_less.simps)
next
  case False
  then show ?thesis
    using assms by (auto simp: first_best_def nth_append less_Suc_eq simp del: load_less.simps)
qed

lemma pick_scan_best:
  assumes "first_best pre best"
  shows "first_best (pre @ ls) (pick_scan (length pre) best (pre ! best) ls)"
  using assms
proof (induction ls arbitrary: pre best)
  case (Cons l ls)
  have b: "best < length pre"
    using Cons.prems by (simp add: first_best_def)
  show ?case
    using Cons.IH [OF first_best_snoc [OF Cons.prems, of l]] b
    by (simp add: nth_append del: load_less.simps split: if_splits)
qed (simp add: first_best_def)

lemma pick_cpu_by_load_best: "ls \<noteq> [] \<Longrightarrow> first_best ls (pick_cpu_by_load ls)"
  using pick_scan_best [of "[hd ls]" 0 "tl ls"] load_less_irrefl
  by (cases ls) (simp_all add: first_best_def del: load_less.simps)

section \<open>The score counts the tasks that live on a hart\<close>

definition lives_on :: "Sched \<Rightarrow> nat \<Rightarrow> nat \<Rightarrow> nat \<Rightarrow> bool" where
  "lives_on st exclude h i \<longleftrightarrow>
     i \<noteq> exclude \<and> TASK_VALID st ! i \<and> state_of (state_wd (TASKS st ! i)) \<noteq> Zombie \<and> home_cpu (TASKS st ! i) = h"

definition outranks :: "Sched \<Rightarrow> u32 \<Rightarrow> nat \<Rightarrow> bool" where
  "outranks st prio i \<longleftrightarrow> prio_bucket (priority (TASKS st ! i)) < prio_bucket prio"

definition count_upto :: "nat \<Rightarrow> (nat \<Rightarrow> bool) \<Rightarrow> nat" where
  "count_upto k P = length (filter P [0..<k])"

definition residents :: "Sched \<Rightarrow> nat \<Rightarrow> nat \<Rightarrow> nat" where
  "residents st exclude h = count_upto (length (TASKS st)) (lives_on st exclude h)"

definition blockers :: "Sched \<Rightarrow> u32 \<Rightarrow> nat \<Rightarrow> nat \<Rightarrow> nat" where
  "blockers st prio exclude h = count_upto (length (TASKS st)) (\<lambda>i. lives_on st exclude h i \<and> outranks st prio i)"

definition rt_blockers :: "Sched \<Rightarrow> u32 \<Rightarrow> nat \<Rightarrow> nat \<Rightarrow> nat" where
  "rt_blockers st prio exclude h =
     count_upto (length (TASKS st)) (\<lambda>i. lives_on st exclude h i \<and> outranks st prio i \<and> is_rt_priority (priority (TASKS st ! i)))"

definition hart_load :: "Sched \<Rightarrow> u32 \<Rightarrow> nat \<Rightarrow> nat \<Rightarrow> nat \<Rightarrow> CpuLoad" where
  "hart_load st prio exclude k h =
     \<lparr>rt_blocking = of_nat (count_upto k (\<lambda>i. lives_on st exclude h i \<and> outranks st prio i \<and> is_rt_priority (priority (TASKS st ! i)))),
      blocking = of_nat (count_upto k (\<lambda>i. lives_on st exclude h i \<and> outranks st prio i)),
      total = of_nat (count_upto k (lives_on st exclude h))\<rparr>"

lemma count_upto_simps [simp]: "count_upto 0 P = 0" "count_upto (Suc k) P = (if P k then Suc (count_upto k P) else count_upto k P)"
  by (simp_all add: count_upto_def)

lemma count_upto_le: "count_upto k P \<le> k"
  unfolding count_upto_def by (metis length_filter_le length_upt minus_nat.diff_0)

lemma unat_of_nat_u32: "c < 2 ^ 32 \<Longrightarrow> unat (of_nat c :: u32) = c"
  by (simp add: unat_of_nat take_bit_nat_eq_self)

lemma saturating_add_of_nat:
  assumes "Suc c < 2 ^ 32"
  shows "saturating_add (of_nat c :: u32) 1 = of_nat (Suc c)"
proof -
  have "c < 2 ^ 32"
    using assms by linarith
  then show ?thesis
    using assms unat_of_nat_u32 [of c] by (simp add: saturating_add_def)
qed

lemma hart_load_Suc:
  assumes "Suc k < 2 ^ 32"
  shows "hart_load st prio exclude (Suc k) h =
    (if lives_on st exclude h k then add_load prio (TASKS st ! k) (hart_load st prio exclude k h) else hart_load st prio exclude k h)"
proof -
  have "Suc (count_upto k P) < 2 ^ 32" for P
    using assms count_upto_le [of k P] by linarith
  then show ?thesis
    by (simp add: hart_load_def add_load_def outranks_def saturating_add_of_nat del: of_nat_Suc)
qed

lemma length_scores: "length (fold (score st prio exclude n) is loads) = length loads"
  by (induction "is" arbitrary: loads) (simp_all add: score_def Let_def)

lemma length_cpu_loads [simp]: "length (cpu_loads st prio exclude n) = MAX_CPUS"
  by (simp add: cpu_loads_def length_scores)

lemma scores:
  assumes "k < 2 ^ 32" "h < n" "n \<le> MAX_CPUS"
  shows "fold (score st prio exclude n) [0..<k] (replicate MAX_CPUS \<lparr>rt_blocking = 0, blocking = 0, total = 0\<rparr>) ! h =
    hart_load st prio exclude k h"
  using assms(1)
proof (induction k)
  case 0
  then show ?case
    using assms(2,3) by (simp add: hart_load_def)
next
  case (Suc k)
  then show ?case
    using assms(2,3) hart_load_Suc [of k st prio exclude h]
    by (auto simp: score_def [of st prio exclude n k] lives_on_def Let_def nth_list_update length_scores)
qed

lemma take_cpu_loads:
  assumes "length (TASKS st) < 2 ^ 32" "n \<le> MAX_CPUS"
  shows "take n (cpu_loads st prio exclude n) = map (hart_load st prio exclude (length (TASKS st))) [0..<n]"
  using assms by (intro nth_equalityI) (simp_all add: scores, simp add: cpu_loads_def scores)

lemma find_best_cpu_pick:
  assumes "n = min (NUM_ONLINE_CPUS st) MAX_CPUS"
  shows "find_best_cpu st prio exclude = (if n \<le> 1 then 0 else pick_cpu_by_load (take n (cpu_loads st prio exclude n)))"
  unfolding find_best_cpu_def Let_def assms ..

lemma find_best_cpu_best:
  assumes "length (TASKS st) < 2 ^ 32" "n = min (NUM_ONLINE_CPUS st) MAX_CPUS" "1 < n"
  shows "first_best (map (hart_load st prio exclude (length (TASKS st))) [0..<n]) (find_best_cpu st prio exclude)"
proof -
  have "n \<le> MAX_CPUS"
    using assms(2) by simp
  then show ?thesis
    using pick_cpu_by_load_best [of "map (hart_load st prio exclude (length (TASKS st))) [0..<n]"] assms(3)
      take_cpu_loads [OF assms(1), of n] by (simp add: find_best_cpu_pick [OF assms(2)])
qed

lemma find_best_cpu_less:
  assumes "n = min (NUM_ONLINE_CPUS st) MAX_CPUS" "0 < n"
  shows "find_best_cpu st prio exclude < n"
proof -
  have "length (take n (cpu_loads st prio exclude n)) = n"
    using assms(1) by simp
  then show ?thesis
    using pick_cpu_by_load_best [of "take n (cpu_loads st prio exclude n)"] assms(2)
    by (cases "take n (cpu_loads st prio exclude n) = []") (simp_all add: find_best_cpu_pick [OF assms(1)] first_best_def)
qed

lemma find_best_cpu_bound: "find_best_cpu st prio exclude < MAX_CPUS"
proof (cases "NUM_ONLINE_CPUS st = 0")
  case True
  then show ?thesis
    by (simp add: find_best_cpu_def Let_def MAX_CPUS_def)
next
  case False
  then show ?thesis
    using find_best_cpu_less [OF refl, of st prio exclude] by (simp add: MAX_CPUS_def)
qed

section \<open>Placement\<close>

text \<open>
  C10. With at least two harts online, \<open>find_best_cpu\<close> returns an online hart that is best in the
  lexicographic order of the number of real-time tasks living there that outrank the task to be placed, the
  number of all tasks living there that outrank it, and the number of tasks living there, and the
  lowest-numbered such hart; the saturating counters of the scan are the exact counts.  In
  particular, when some online hart has no outranking real-time task, neither has the hart chosen.
\<close>

theorem placement_is_first_best:
  assumes "length (TASKS st) < 2 ^ 32" "2 \<le> NUM_ONLINE_CPUS st" "best = find_best_cpu st prio exclude"
  shows "best < min (NUM_ONLINE_CPUS st) MAX_CPUS \<and>
    (\<forall>h<min (NUM_ONLINE_CPUS st) MAX_CPUS. h \<noteq> best \<longrightarrow>
       ((rt_blockers st prio exclude best, blockers st prio exclude best, residents st exclude best, best),
        (rt_blockers st prio exclude h, blockers st prio exclude h, residents st exclude h, h))
       \<in> less_than <*lex*> less_than <*lex*> less_than <*lex*> less_than)"
proof -
  define n where "n = min (NUM_ONLINE_CPUS st) MAX_CPUS"
  let ?n = "length (TASKS st)"
  let ?key = "\<lambda>h. (rt_blockers st prio exclude h, blockers st prio exclude h, residents st exclude h)"
  have ln: "unat (of_nat (count_upto ?n P) :: u32) = count_upto ?n P" for P
    using count_upto_le [of ?n P] assms(1) by (intro unat_of_nat_u32) linarith
  have less: "load_less (hart_load st prio exclude ?n a) (hart_load st prio exclude ?n b) \<longleftrightarrow>
      (?key a, ?key b) \<in> less_than <*lex*> less_than <*lex*> less_than" for a b
    by (simp add: hart_load_def word_less_nat_alt ln word_unat_eq_iff rt_blockers_def blockers_def residents_def)
  have n: "1 < n"
    using assms(2) by (simp add: n_def MAX_CPUS_def)
  have "first_best (map (hart_load st prio exclude ?n) [0..<n]) best"
    unfolding assms(3) using find_best_cpu_best [OF assms(1) _ n] by (simp add: n_def)
  then have best: "best < n" "\<And>h. h < n \<Longrightarrow> \<not> load_less (hart_load st prio exclude ?n h) (hart_load st prio exclude ?n best)"
      "\<And>h. h < best \<Longrightarrow> load_less (hart_load st prio exclude ?n best) (hart_load st prio exclude ?n h)"
    by (auto simp: first_best_def simp del: load_less.simps)
  have "((rt_blockers st prio exclude best, blockers st prio exclude best, residents st exclude best, best),
        (rt_blockers st prio exclude h, blockers st prio exclude h, residents st exclude h, h))
       \<in> less_than <*lex*> less_than <*lex*> less_than <*lex*> less_than"
    if "h < n" "h \<noteq> best" for h
    using best(2) [OF that(1)] best(3) [of h] that(2) unfolding less by (auto simp: nat_neq_iff)
  then show ?thesis
    using best(1) unfolding n_def by blast
qed

definition demo_pool :: Sched where
  "demo_pool = sched_boot [(demo_task 1 8)\<lparr>cpu_affinity := 0\<rparr>, (demo_task 2 14)\<lparr>context_tp := 1\<rparr>, (demo_task 3 14)\<lparr>context_tp := 1\<rparr>, demo_task 4 16]
     [True, True, True, True] 2"

theorem placement_is_first_best_witness: "find_best_cpu demo_pool 16 3 = 1"
proof -
  have k: "rt_blockers demo_pool 16 3 0 = 1" "rt_blockers demo_pool 16 3 1 = 0"
    by (simp_all add: rt_blockers_def count_upto_def demo_pool_def sched_boot_def lives_on_def outranks_def home_cpu_def demo_task_def
        demo_state prio_bucket_def is_rt_priority_def RT_PRIORITY_THRESHOLD_def NUM_PRIORITIES_def MAX_CPUS_def upt_rec)
  have "length (TASKS demo_pool) < 2 ^ 32" "2 \<le> NUM_ONLINE_CPUS demo_pool" and n: "min (NUM_ONLINE_CPUS demo_pool) MAX_CPUS = 2"
    by (simp_all add: demo_pool_def sched_boot_def MAX_CPUS_def)
  note b = placement_is_first_best [OF this(1,2) refl, of 16 3, unfolded n]
  show ?thesis
  proof (rule ccontr)
    assume "find_best_cpu demo_pool 16 3 \<noteq> 1"
    then have z: "find_best_cpu demo_pool 16 3 = 0"
      using b by auto
    show False
      using spec [OF conjunct2 [OF b [unfolded z]], of 1] k by simp
  qed
qed

section \<open>The rescue\<close>

definition queue_total :: "Sched \<Rightarrow> nat \<Rightarrow> nat" where
  "queue_total st cpu = sum_list (map (\<lambda>p. length (sched_queues st cpu p)) [0..<NUM_PRIORITIES])"

definition queued_on :: "Sched \<Rightarrow> nat \<Rightarrow> nat \<Rightarrow> bool" where
  "queued_on st cpu i \<longleftrightarrow> list_ex (\<lambda>p. i \<in> set (sched_queues st cpu p)) [0..<NUM_PRIORITIES]"

definition homed :: "nat \<Rightarrow> Sched \<Rightarrow> Sched \<Rightarrow> nat \<Rightarrow> bool" where
  "homed online st st' i \<longleftrightarrow> list_ex (\<lambda>c. queued_on st' c i \<and> context_tp (TASKS st' ! i) = c
     \<and> cpu_affinity (TASKS st' ! i) = (if cpu_affinity (TASKS st ! i) \<ge> 0 then int c else cpu_affinity (TASKS st ! i))) [0..<online]"

lemma sched_queues_beyond: "\<not> p < NUM_PRIORITIES \<Longrightarrow> sched_queues st c p = []"
  by (simp add: sched_queues_def cpu_list_def)

lemma queued_on_iff: "queued_on st c i \<longleftrightarrow> (\<exists>p. i \<in> set (sched_queues st c p))"
  using sched_queues_beyond [of _ st c] by (fastforce simp: queued_on_def list_ex_iff)

lemma homed_iff:
  "homed online st st' i \<longleftrightarrow> (\<exists>c<online. queued_on st' c i \<and> context_tp (TASKS st' ! i) = c
     \<and> cpu_affinity (TASKS st' ! i) = (if cpu_affinity (TASKS st ! i) \<ge> 0 then int c else cpu_affinity (TASKS st ! i)))"
  unfolding homed_def list_ex_iff Bex_def by simp

lemma queue_total_cong: "sched_queues st c = sched_queues st' c \<Longrightarrow> queue_total st c = queue_total st' c"
  by (simp add: queue_total_def)

lemma queue_total_tail:
  assumes "sched_queues st c p = x # xs" "sched_queues st' c = (sched_queues st c)(p := xs)"
  shows "queue_total st c = Suc (queue_total st' c)"
proof -
  have p: "p < NUM_PRIORITIES"
    using assms(1) sched_queues_beyond [of p st c] by force
  have "(\<Sum>q = 0..<NUM_PRIORITIES. length (sched_queues st c q)) = Suc (length xs) + (\<Sum>q \<in> {0..<NUM_PRIORITIES} - {p}. length (sched_queues st c q))"
    using p assms(1) by (subst sum.remove [of _ p]) simp_all
  moreover have "(\<Sum>q = 0..<NUM_PRIORITIES. length (sched_queues st' c q)) = length xs + (\<Sum>q \<in> {0..<NUM_PRIORITIES} - {p}. length (sched_queues st c q))"
    using p assms(2) by (subst sum.remove [of _ p]) simp_all
  ultimately show ?thesis
    by (simp add: queue_total_def interv_sum_list_conv_sum_set_nat)
qed

lemma frame_fields:
  assumes "frame st' = frame st"
  shows "NUM_ONLINE_CPUS st' = NUM_ONLINE_CPUS st" "TASK_VALID st' = TASK_VALID st" "HART_TP st' = HART_TP st"
    "EXECUTES st' = EXECUTES st" "map current_idx (PER_CPU st') = map current_idx (PER_CPU st)" "NEXT_TID st' = NEXT_TID st"
  using assms by (simp_all add: frame_def)

lemma move_task_effect:
  assumes "sched_inv st" "idx < length (TASKS st)" "\<not> tk_queued (TASKS st ! idx)"
  defines "t \<equiv> find_best_cpu st (priority (TASKS st ! idx)) idx" and "st' \<equiv> move_task st idx"
  obtains p where "sched_inv st'" "frame st' = frame st"
    "TASKS st' = (TASKS st)[idx := (TASKS st ! idx)\<lparr>
        cpu_affinity := (if cpu_affinity (TASKS st ! idx) \<ge> 0 then int t else cpu_affinity (TASKS st ! idx)), context_tp := t, tk_queued := True\<rparr>]"
    "sched_queues st' = upd_q (sched_queues st) t p (sched_queues st t p @ [idx])"
proof -
  let ?f = "\<lambda>u. u\<lparr>cpu_affinity := (if cpu_affinity u \<ge> 0 then int t else cpu_affinity u), context_tp := t\<rparr>"
  let ?st = "upd_task st idx ?f"
  have e: "st' = snd (cpu_enqueue ?st t idx)"
    using assms(2) by (simp add: st'_def move_task_def Let_def upd_task_def flip: t_def)
  have "sched_inv ?st"
    using upd_task_refines(1) [OF assms(1,2), of ?f] by (simp add: unflag_def)
  note eff = cpu_enqueue_effect [OF this, of t idx, unfolded e [symmetric]]
  have "t < MAX_CPUS"
    unfolding t_def by (rule find_best_cpu_bound)
  then show ?thesis
    using eff assms(2,3) that by simp
qed

definition unmoved :: "Sched \<Rightarrow> Sched \<Rightarrow> nat \<Rightarrow> bool" where
  "unmoved st st' i \<longleftrightarrow> TASKS st' ! i = TASKS st ! i \<and> (\<forall>c. queued_on st' c i \<longleftrightarrow> queued_on st c i)"

definition drained :: "nat \<Rightarrow> nat set \<Rightarrow> Sched \<Rightarrow> Sched \<Rightarrow> bool" where
  "drained online dead st st' \<longleftrightarrow>
     sched_inv st' \<and> frame st' = frame st \<and> length (TASKS st') = length (TASKS st)
     \<and> (\<forall>c p. c \<in> dead \<longrightarrow> sched_queues st' c p = []) \<and> (\<forall>c. c \<notin> dead \<and> online \<le> c \<longrightarrow> sched_queues st' c = sched_queues st c)
     \<and> (\<forall>i<length (TASKS st). if \<exists>c\<in>dead. queued_on st c i then homed online st st' i else unmoved st st' i)"

lemma homed_unmoved: "homed online st0 st i \<Longrightarrow> unmoved st st' i \<Longrightarrow> homed online st0 st' i"
  unfolding homed_iff unmoved_def by metis

lemma unmoved_homed: "unmoved st0 st i \<Longrightarrow> homed online st st' i \<Longrightarrow> homed online st0 st' i"
  unfolding homed_iff unmoved_def by metis

lemma drain_step:
  assumes "sched_inv st" "cpu_dequeue st dead = (Some idx, st1)" "dead < MAX_CPUS"
    "NUM_ONLINE_CPUS st \<le> dead" "0 < NUM_ONLINE_CPUS st"
  defines "st2 \<equiv> move_task st1 idx" and "online \<equiv> NUM_ONLINE_CPUS st"
  shows "sched_inv st2" "frame st2 = frame st" "length (TASKS st2) = length (TASKS st)" "queue_total st dead = Suc (queue_total st2 dead)"
    "\<And>c. c \<noteq> dead \<Longrightarrow> online \<le> c \<Longrightarrow> sched_queues st2 c = sched_queues st c"
    "homed online st st2 idx" "\<not> queued_on st2 dead idx" "queued_on st dead idx" "\<And>i. i \<noteq> idx \<Longrightarrow> unmoved st st2 i"
proof -
  obtain p xs where q: "sched_queues st dead p = idx # xs" "sched_queues st1 = upd_q (sched_queues st) dead p xs"
    and i: "idx < length (TASKS st)" "sched_inv st1" and t1: "TASKS st1 = (TASKS st)[idx := (TASKS st ! idx)\<lparr>tk_queued := False\<rparr>]"
    and f1: "frame st1 = frame st"
    using cpu_dequeue_effect [OF assms(1,3,2)] by metis
  have i1: "idx < length (TASKS st1)" and u1: "\<not> tk_queued (TASKS st1 ! idx)"
    using t1 i(1) by simp_all
  define t where "t = find_best_cpu st1 (priority (TASKS st1 ! idx)) idx"
  obtain p' where r: "sched_inv st2" "frame st2 = frame st1"
      "TASKS st2 = (TASKS st1)[idx := (TASKS st1 ! idx)\<lparr>cpu_affinity := (if cpu_affinity (TASKS st1 ! idx) \<ge> 0 then int t
         else cpu_affinity (TASKS st1 ! idx)), context_tp := t, tk_queued := True\<rparr>]"
      "sched_queues st2 = upd_q (sched_queues st1) t p' (sched_queues st1 t p' @ [idx])"
    using move_task_effect [OF i(2) i1 u1] unfolding t_def st2_def by blast
  have t: "t < online"
    using find_best_cpu_less [OF refl, of st1] frame_fields(1) [OF f1] assms(5) unfolding t_def online_def by (simp add: MAX_CPUS_def)
  then have td: "t \<noteq> dead"
    using assms(4) by (simp add: online_def)
  have nq: "idx \<notin> set (sched_queues st1 c k)" for c k
    using sched_inv_queues [OF i(2)] t1 i(1) unfolding queues_ok_def by fastforce
  show "sched_inv st2" "frame st2 = frame st" "length (TASKS st2) = length (TASKS st)"
    using r f1 t1 by simp_all
  show "queue_total st dead = Suc (queue_total st2 dead)"
    using queue_total_tail [OF q(1), of st2] r(4) q(2) td by (simp add: upd_q_def)
  show "sched_queues st2 c = sched_queues st c" if "c \<noteq> dead" "online \<le> c" for c
    using that t r(4) q(2) by (simp add: upd_q_def)
  show "homed online st st2 idx"
    using t r i(1) t1 by (auto simp: homed_iff queued_on_iff upd_q_apply)
  show "\<not> queued_on st2 dead idx" "queued_on st dead idx"
    using r(4) td nq q(1) by (auto simp: queued_on_iff upd_q_apply intro: exI [of _ p])
  show "unmoved st st2 i" if "i \<noteq> idx" for i
  proof -
    have "i \<in> set (sched_queues st2 c k) \<longleftrightarrow> i \<in> set (sched_queues st c k)" for c k
      using that r(4) q td by (simp add: upd_q_apply)
    then show ?thesis
      using that r(3) t1 by (simp add: unmoved_def queued_on_iff)
  qed
qed

lemma drained_step:
  assumes "drained online {dead} st2 st'" "dead \<notin> {..<online}"
    "sched_inv st2" "frame st2 = frame st" "length (TASKS st2) = length (TASKS st)"
    "\<And>c. c \<noteq> dead \<Longrightarrow> online \<le> c \<Longrightarrow> sched_queues st2 c = sched_queues st c"
    "homed online st st2 idx" "\<not> queued_on st2 dead idx" "queued_on st dead idx" "\<And>i. i \<noteq> idx \<Longrightarrow> unmoved st st2 i"
  shows "drained online {dead} st st'"
proof -
  have "if queued_on st dead i then homed online st st' i else unmoved st st' i" if "i < length (TASKS st)" for i
  proof (cases "i = idx")
    case True
    then have "unmoved st2 st' idx"
      using assms(1,5,8) that by (auto simp: drained_def)
    then show ?thesis
      using True assms(7,9) homed_unmoved by auto
  next
    case False
    then have "if queued_on st dead i then homed online st2 st' i else unmoved st2 st' i"
      using assms(1,5) assms(10) [OF False] that by (auto simp: drained_def unmoved_def)
    then show ?thesis
      using assms(10) [OF False] unmoved_homed by (auto simp: unmoved_def)
  qed
  then show ?thesis
    using assms(1,4-6) by (auto simp: drained_def)
qed

lemma queue_total_0: "queue_total st c = 0 \<longleftrightarrow> (\<forall>p. sched_queues st c p = [])"
  using sched_queues_beyond [of _ st c] by (force simp: queue_total_def)

lemma drain_cpu_drains:
  assumes "sched_inv st" "dead < MAX_CPUS" "NUM_ONLINE_CPUS st \<le> dead" "0 < NUM_ONLINE_CPUS st"
  shows "\<exists>st'. drain_cpu dead st moved = Some (moved + queue_total st dead, st') \<and> drained (NUM_ONLINE_CPUS st) {dead} st st'"
  using assms
proof (induction "queue_total st dead" arbitrary: st moved)
  case 0
  then have e: "sched_queues st dead p = []" for p
    using queue_total_0 by metis
  obtain r st1 where d: "cpu_dequeue st dead = (r, st1)"
    by (cases "cpu_dequeue st dead")
  have "r = None"
  proof (cases r)
    case (Some idx)
    then show ?thesis
      using cpu_dequeue_effect [OF "0.prems"(1,2)] d e by (metis list.distinct(1))
  qed
  then have "st1 = st"
    using cpu_dequeue_none(1) [OF "0.prems"(1,2)] d by blast
  then show ?case
    using d \<open>r = None\<close> e "0.prems"(1) 0
    by (auto simp: drain_cpu.simps [of dead st] drained_def unmoved_def queued_on_iff)
next
  case (Suc n)
  obtain r st1 where d: "cpu_dequeue st dead = (r, st1)"
    by (cases "cpu_dequeue st dead")
  show ?case
  proof (cases r)
    case None
    then have "queue_total st dead = 0"
      using cpu_dequeue_none(2) [OF Suc.prems(1,2)] d queue_total_0 by blast
    then show ?thesis
      using Suc.hyps(2) by simp
  next
    case (Some idx)
    note st = drain_step [OF Suc.prems(1) d [unfolded Some] Suc.prems(2-4)]
    let ?st2 = "move_task st1 idx"
    have o: "NUM_ONLINE_CPUS ?st2 = NUM_ONLINE_CPUS st"
      using frame_fields(1) [OF st(2)] .
    obtain st' where r: "drain_cpu dead ?st2 (Suc moved) = Some (Suc moved + queue_total ?st2 dead, st')"
        "drained (NUM_ONLINE_CPUS st) {dead} ?st2 st'"
      using Suc.hyps(1) [of ?st2 "Suc moved"] Suc.hyps(2) Suc.prems st(1,4) o by fastforce
    have "drained (NUM_ONLINE_CPUS st) {dead} st st'"
      using drained_step [OF r(2) _ st(1-3) st(5-9)] Suc.prems(3) by simp
    then show ?thesis
      using r(1) d Some st(4) by (simp add: drain_cpu.simps [of dead st])
  qed
qed

lemma drained_trans:
  assumes "drained online {d} st st1" "drained online D st1 st2" "d \<notin> D" "\<forall>c\<in>insert d D. online \<le> c" "sched_inv st"
  shows "drained online (insert d D) st st2"
proof -
  have n: "length (TASKS st1) = length (TASKS st)" and q: "c \<noteq> d \<Longrightarrow> online \<le> c \<Longrightarrow> sched_queues st1 c = sched_queues st c" for c
    using assms(1) by (auto simp: drained_def)
  have qo: "c \<in> D \<Longrightarrow> queued_on st1 c i \<longleftrightarrow> queued_on st c i" for c i
    using q [of c] assms(3,4) unfolding queued_on_iff by (metis insert_iff)
  have "if \<exists>c\<in>insert d D. queued_on st c i then homed online st st2 i else unmoved st st2 i" if "i < length (TASKS st)" for i
  proof (cases "\<exists>c\<in>D. queued_on st c i")
    case True
    then have "\<not> queued_on st d i"
      using sched_inv_queues [OF assms(5)] assms(3) unfolding queues_ok_def queued_on_iff by blast
    then have "unmoved st st1 i"
      using assms(1) that by (auto simp: drained_def)
    then show ?thesis
      using True assms(2) that n qo unmoved_homed by (auto simp: drained_def)
  next
    case False
    then have "unmoved st1 st2 i"
      using assms(2) that n qo by (auto simp: drained_def)
    then show ?thesis
      using False assms(1) that homed_unmoved by (auto simp: drained_def unmoved_def)
  qed
  moreover have "sched_queues st2 d p = []" for p
    using assms(1-4) by (auto simp: drained_def)
  ultimately show ?thesis
    using assms(1,2,4) n by (auto simp: drained_def)
qed

lemma drain_cpus_drain:
  assumes "sched_inv st" "0 < NUM_ONLINE_CPUS st" "distinct ds" "\<forall>d\<in>set ds. NUM_ONLINE_CPUS st \<le> d \<and> d < MAX_CPUS"
  shows "\<exists>st'. drain_cpus ds st moved = Some (moved + sum_list (map (queue_total st) ds), st') \<and> drained (NUM_ONLINE_CPUS st) (set ds) st st'"
  using assms
proof (induction ds arbitrary: st moved)
  case Nil
  then show ?case
    by (simp add: drained_def unmoved_def)
next
  case (Cons d ds)
  obtain st1 where s1: "drain_cpu d st moved = Some (moved + queue_total st d, st1)" "drained (NUM_ONLINE_CPUS st) {d} st st1"
    using drain_cpu_drains [of st d moved] Cons.prems by auto
  have o: "NUM_ONLINE_CPUS st1 = NUM_ONLINE_CPUS st" "sched_inv st1"
    using s1(2) frame_fields(1) by (auto simp: drained_def)
  have qt: "map (queue_total st1) ds = map (queue_total st) ds"
    using s1(2) Cons.prems(3,4) by (auto simp: drained_def intro!: queue_total_cong)
  obtain st2 where s2: "drain_cpus ds st1 (moved + queue_total st d) = Some (moved + queue_total st d + sum_list (map (queue_total st1) ds), st2)"
      "drained (NUM_ONLINE_CPUS st) (set ds) st1 st2"
    using Cons.IH [of st1 "moved + queue_total st d"] Cons.prems o by auto
  have "drained (NUM_ONLINE_CPUS st) (set (d # ds)) st st2"
    using drained_trans [OF s1(2) s2(2)] Cons.prems by simp
  then show ?case
    using s1(1) s2(1) qt by simp
qed

text \<open>
  C9. The rescue of the boot tasks ends: with the count of online harts corrected to the harts that
  started, \<open>rebalance_from_offline_cpus\<close> returns the number of tasks that were queued on the harts
  that did not start, the queues of those harts are empty afterwards, every task that was queued
  there is queued on a hart that started, with its saved hart number and its pin (if it has one) set to that
  hart, and no other task has changed or moved.
\<close>

theorem rebalance_rescues_every_task:
  assumes "sched_inv st" "NUM_ONLINE_CPUS st = online" "0 < online" "online < min total_cpus MAX_CPUS"
  shows "\<exists>st'. rebalance_from_offline_cpus online total_cpus st =
      Some (sum_list (map (queue_total st) [online..<min total_cpus MAX_CPUS]), st')
    \<and> sched_inv st'
    \<and> (\<forall>c p. online \<le> c \<and> c < min total_cpus MAX_CPUS \<longrightarrow> sched_queues st' c p = [])
    \<and> (\<forall>i<length (TASKS st).
         if \<exists>c\<in>{online..<min total_cpus MAX_CPUS}. queued_on st c i then homed online st st' i else unmoved st st' i)"
proof -
  define tot where "tot = min total_cpus MAX_CPUS"
  have "\<forall>d\<in>set [online..<tot]. online \<le> d \<and> d < MAX_CPUS"
    by (auto simp: tot_def)
  from drain_cpus_drain [OF assms(1), unfolded assms(2), OF assms(3) distinct_upt this, of 0]
  obtain st' where r: "drain_cpus [online..<tot] st 0 = Some (sum_list (map (queue_total st) [online..<tot]), st')"
      "drained online {online..<tot} st st'"
    unfolding set_upt by auto
  have "rebalance_from_offline_cpus online total_cpus st = drain_cpus [online..<tot] st 0"
    using assms(3,4) unfolding tot_def rebalance_from_offline_cpus_def Let_def by (metis not_less less_irrefl)
  then show ?thesis
    using r unfolding drained_def tot_def [symmetric] by (metis atLeastLessThan_iff)
qed

definition demo_stranded :: Sched where
  "demo_stranded = snd (cpu_enqueue (sched_boot [(demo_task 1 16)\<lparr>cpu_affinity := 1, context_tp := 1\<rparr>] [True] 1) 1 0)"

theorem rebalance_rescues_every_task_witness:
  "\<exists>st'. rebalance_from_offline_cpus 1 2 demo_stranded = Some (1, st') \<and> queued_on st' 0 0 \<and> cpu_affinity (TASKS st' ! 0) = 0"
proof -
  let ?b = "sched_boot [(demo_task 1 16)\<lparr>cpu_affinity := 1, context_tp := 1\<rparr>] [True] 1"
  have b: "sched_inv ?b" "1 < MAX_CPUS" "0 < length (TASKS ?b)" "\<not> tk_queued (TASKS ?b ! 0)"
    by (rule sched_inv_boot) (simp_all add: MAX_CPUS_def sched_boot_def demo_task_def)
  note e = cpu_enqueue_effect [OF b, folded demo_stranded_def]
  have q: "sched_queues demo_stranded = upd_q (\<lambda>_ _. []) 1 16 [0]"
  proof -
    have "prio_bucket (priority (TASKS ?b ! 0)) = 16"
      by (simp add: sched_boot_def demo_task_def prio_bucket_def NUM_PRIORITIES_def)
    then show ?thesis
      using e(4) by (simp only: sched_queues_boot) simp
  qed
  have f: "NUM_ONLINE_CPUS demo_stranded = 1" "length (TASKS demo_stranded) = 1"
    using e(3) frame_fields(1) [OF e(5)] by (simp_all add: sched_boot_def)
  have "queue_total demo_stranded 1 = 1" "queued_on demo_stranded 1 0"
    by (simp_all add: queue_total_def queued_on_def q upd_q_apply demo_levels)
  moreover have "cpu_affinity (TASKS demo_stranded ! 0) \<ge> 0"
    using e(3) by (simp add: sched_boot_def demo_task_def)
  moreover obtain st' where r: "rebalance_from_offline_cpus 1 2 demo_stranded = Some (queue_total demo_stranded 1, st')"
      "if \<exists>c\<in>{1..<2}. queued_on demo_stranded c 0 then homed 1 demo_stranded st' 0 else unmoved demo_stranded st' 0"
    using rebalance_rescues_every_task [OF e(2) f(1), of 2] f(2) by (auto simp: MAX_CPUS_def upt_rec)
  ultimately have "homed 1 demo_stranded st' 0" "queue_total demo_stranded 1 = 1" "cpu_affinity (TASKS demo_stranded ! 0) \<ge> 0"
    by (metis atLeastLessThan_iff one_less_numeral_iff order_refl semiring_norm(76))+
  then show ?thesis
    using r(1) by (auto simp: homed_iff)
qed

end
