(* ===== verification/Sched_Dispatch.thy ===== *)
theory Sched_Dispatch
  imports Sched_Place
begin

text \<open>
  The dispatcher (\<open>crates/sched/src/scheduler.rs\<close>): creation of tasks, the timer tick \<open>schedule\<close>, the core
  \<open>do_schedule\<close> with the switch of contexts (\<open>context_switch.S\<close>), blocking, waking, exit, and
  the deadline tasks, over the whole pool and all harts.

  Every operation is one step here; the interleaving inside the operations on one task is
  the subject of the theory of blocking and waking.  The adaptive-partitioning dispatch, which is off
  by default (\<open>SCHED_USE_APS\<close>), is off; its bookkeeping does not touch this state.  The register \<open>tp\<close>
  of a hart is part of the state: the kernel knows the hart it runs on by \<open>current_cpu_id\<close>, which
  reads \<open>tp\<close>, and \<open>context_switch\<close> loads it from the saved context of the next task.  An operation
  may panic (overflow checks are on) or spin for ever at the gate that waits for the context of
  the next task to be saved.
\<close>

datatype sched_res = Panics | Spins | Goes Sched

fun goes_on :: "sched_res \<Rightarrow> (Sched \<Rightarrow> sched_res) \<Rightarrow> sched_res" where
  "goes_on (Goes st) f = f st"
| "goes_on Panics f = Panics"
| "goes_on Spins f = Spins"

definition TICKS_PER_US :: u64 where "TICKS_PER_US = 10"
definition SCHED_TICK_US :: u64 where "SCHED_TICK_US = 10000"
definition ADMISSION_SCALE :: u64 where "ADMISSION_SCALE = 10000"

definition current_cpu_id :: "Sched \<Rightarrow> nat \<Rightarrow> nat" where
  "current_cpu_id st hart = HART_TP st ! hart"

definition task_state :: "Sched \<Rightarrow> nat \<Rightarrow> TaskState" where
  "task_state st idx = state_of (state_wd (TASKS st ! idx))"

definition put_state :: "TaskState \<Rightarrow> Task \<Rightarrow> Task" where
  "put_state s t = t\<lparr>state_wd := set_state (state_wd t) s\<rparr>"

definition initial_slice :: "u32 \<Rightarrow> u32" where
  "initial_slice prio = (if is_rt_priority prio then RT_TIME_SLICE_TICKS else TIME_SLICE_TICKS)"

section \<open>Creation\<close>

definition alloc_slot :: "Sched \<Rightarrow> (nat \<times> Sched) option" where
  "alloc_slot st =
     (case first_idx Not (TASK_VALID st) of
        None \<Rightarrow> None
      | Some i \<Rightarrow> Some (i, (upd_task st i (\<lambda>t. t\<lparr>tk_tid := 0\<rparr>))\<lparr>TASK_VALID := (TASK_VALID st)[i := True]\<rparr>))"

definition deadline_default :: DeadlineParams where
  "deadline_default = \<lparr>period_us = 0, runtime_us = 0, abs_deadline = 0, remaining = 0\<rparr>"

definition next_tid :: "u32 \<Rightarrow> u32" where
  "next_tid tid = (if tid + 1 = 0 then 1 else tid + 1)"

definition init_task :: "u32 \<Rightarrow> u32 \<Rightarrow> int \<Rightarrow> Task \<Rightarrow> Task" where
  "init_task tid prio affinity t =
     t\<lparr>tk_tid := tid, state_wd := pack_state Ready, priority := prio, base_priority := prio, time_slice := initial_slice prio,
       cpu_affinity := affinity, deadline := deadline_default, donation_count := 0, tk_queued := False, wait_reason := NoWait,
       context_saving := False\<rparr>"

definition try_task_create_affinity :: "u32 \<Rightarrow> int \<Rightarrow> Sched \<Rightarrow> nat option \<times> Sched" where
  "try_task_create_affinity prio affinity st =
     (case alloc_slot st of
        None \<Rightarrow> (None, st)
      | Some (idx, st) \<Rightarrow>
          (let st = upd_task st idx (init_task (NEXT_TID st) prio affinity);
               st = st\<lparr>NEXT_TID := next_tid (NEXT_TID st)\<rparr>;
               target_cpu = pick_target_cpu st affinity prio idx;
               st = upd_task st idx (\<lambda>t. t\<lparr>context_tp := target_cpu\<rparr>);
               (ok, st) = cpu_enqueue st target_cpu idx
           in if \<not> ok then (None, upd_task (st\<lparr>TASK_VALID := (TASK_VALID st)[idx := False]\<rparr>) idx (\<lambda>t. t\<lparr>tk_tid := 0\<rparr>))
              else (Some idx, st)))"

definition task_create_affinity :: "u32 \<Rightarrow> int \<Rightarrow> Sched \<Rightarrow> sched_res" where
  "task_create_affinity prio affinity st =
     (case try_task_create_affinity prio affinity st of (None, st) \<Rightarrow> Panics | (Some idx, st) \<Rightarrow> Goes st)"

section \<open>The core of the dispatcher\<close>

definition edf_eligible :: "Sched \<Rightarrow> nat \<Rightarrow> nat \<Rightarrow> bool" where
  "edf_eligible st cpu i \<longleftrightarrow>
     (let t = TASKS st ! i;
          s = task_state st i;
          self_running = (s = Running \<and> current_idx (PER_CPU st ! cpu) = Some i)
      in TASK_VALID st ! i \<and> (s = Ready \<or> self_running) \<and> period_us (deadline t) \<noteq> 0 \<and> remaining (deadline t) \<noteq> 0
         \<and> (if cpu_affinity t \<ge> 0 then nat (cpu_affinity t) = cpu else True))"

fun edf_scan :: "Sched \<Rightarrow> nat \<Rightarrow> nat list \<Rightarrow> nat option \<times> u64 \<Rightarrow> nat option \<times> u64" where
  "edf_scan st cpu [] best = best"
| "edf_scan st cpu (i # is) (best_idx, best_deadline) =
     (if edf_eligible st cpu i \<and> abs_deadline (deadline (TASKS st ! i)) < best_deadline
      then edf_scan st cpu is (Some i, abs_deadline (deadline (TASKS st ! i)))
      else edf_scan st cpu is (best_idx, best_deadline))"

definition find_earliest_deadline :: "Sched \<Rightarrow> nat \<Rightarrow> nat option" where
  "find_earliest_deadline st cpu = fst (edf_scan st cpu [0..<length (TASKS st)] (None, - 1))"

definition pick_next :: "Sched \<Rightarrow> nat \<Rightarrow> nat option \<times> Sched" where
  "pick_next st cpu =
     (case find_earliest_deadline st cpu of
        Some idx \<Rightarrow> (Some idx, upd_task st idx (put_state Running))
      | None \<Rightarrow> cpu_dequeue st cpu)"

definition leave_task :: "Sched \<Rightarrow> nat \<Rightarrow> nat \<Rightarrow> Sched" where
  "leave_task st cpu old =
     (if task_state st old = Running
      then snd (cpu_enqueue (upd_task st old (\<lambda>t. put_state Ready (t\<lparr>context_saving := True\<rparr>))) cpu old)
      else if task_state st old = Zombie
      then upd_task (st\<lparr>TASK_VALID := (TASK_VALID st)[old := False]\<rparr>) old (\<lambda>t. t\<lparr>tk_tid := 0\<rparr>)
      else if task_state st old = Blocked \<and> state_wd (TASKS st ! old) AND WAKE_STAMP \<noteq> 0
      then snd (cpu_enqueue (upd_task st old (\<lambda>t. t\<lparr>state_wd := pack_state Ready, wait_reason := NoWait\<rparr>)) cpu old)
      else st)"

definition context_switch :: "nat \<Rightarrow> nat option \<Rightarrow> nat \<Rightarrow> Sched \<Rightarrow> Sched" where
  "context_switch hart old new st =
     (let st = (case old of None \<Rightarrow> st
                | Some o' \<Rightarrow> upd_task st o' (\<lambda>t. t\<lparr>context_tp := HART_TP st ! hart, context_saving := False\<rparr>))
      in st\<lparr>HART_TP := (HART_TP st)[hart := context_tp (TASKS st ! new)], EXECUTES := (EXECUTES st)[hart := Some new]\<rparr>)"

definition set_current :: "Sched \<Rightarrow> nat \<Rightarrow> nat \<Rightarrow> Sched" where
  "set_current st cpu idx = upd_cpu st cpu ((PER_CPU st ! cpu)\<lparr>current_idx := Some idx\<rparr>)"

definition activate_task :: "Sched \<Rightarrow> nat \<Rightarrow> nat \<Rightarrow> Sched" where
  "activate_task st cpu idx =
     set_current (upd_task st idx (\<lambda>t. (put_state Running t)\<lparr>time_slice := initial_slice (priority t)\<rparr>)) cpu idx"

definition do_schedule :: "nat \<Rightarrow> nat \<Rightarrow> Sched \<Rightarrow> sched_res" where
  "do_schedule hart cpu st =
     (case pick_next st cpu of
        (None, st) \<Rightarrow> Goes st
      | (Some next_idx, st) \<Rightarrow>
          (let old_idx = current_idx (PER_CPU st ! cpu) in
           if old_idx = Some next_idx then Goes st
           else let old_slot_freed = (case old_idx of None \<Rightarrow> False | Some old \<Rightarrow> task_state st old = Zombie);
                    st = (case old_idx of None \<Rightarrow> st | Some old \<Rightarrow> leave_task st cpu old)
                in if context_saving (TASKS st ! next_idx) then Spins
                   else Goes (context_switch hart (if old_slot_freed then None else old_idx) next_idx (activate_task st cpu next_idx))))"

definition task_yield :: "nat \<Rightarrow> Sched \<Rightarrow> sched_res" where
  "task_yield hart st = do_schedule hart (current_cpu_id st hart) st"

definition sched_start :: "nat \<Rightarrow> Sched \<Rightarrow> sched_res" where
  "sched_start hart st =
     (let cpu = current_cpu_id st hart in
      case cpu_dequeue st cpu of
        (None, st) \<Rightarrow> Panics
      | (Some next_idx, st) \<Rightarrow> Goes (context_switch hart None next_idx (activate_task st cpu next_idx)))"

section \<open>The timer tick\<close>

definition bump_ticks :: "Sched \<Rightarrow> Sched" where
  "bump_ticks st = st\<lparr>DEADLINE_TICK_COUNTER := DEADLINE_TICK_COUNTER st + 1\<rparr>"

definition deadline_tick :: "u64 \<Rightarrow> DeadlineParams \<Rightarrow> DeadlineParams option" where
  "deadline_tick now_ticks d =
     (let d = (if remaining d > 0 then d\<lparr>remaining := remaining d - 1\<rparr> else d) in
      if now_ticks > abs_deadline d
      then (case checked_mul (period_us d) TICKS_PER_US of
              None \<Rightarrow> None
            | Some period_ticks \<Rightarrow>
                (case checked_mul (runtime_us d) TICKS_PER_US of
                   None \<Rightarrow> None
                 | Some runtime_ticks \<Rightarrow>
                     (case checked_add (abs_deadline d) period_ticks of
                        None \<Rightarrow> None
                      | Some dl \<Rightarrow> Some (d\<lparr>abs_deadline := dl, remaining := runtime_ticks\<rparr>))))
      else Some d)"

definition tick_running :: "nat \<Rightarrow> nat \<Rightarrow> nat \<Rightarrow> Sched \<Rightarrow> sched_res" where
  "tick_running hart cpu idx st =
     (let t = TASKS st ! idx in
      if period_us (deadline t) > 0
      then (case deadline_tick (DEADLINE_TICK_COUNTER st) (deadline t) of
              None \<Rightarrow> Panics
            | Some d \<Rightarrow> do_schedule hart cpu (bump_ticks (upd_task st idx (\<lambda>t. t\<lparr>deadline := d\<rparr>))))
      else if is_rt_priority (priority t)
      then (case cpu_peek_highest_prio st cpu of
              Some ready_prio \<Rightarrow> if ready_prio < unat (priority t) then do_schedule hart cpu (bump_ticks st) else Goes (bump_ticks st)
            | None \<Rightarrow> Goes (bump_ticks st))
      else if time_slice t > 0
      then let st = upd_task st idx (\<lambda>t. t\<lparr>time_slice := time_slice t - 1\<rparr>)
           in if time_slice t - 1 > 0 then Goes (bump_ticks st) else do_schedule hart cpu (bump_ticks st)
      else do_schedule hart cpu (bump_ticks st))"

definition sched_tick :: "nat \<Rightarrow> Sched \<Rightarrow> sched_res" where
  "sched_tick hart st =
     (let cpu = current_cpu_id st hart in
      if 0 < sint (PREEMPT_COUNT st ! min cpu (MAX_CPUS - 1)) then Goes st
      else case current_idx (PER_CPU st ! cpu) of
          None \<Rightarrow> do_schedule hart cpu (bump_ticks st)
        | Some idx \<Rightarrow>
            if task_state st idx = Zombie then do_schedule hart cpu (bump_ticks st)
            else case (checked_add (total_runtime (TASKS st ! idx)) 1, checked_mul (DEADLINE_TICK_COUNTER st) SCHED_TICK_US) of
                (Some r, Some now_us) \<Rightarrow> tick_running hart cpu idx (upd_task st idx (\<lambda>t. t\<lparr>total_runtime := r\<rparr>))
              | _ \<Rightarrow> Panics)"

definition preempt_disable :: "nat \<Rightarrow> Sched \<Rightarrow> Sched" where
  "preempt_disable hart st =
     (let cpu = min (current_cpu_id st hart) (MAX_CPUS - 1)
      in st\<lparr>PREEMPT_COUNT := (PREEMPT_COUNT st)[cpu := PREEMPT_COUNT st ! cpu + 1]\<rparr>)"

definition preempt_enable :: "nat \<Rightarrow> Sched \<Rightarrow> sched_res" where
  "preempt_enable hart st =
     (let cpu = min (current_cpu_id st hart) (MAX_CPUS - 1);
          prev = PREEMPT_COUNT st ! cpu;
          st = st\<lparr>PREEMPT_COUNT := (PREEMPT_COUNT st)[cpu := prev - 1]\<rparr>
      in if prev = 1 then sched_tick hart st else Goes st)"

section \<open>Blocking, waking and exit\<close>

definition block_current :: "nat \<Rightarrow> WaitReason \<Rightarrow> Sched \<Rightarrow> sched_res" where
  "block_current hart reason st =
     (let cpu = current_cpu_id st hart in
      if cpu \<ge> MAX_CPUS then Goes st
      else case current_idx (PER_CPU st ! cpu) of
          None \<Rightarrow> Goes st
        | Some idx \<Rightarrow>
            (let (committed, w) = commit_blocked_or_consume_wake (state_wd (TASKS st ! idx));
                 st = upd_task st idx (\<lambda>t. t\<lparr>state_wd := w, wait_reason := reason, context_saving := committed\<rparr>)
             in if \<not> committed then Goes st else do_schedule hart cpu st))"

definition dispatch_woken :: "Sched \<Rightarrow> nat \<Rightarrow> Sched" where
  "dispatch_woken st idx =
     (let st = upd_task st idx (\<lambda>t. t\<lparr>wait_reason := NoWait\<rparr>);
          target_cpu = wake_target_cpu st idx;
          st = upd_task st idx (\<lambda>t. t\<lparr>context_tp := target_cpu\<rparr>)
      in snd (cpu_enqueue st target_cpu idx))"

definition wake_slot :: "wake \<Rightarrow> nat \<Rightarrow> Sched \<Rightarrow> WakeTransition \<times> Sched" where
  "wake_slot w idx st =
     (let t = TASKS st ! idx;
          (wt, wd) = wake_transition (state_wd t) (wake_pred w (wait_reason t)) (wake_stamps w) (\<not> context_saving t);
          st = upd_task st idx (\<lambda>t. t\<lparr>state_wd := wd\<rparr>)
      in (wt, if wt = Dispatched then dispatch_woken st idx else st))"

definition try_wake_task :: "wake \<Rightarrow> nat \<Rightarrow> Sched \<Rightarrow> Sched" where
  "try_wake_task w idx st = (if \<not> TASK_VALID st ! idx then st else snd (wake_slot w idx st))"

definition wake_matching :: "wake \<Rightarrow> Sched \<Rightarrow> Sched" where
  "wake_matching w st = fold (try_wake_task w) [0..<length (TASKS st)] st"

definition wake_task_by_tid :: "u32 \<Rightarrow> wake \<Rightarrow> Sched \<Rightarrow> bool \<times> Sched" where
  "wake_task_by_tid tid w st =
     (case find (\<lambda>i. TASK_VALID st ! i \<and> tk_tid (TASKS st ! i) = tid) [0..<length (TASKS st)] of
        None \<Rightarrow> (False, st)
      | Some i \<Rightarrow> (case wake_slot w i st of (wt, st) \<Rightarrow> (wt = Dispatched, st)))"

definition wq_wake_by_tid :: "u32 \<Rightarrow> Sched \<Rightarrow> Sched" where
  "wq_wake_by_tid tid st =
     (case find (\<lambda>i. TASK_VALID st ! i \<and> tk_tid (TASKS st ! i) = tid) [0..<length (TASKS st)] of
        None \<Rightarrow> st
      | Some i \<Rightarrow> snd (wake_slot by_wait_queue i st))"

definition reap_slot :: "nat \<Rightarrow> Sched \<Rightarrow> Sched" where
  "reap_slot i st =
     (let t = TASKS st ! i; w = state_wd t in
      if \<not> TASK_VALID st ! i \<or> w AND WAKE_STAMP = 0 \<or> state_of w \<noteq> Blocked \<or> context_saving t
         \<or> list_ex (\<lambda>cpu. current_idx (PER_CPU st ! cpu) = Some i) [0..<MAX_CPUS]
      then st
      else let (won, w) = reap_orphaned_stamp w
           in if won then dispatch_woken (upd_task st i (\<lambda>t. t\<lparr>state_wd := w\<rparr>)) i else st)"

definition reap_stamped_sleepers :: "Sched \<Rightarrow> Sched" where
  "reap_stamped_sleepers st = fold reap_slot [0..<length (TASKS st)] st"

definition task_exit :: "nat \<Rightarrow> Sched \<Rightarrow> sched_res" where
  "task_exit hart st =
     (let cpu = current_cpu_id st hart;
          st = (case current_idx (PER_CPU st ! cpu) of None \<Rightarrow> st | Some idx \<Rightarrow> upd_task st idx (put_state Zombie))
      in do_schedule hart cpu st)"

section \<open>Deadline tasks\<close>

fun util_scan :: "(bool \<times> Task) list \<Rightarrow> u64 \<Rightarrow> u64 option" where
  "util_scan [] acc = Some acc"
| "util_scan ((valid, t) # ts) acc =
     (if \<not> valid \<or> period_us (deadline t) = 0 then util_scan ts acc
      else case checked_mul (runtime_us (deadline t)) ADMISSION_SCALE of
          None \<Rightarrow> None
        | Some x \<Rightarrow> (case checked_add acc (x div period_us (deadline t)) of None \<Rightarrow> None | Some acc \<Rightarrow> util_scan ts acc))"

definition deadline_admission_check :: "u64 \<Rightarrow> u64 \<Rightarrow> Sched \<Rightarrow> bool outcome" where
  "deadline_admission_check period runtime st =
     (if period = 0 then Ret False
      else case (util_scan (zip (TASK_VALID st) (TASKS st)) 0, checked_mul runtime ADMISSION_SCALE) of
          (Some total_util, Some x) \<Rightarrow>
            (case checked_add total_util (x div period) of None \<Rightarrow> Panic | Some u \<Rightarrow> Ret (u \<le> ADMISSION_SCALE))
        | _ \<Rightarrow> Panic)"

definition task_set_deadline :: "nat \<Rightarrow> u64 \<Rightarrow> u64 \<Rightarrow> Sched \<Rightarrow> sched_res" where
  "task_set_deadline idx period runtime st =
     (if idx \<ge> length (TASKS st) \<or> period = 0 \<or> runtime = 0 \<or> runtime > period then Goes st
      else case deadline_admission_check period runtime st of
          Panic \<Rightarrow> Panics
        | Ret admitted \<Rightarrow>
            if \<not> admitted \<or> \<not> TASK_VALID st ! idx then Goes st
            else case (checked_mul period TICKS_PER_US, checked_mul runtime TICKS_PER_US) of
                (Some period_ticks, Some runtime_ticks) \<Rightarrow>
                  (case checked_add (DEADLINE_TICK_COUNTER st) period_ticks of
                     None \<Rightarrow> Panics
                   | Some dl \<Rightarrow> Goes (upd_task st idx (\<lambda>t. t\<lparr>deadline :=
                       \<lparr>period_us = period, runtime_us = runtime, abs_deadline = dl, remaining = runtime_ticks\<rparr>\<rparr>)))
              | _ \<Rightarrow> Panics)"

section \<open>Steps of the harts\<close>

datatype sched_op =
    Create u32 int | Start nat | TimerTick nat | Yield nat | BlockOn nat WaitReason | Exit nat
  | WakeAll wake | WakeTid u32 wake | WakeQueue u32 | ReapAll
  | PreemptOff nat | PreemptOn nat | Donate q_op | Online nat | SetDeadline nat u64 u64

text \<open>
  A hart executes code of a task that has not exited, or, before its start, boot code; the
  timer ticks on every hart.
\<close>

definition live_hart :: "Sched \<Rightarrow> nat \<Rightarrow> bool" where
  "live_hart st hart \<longleftrightarrow> hart < MAX_CPUS
     \<and> (case EXECUTES st ! hart of None \<Rightarrow> False | Some i \<Rightarrow> task_state st i \<noteq> Zombie)"

fun op_enabled :: "Sched \<Rightarrow> sched_op \<Rightarrow> bool" where
  "op_enabled st (Start hart) \<longleftrightarrow> hart < MAX_CPUS \<and> EXECUTES st ! hart = None"
| "op_enabled st (TimerTick hart) \<longleftrightarrow> hart < MAX_CPUS"
| "op_enabled st (Yield hart) \<longleftrightarrow> live_hart st hart"
| "op_enabled st (BlockOn hart _) \<longleftrightarrow> live_hart st hart"
| "op_enabled st (Exit hart) \<longleftrightarrow> live_hart st hart"
| "op_enabled st (PreemptOff hart) \<longleftrightarrow> live_hart st hart"
| "op_enabled st (PreemptOn hart) \<longleftrightarrow> live_hart st hart"
| "op_enabled st (WakeAll w) \<longleftrightarrow> \<not> wake_stamps w"
| "op_enabled st (WakeTid _ w) \<longleftrightarrow> wake_stamps w"
| "op_enabled st (Donate x) \<longleftrightarrow> (case x of Enqueue _ _ \<Rightarrow> False | Dequeue _ \<Rightarrow> False | _ \<Rightarrow> q_op_ok (length (TASKS st)) x)"
| "op_enabled st _ \<longleftrightarrow> True"

fun sched_step :: "sched_op \<Rightarrow> Sched \<Rightarrow> sched_res" where
  "sched_step (Create prio affinity) st = Goes (snd (try_task_create_affinity prio affinity st))"
| "sched_step (Start hart) st = sched_start hart st"
| "sched_step (TimerTick hart) st = sched_tick hart st"
| "sched_step (Yield hart) st = task_yield hart st"
| "sched_step (BlockOn hart reason) st = block_current hart reason st"
| "sched_step (Exit hart) st = task_exit hart st"
| "sched_step (WakeAll w) st = Goes (wake_matching w st)"
| "sched_step (WakeTid tid w) st = Goes (snd (wake_task_by_tid tid w st))"
| "sched_step (WakeQueue tid) st = Goes (wq_wake_by_tid tid st)"
| "sched_step ReapAll st = Goes (reap_stamped_sleepers st)"
| "sched_step (PreemptOff hart) st = Goes (preempt_disable hart st)"
| "sched_step (PreemptOn hart) st = preempt_enable hart st"
| "sched_step (Donate x) st = Goes (snd (q_step st x))"
| "sched_step (Online n) st = Goes (st\<lparr>NUM_ONLINE_CPUS := n\<rparr>)"
| "sched_step (SetDeadline idx period runtime) st = task_set_deadline idx period runtime st"

inductive sched_reach :: "(sched_op \<Rightarrow> bool) \<Rightarrow> Sched \<Rightarrow> sched_res \<Rightarrow> bool" for allowed where
  reach_refl: "sched_reach allowed st (Goes st)"
| reach_step: "sched_reach allowed st (Goes u) \<Longrightarrow> allowed x \<Longrightarrow> op_enabled u x \<Longrightarrow> sched_reach allowed st (sched_step x u)"

section \<open>What each task goes through\<close>

text \<open>
  The invariant has one clause per task, over what concerns the task: its record, whether its slot
  is in use, whether it is the current task of a hart, and the harts on whose queues it is.
\<close>

definition is_current :: "Sched \<Rightarrow> nat \<Rightarrow> bool" where
  "is_current st i \<longleftrightarrow> Some i \<in> set (map current_idx (PER_CPU st))"

definition task_ok :: "Task \<Rightarrow> bool \<Rightarrow> bool \<Rightarrow> (nat \<Rightarrow> bool) \<Rightarrow> bool" where
  "task_ok t valid cur on \<longleftrightarrow>
     (valid \<longrightarrow> word_ok (state_wd t) \<and> period_us (deadline t) = 0)
     \<and> (if cur then valid \<and> \<not> tk_queued t \<and> state_of (state_wd t) \<in> {Running, Blocked, Zombie}
                  \<and> (state_of (state_wd t) \<noteq> Zombie \<longrightarrow> context_saving t = (state_of (state_wd t) = Blocked))
        else if valid then \<not> context_saving t \<and> (state_of (state_wd t) = Ready \<and> tk_queued t \<or> state_of (state_wd t) = Blocked \<and> \<not> tk_queued t)
        else \<not> tk_queued t)
     \<and> (\<forall>c. on c \<longrightarrow> context_tp t = c)"

abbreviation task_inv :: "Sched \<Rightarrow> nat \<Rightarrow> bool" where
  "task_inv st i \<equiv> task_ok (TASKS st ! i) (TASK_VALID st ! i) (is_current st i) (\<lambda>c. queued_on st c i)"

definition harts_inv :: "Sched \<Rightarrow> bool" where
  "harts_inv st \<longleftrightarrow> HART_TP st = [0..<MAX_CPUS] \<and> EXECUTES st = map current_idx (PER_CPU st)
     \<and> (\<forall>h<MAX_CPUS. \<forall>i. current_idx (PER_CPU st ! h) = Some i \<longrightarrow> i < length (TASKS st))
     \<and> (\<forall>h<MAX_CPUS. \<forall>h'<MAX_CPUS. \<forall>i. current_idx (PER_CPU st ! h) = Some i \<longrightarrow> current_idx (PER_CPU st ! h') = Some i \<longrightarrow> h = h')"

definition dispatch_inv :: "Sched \<Rightarrow> bool" where
  "dispatch_inv st \<longleftrightarrow> sched_inv st \<and> harts_inv st \<and> (\<forall>i<length (TASKS st). task_inv st i)"

lemma length_PER_CPU: "sched_inv st \<Longrightarrow> length (PER_CPU st) = MAX_CPUS"
  by (simp add: sched_inv_def)

lemma is_current_iff:
  "sched_inv st \<Longrightarrow> is_current st i \<longleftrightarrow> (\<exists>h<MAX_CPUS. current_idx (PER_CPU st ! h) = Some i)"
  unfolding is_current_def in_set_conv_nth length_map by (auto simp: length_PER_CPU)

lemma queues_updates [simp]:
  "sched_queues (st\<lparr>TASK_VALID := v\<rparr>) = sched_queues st" "sched_queues (st\<lparr>NEXT_TID := tid\<rparr>) = sched_queues st"
  "sched_queues (st\<lparr>HART_TP := tp\<rparr>) = sched_queues st" "sched_queues (st\<lparr>EXECUTES := e\<rparr>) = sched_queues st"
  "sched_queues (st\<lparr>DEADLINE_TICK_COUNTER := d\<rparr>) = sched_queues st" "sched_queues (st\<lparr>PREEMPT_COUNT := pc\<rparr>) = sched_queues st"
  "sched_queues (st\<lparr>NUM_ONLINE_CPUS := m\<rparr>) = sched_queues st"
  by (simp_all add: sched_queues_def fun_eq_iff)

lemma queued_on_updates [simp]:
  "queued_on (st\<lparr>TASK_VALID := v\<rparr>) = queued_on st" "queued_on (st\<lparr>NEXT_TID := tid\<rparr>) = queued_on st"
  "queued_on (st\<lparr>HART_TP := tp\<rparr>) = queued_on st" "queued_on (st\<lparr>EXECUTES := e\<rparr>) = queued_on st"
  "queued_on (st\<lparr>DEADLINE_TICK_COUNTER := d\<rparr>) = queued_on st" "queued_on (st\<lparr>PREEMPT_COUNT := pc\<rparr>) = queued_on st"
  "queued_on (st\<lparr>NUM_ONLINE_CPUS := m\<rparr>) = queued_on st"
  by (simp_all add: queued_on_iff fun_eq_iff)

lemma sched_inv_updates [simp]:
  "sched_inv (st\<lparr>NEXT_TID := tid\<rparr>) = sched_inv st" "sched_inv (st\<lparr>HART_TP := tp\<rparr>) = sched_inv st"
  "sched_inv (st\<lparr>EXECUTES := e\<rparr>) = sched_inv st" "sched_inv (st\<lparr>DEADLINE_TICK_COUNTER := d\<rparr>) = sched_inv st"
  "sched_inv (st\<lparr>PREEMPT_COUNT := pc\<rparr>) = sched_inv st" "sched_inv (st\<lparr>NUM_ONLINE_CPUS := m\<rparr>) = sched_inv st"
  "sched_inv (st\<lparr>TASK_VALID := (TASK_VALID st)[i := b]\<rparr>) = sched_inv st"
  by (simp_all add: sched_inv_def)

lemma is_current_updates [simp]:
  "is_current (st\<lparr>TASK_VALID := v\<rparr>) = is_current st" "is_current (st\<lparr>NEXT_TID := tid\<rparr>) = is_current st"
  "is_current (st\<lparr>HART_TP := tp\<rparr>) = is_current st" "is_current (st\<lparr>EXECUTES := e\<rparr>) = is_current st"
  "is_current (st\<lparr>DEADLINE_TICK_COUNTER := d\<rparr>) = is_current st" "is_current (st\<lparr>PREEMPT_COUNT := pc\<rparr>) = is_current st"
  "is_current (st\<lparr>NUM_ONLINE_CPUS := m\<rparr>) = is_current st"
  by (simp_all add: is_current_def fun_eq_iff)

lemma upd_task_fields [simp]:
  "HART_TP (upd_task st i f) = HART_TP st" "EXECUTES (upd_task st i f) = EXECUTES st" "NEXT_TID (upd_task st i f) = NEXT_TID st"
  "DEADLINE_TICK_COUNTER (upd_task st i f) = DEADLINE_TICK_COUNTER st" "PREEMPT_COUNT (upd_task st i f) = PREEMPT_COUNT st"
  "NUM_ONLINE_CPUS (upd_task st i f) = NUM_ONLINE_CPUS st"
  by (simp_all add: upd_task_def)

lemma queued_on_upd_task [simp]: "queued_on (upd_task st j f) c i = queued_on st c i"
  by (simp add: queued_on_iff)

lemma is_current_upd_task [simp]: "is_current (upd_task st j f) i = is_current st i"
  by (simp add: is_current_def)

lemma enqueue_view:
  assumes "sched_inv st" "cpu < MAX_CPUS" "idx < length (TASKS st)" "\<not> tk_queued (TASKS st ! idx)"
  defines "st' \<equiv> snd (cpu_enqueue st cpu idx)"
  shows "sched_inv st'" "frame st' = frame st" "TASKS st' = (TASKS st)[idx := (TASKS st ! idx)\<lparr>tk_queued := True\<rparr>]"
    "queued_on st' c i \<longleftrightarrow> queued_on st c i \<or> c = cpu \<and> i = idx" "fst (cpu_enqueue st cpu idx)"
proof -
  note e = cpu_enqueue_effect [OF assms(1-4), folded st'_def]
  then show "sched_inv st'" "frame st' = frame st" "TASKS st' = (TASKS st)[idx := (TASKS st ! idx)\<lparr>tk_queued := True\<rparr>]"
    "fst (cpu_enqueue st cpu idx)"
    by simp_all
  have "i \<in> set (sched_queues st' c q) \<longleftrightarrow> i \<in> set (sched_queues st c q) \<or> c = cpu \<and> i = idx \<and> q = prio_bucket (priority (TASKS st ! idx))" for q
    unfolding e(4) by (auto simp: upd_q_apply)
  then show "queued_on st' c i \<longleftrightarrow> queued_on st c i \<or> c = cpu \<and> i = idx"
    unfolding queued_on_iff by blast
qed

lemma not_queued_on:
  assumes "sched_inv st" "idx < length (TASKS st)" "\<not> tk_queued (TASKS st ! idx)"
  shows "\<not> queued_on st c idx"
  using queues_ok_flag [OF sched_inv_queues [OF assms(1)] assms(2)] assms(3) by (auto simp: queued_on_iff)

lemma dequeue_view:
  assumes "sched_inv st" "cpu < MAX_CPUS" "cpu_dequeue st cpu = (Some idx, st')"
  shows "sched_inv st'" "frame st' = frame st" "idx < length (TASKS st)" "tk_queued (TASKS st ! idx)"
    "TASKS st' = (TASKS st)[idx := (TASKS st ! idx)\<lparr>tk_queued := False\<rparr>]" "queued_on st cpu idx"
    "queued_on st' c i \<longleftrightarrow> queued_on st c i \<and> i \<noteq> idx"
proof -
  obtain p xs where e: "sched_queues st cpu p = idx # xs" "sched_queues st' = upd_q (sched_queues st) cpu p xs"
    "idx < length (TASKS st)" "tk_queued (TASKS st ! idx)" "sched_inv st'"
    "TASKS st' = (TASKS st)[idx := (TASKS st ! idx)\<lparr>tk_queued := False\<rparr>]" "frame st' = frame st"
    using cpu_dequeue_effect [OF assms] by metis
  then show "sched_inv st'" "frame st' = frame st" "idx < length (TASKS st)" "tk_queued (TASKS st ! idx)"
    "TASKS st' = (TASKS st)[idx := (TASKS st ! idx)\<lparr>tk_queued := False\<rparr>]"
    by simp_all
  show "queued_on st cpu idx"
    using e(1) by (auto simp: queued_on_iff intro!: exI [of _ p])
  show "queued_on st' c i \<longleftrightarrow> queued_on st c i \<and> i \<noteq> idx"
  proof (cases "i = idx")
    case True
    then show ?thesis
      using not_queued_on [OF e(5), of idx c] e(3,6) by simp
  next
    case False
    then have "i \<in> set (sched_queues st' c q) \<longleftrightarrow> i \<in> set (sched_queues st c q)" for q
      using e(1,2) by (simp add: upd_q_apply)
    then show ?thesis
      using False by (simp add: queued_on_iff)
  qed
qed

text \<open>A change of the fields of one task, other than its queue flag.\<close>

lemma upd_task_view:
  assumes "sched_inv st" "i < length (TASKS st)" "tk_queued (f (TASKS st ! i)) = tk_queued (TASKS st ! i)"
  shows "sched_inv (upd_task st i f)"
proof -
  have "(\<lambda>j. tk_queued ((TASKS st)[i := f (TASKS st ! i)] ! j)) = (\<lambda>j. tk_queued (TASKS st ! j))"
    using assms(2,3) by (auto simp: fun_eq_iff nth_list_update)
  then show "sched_inv (upd_task st i f)"
    using assms(1) by (simp add: sched_inv_def)
qed

text \<open>A step that concerns one task keeps the invariant when it keeps the clause of that task.\<close>

lemma dispatch_inv_one:
  assumes "dispatch_inv st" "sched_inv st'" "HART_TP st' = HART_TP st" "EXECUTES st' = EXECUTES st"
    "map current_idx (PER_CPU st') = map current_idx (PER_CPU st)" "length (TASKS st') = length (TASKS st)"
    "\<And>j. j \<noteq> i \<Longrightarrow> TASKS st' ! j = TASKS st ! j" "\<And>j. j \<noteq> i \<Longrightarrow> TASK_VALID st' ! j = TASK_VALID st ! j"
    "\<And>j c. j \<noteq> i \<Longrightarrow> queued_on st' c j = queued_on st c j" "i < length (TASKS st) \<Longrightarrow> task_inv st' i"
  shows "dispatch_inv st'"
proof -
  have c: "is_current st' j = is_current st j" for j
    using assms(5) by (simp add: is_current_def)
  have "current_idx (PER_CPU st' ! h) = current_idx (PER_CPU st ! h)" if "h < MAX_CPUS" for h
    using arg_cong [OF assms(5), of "\<lambda>xs. xs ! h"] that assms(1,2) by (simp add: length_PER_CPU dispatch_inv_def)
  then have "harts_inv st' = harts_inv st"
    using assms(3-6) by (simp add: harts_inv_def)
  moreover have "task_inv st' j" if "j < length (TASKS st)" for j
  proof (cases "j = i")
    case False
    then show ?thesis
      using assms(1) that assms(7-9) [OF False] c by (simp add: dispatch_inv_def)
  qed (use assms(10) that in simp)
  ultimately show ?thesis
    using assms(1,2,6) by (simp add: dispatch_inv_def)
qed

lemma dispatch_inv_upd_task:
  assumes "dispatch_inv st" "i < length (TASKS st)" "\<And>t. tk_queued (f t) = tk_queued t"
    "task_ok (f (TASKS st ! i)) (TASK_VALID st ! i) (is_current st i) (\<lambda>c. queued_on st c i)"
  shows "dispatch_inv (upd_task st i f)"
proof (rule dispatch_inv_one [OF assms(1), where i = i])
  show "sched_inv (upd_task st i f)"
    using upd_task_view assms(1-3) by (simp add: dispatch_inv_def)
qed (use assms in simp_all)

section \<open>The core keeps the invariant\<close>

lemma edf_scan_none: "(\<And>i. i \<in> set is \<Longrightarrow> \<not> edf_eligible st cpu i) \<Longrightarrow> edf_scan st cpu is best = best"
  by (induction "is" arbitrary: best) auto

lemma edf_scan_append: "edf_scan st cpu (is @ js) best = edf_scan st cpu js (edf_scan st cpu is best)"
  by (induction "is" arbitrary: best) auto

lemma find_earliest_deadline_none:
  "(\<And>i. i < length (TASKS st) \<Longrightarrow> \<not> edf_eligible st cpu i) \<Longrightarrow> find_earliest_deadline st cpu = None"
  using edf_scan_none [of "[0..<length (TASKS st)]" st cpu "(None, - 1)"] by (simp add: find_earliest_deadline_def)

lemma find_earliest_deadline_only:
  assumes "i < length (TASKS st)" "edf_eligible st cpu i" "abs_deadline (deadline (TASKS st ! i)) \<noteq> - 1"
    "\<And>j. j < length (TASKS st) \<Longrightarrow> j \<noteq> i \<Longrightarrow> \<not> edf_eligible st cpu j"
  shows "find_earliest_deadline st cpu = Some i"
proof -
  have "[0..<length (TASKS st)] = [0..<i] @ i # [Suc i..<length (TASKS st)]"
    using assms(1) by (metis append_Cons less_imp_le upt_conv_Cons upt_add_eq_append le0 le_add_diff_inverse)
  moreover have "abs_deadline (deadline (TASKS st ! i)) < - 1"
    using assms(3) by (simp add: word_order.not_eq_extremum)
  moreover have "edf_scan st cpu [0..<i] best = best" "edf_scan st cpu [Suc i..<length (TASKS st)] best = best" for best
    using assms(1,4) by (auto intro!: edf_scan_none)
  ultimately show ?thesis
    using assms(2) by (simp add: find_earliest_deadline_def edf_scan_append)
qed

lemma no_deadline_task:
  assumes "dispatch_inv st"
  shows "find_earliest_deadline st cpu = None"
  using assms by (intro find_earliest_deadline_none) (auto simp: edf_eligible_def Let_def dispatch_inv_def task_ok_def)

lemma set_current_view:
  assumes "sched_inv st" "cpu < MAX_CPUS"
  shows "sched_inv (set_current st cpu i)" "TASKS (set_current st cpu i) = TASKS st" "TASK_VALID (set_current st cpu i) = TASK_VALID st"
    "queued_on (set_current st cpu i) c j = queued_on st c j"
    "map current_idx (PER_CPU (set_current st cpu i)) = (map current_idx (PER_CPU st))[cpu := Some i]"
    "HART_TP (set_current st cpu i) = HART_TP st" "EXECUTES (set_current st cpu i) = EXECUTES st"
proof -
  let ?c = "(PER_CPU st ! cpu)\<lparr>current_idx := Some i\<rparr>"
  have c: "cpu_inv n ?c = cpu_inv n (PER_CPU st ! cpu)" "cpu_list ?c = cpu_list (PER_CPU st ! cpu)" for n
    by (simp_all add: cpu_inv_def cpu_list_def fun_eq_iff)
  have q: "sched_queues (set_current st cpu i) = sched_queues st"
    using c(2) length_PER_CPU [OF assms(1)] assms(2)
    by (auto simp: set_current_def sched_queues_def fun_eq_iff nth_list_update)
  then show "queued_on (set_current st cpu i) c j = queued_on st c j"
    by (simp add: queued_on_iff)
  have "cpu_inv (length (TASKS st)) (((PER_CPU st)[cpu := ?c]) ! h)" if "h < MAX_CPUS" for h
    using sched_invD(2) [OF assms(1) that] c(1) that assms(2)
    by (cases "h = cpu") (simp_all add: length_PER_CPU [OF assms(1)])
  then show "sched_inv (set_current st cpu i)"
    using assms(1) q by (simp add: sched_inv_def set_current_def)
qed (simp_all add: set_current_def upd_cpu_def map_update)

text \<open>Leaving a task: what remains to be done for it when its context has been saved.\<close>

definition left_behind :: "Sched \<Rightarrow> nat \<Rightarrow> nat \<Rightarrow> Sched \<Rightarrow> bool" where
  "left_behind st cpu old st' \<longleftrightarrow>
     sched_inv st' \<and> length (TASKS st') = length (TASKS st) \<and> HART_TP st' = HART_TP st \<and> EXECUTES st' = EXECUTES st
     \<and> map current_idx (PER_CPU st') = map current_idx (PER_CPU st)
     \<and> (\<forall>j. j \<noteq> old \<longrightarrow> TASKS st' ! j = TASKS st ! j \<and> TASK_VALID st' ! j = TASK_VALID st ! j \<and> (\<forall>c. queued_on st' c j = queued_on st c j))
     \<and> task_ok (if task_state st old = Zombie then TASKS st' ! old else (TASKS st' ! old)\<lparr>context_tp := cpu, context_saving := False\<rparr>)
         (TASK_VALID st' ! old) False (\<lambda>c. queued_on st' c old)"

lemma leave_requeue:
  assumes "sched_inv st" "cpu < MAX_CPUS" "old < length (TASKS st)" "TASK_VALID st ! old"
    "\<not> tk_queued (TASKS st ! old)" "task_state st old \<noteq> Zombie"
    "\<And>t. tk_queued (f t) = tk_queued t" "\<And>t. deadline (f t) = deadline t"
    "state_wd (f (TASKS st ! old)) = state_word Ready b" "period_us (deadline (TASKS st ! old)) = 0"
  shows "left_behind st cpu old (snd (cpu_enqueue (upd_task st old f) cpu old))"
proof -
  let ?st' = "snd (cpu_enqueue (upd_task st old f) cpu old)"
  have "sched_inv (upd_task st old f)"
    using upd_task_view [OF assms(1,3)] assms(7) by simp
  note v = enqueue_view [OF this assms(2), of old]
  have fr: "frame ?st' = frame st"
    using v(2) assms(3,5,7) by simp
  show ?thesis
    using v assms frame_fields [OF fr] not_queued_on [OF assms(1,3,5)] by (simp add: left_behind_def task_ok_def)
qed

lemma leave_task_view:
  assumes "sched_inv st" "cpu < MAX_CPUS" "old < length (TASKS st)" "TASK_VALID st ! old"
    "task_ok (TASKS st ! old) True True (\<lambda>c. queued_on st c old)"
  shows "left_behind st cpu old (leave_task st cpu old)"
proof -
  let ?t = "TASKS st ! old"
  have t: "word_ok (state_wd ?t)" "period_us (deadline ?t) = 0" "\<not> tk_queued ?t"
    using assms(5) by (auto simp: task_ok_def)
  obtain s b where w: "state_wd ?t = state_word s b"
    using t(1) by (metis word_ok_def)
  have s: "s = Running \<or> s = Blocked \<or> s = Zombie"
    using assms(5) w by (auto simp: task_ok_def)
  note nq = not_queued_on [OF assms(1,3) t(3)]
  note rq = leave_requeue [OF assms(1-4) t(3)]
  consider (running) "s = Running" | (zombie) "s = Zombie" | (stamped) "s = Blocked" "b" | (blocked) "s = Blocked" "\<not> b"
    using s by blast
  then show ?thesis
  proof cases
    case running
    then show ?thesis
      using rq [of "\<lambda>t. put_state Ready (t\<lparr>context_saving := True\<rparr>)" b] w t(2)
      by (simp add: leave_task_def task_state_def put_state_def)
  next
    case zombie
    let ?st = "st\<lparr>TASK_VALID := (TASK_VALID st)[old := False]\<rparr>"
    have "sched_inv ?st"
      using assms(1) by simp
    then have "sched_inv (upd_task ?st old (\<lambda>t. t\<lparr>tk_tid := 0\<rparr>))"
      by (rule upd_task_view) (simp_all add: assms(3))
    then show ?thesis
      using assms(1,3) t nq w zombie
      by (simp add: left_behind_def leave_task_def task_state_def task_ok_def sched_inv_def [of st])
  next
    case stamped
    then show ?thesis
      using rq [of "\<lambda>t. t\<lparr>state_wd := pack_state Ready, wait_reason := NoWait\<rparr>" False] w t(2)
      by (simp add: leave_task_def task_state_def pack_state_word)
  next
    case blocked
    then show ?thesis
      using assms(1,4) w t nq by (simp add: leave_task_def left_behind_def task_state_def task_ok_def)
  qed
qed

lemma switch_view:
  fixes hart :: nat
  assumes "sched_inv st" "cpu < MAX_CPUS" "nxt < length (TASKS st)" "old \<noteq> Some nxt" "\<And>j. old = Some j \<Longrightarrow> j < length (TASKS st)"
  defines "st' \<equiv> context_switch hart old nxt (activate_task st cpu nxt)"
  shows "sched_inv st'" "length (TASKS st') = length (TASKS st)" "TASK_VALID st' = TASK_VALID st" "queued_on st' = queued_on st"
    "map current_idx (PER_CPU st') = (map current_idx (PER_CPU st))[cpu := Some nxt]"
    "HART_TP st' = (HART_TP st)[hart := context_tp (TASKS st ! nxt)]" "EXECUTES st' = (EXECUTES st)[hart := Some nxt]"
    "TASKS st' ! nxt = (put_state Running (TASKS st ! nxt))\<lparr>time_slice := initial_slice (priority (TASKS st ! nxt))\<rparr>"
    "j \<noteq> nxt \<Longrightarrow> TASKS st' ! j =
       (if old = Some j then (TASKS st ! j)\<lparr>context_tp := HART_TP st ! hart, context_saving := False\<rparr> else TASKS st ! j)"
proof -
  let ?f = "\<lambda>t. (put_state Running t)\<lparr>time_slice := initial_slice (priority t)\<rparr>"
  have u: "sched_inv (upd_task st nxt ?f)"
    using upd_task_view [OF assms(1,3)] by (simp add: put_state_def)
  let ?st = "activate_task st cpu nxt"
  note v = set_current_view [OF u assms(2), of nxt, folded activate_task_def]
  have a: "sched_inv ?st" "TASKS ?st = (TASKS st)[nxt := ?f (TASKS st ! nxt)]" "TASK_VALID ?st = TASK_VALID st" "queued_on ?st = queued_on st"
      "map current_idx (PER_CPU ?st) = (map current_idx (PER_CPU st))[cpu := Some nxt]" "HART_TP ?st = HART_TP st" "EXECUTES ?st = EXECUTES st"
    using v by (simp_all add: fun_eq_iff)
  define g :: "Task \<Rightarrow> Task" where "g = (\<lambda>t. t\<lparr>context_tp := HART_TP st ! hart, context_saving := False\<rparr>)"
  define st1 where "st1 = (case old of None \<Rightarrow> ?st | Some i \<Rightarrow> upd_task ?st i g)"
  have e: "st' = st1\<lparr>HART_TP := (HART_TP st1)[hart := context_tp (TASKS st1 ! nxt)], EXECUTES := (EXECUTES st1)[hart := Some nxt]\<rparr>"
    by (simp add: st'_def context_switch_def Let_def st1_def g_def a(6) cong: option.case_cong)
  have i1: "sched_inv st1"
    using a(1,2) assms(5) upd_task_view [OF a(1), of _ g] by (auto simp: st1_def g_def split: option.split)
  have f1: "length (TASKS st1) = length (TASKS st)" "TASK_VALID st1 = TASK_VALID st" "queued_on st1 = queued_on st"
      "map current_idx (PER_CPU st1) = (map current_idx (PER_CPU st))[cpu := Some nxt]" "HART_TP st1 = HART_TP st" "EXECUTES st1 = EXECUTES st"
    using a by (auto simp: st1_def fun_eq_iff split: option.split)
  have t1: "TASKS st1 ! nxt = ?f (TASKS st ! nxt)" "j \<noteq> nxt \<Longrightarrow> TASKS st1 ! j = (if old = Some j then g (TASKS st ! j) else TASKS st ! j)" for j
    using a(2) assms(3-5) by (auto simp: st1_def nth_list_update split: option.split)
  show "sched_inv st'" "length (TASKS st') = length (TASKS st)" "TASK_VALID st' = TASK_VALID st" "queued_on st' = queued_on st"
    "map current_idx (PER_CPU st') = (map current_idx (PER_CPU st))[cpu := Some nxt]"
    "EXECUTES st' = (EXECUTES st)[hart := Some nxt]"
    using i1 f1 by (simp_all add: e)
  show "HART_TP st' = (HART_TP st)[hart := context_tp (TASKS st ! nxt)]"
    using t1(1) f1(5) by (simp add: e put_state_def)
  show "TASKS st' ! nxt = ?f (TASKS st ! nxt)"
    "j \<noteq> nxt \<Longrightarrow> TASKS st' ! j =
       (if old = Some j then (TASKS st ! j)\<lparr>context_tp := HART_TP st ! hart, context_saving := False\<rparr> else TASKS st ! j)"
    using t1 by (simp_all add: e g_def)
qed

lemma harts_invD:
  assumes "harts_inv st" "h < MAX_CPUS"
  shows "HART_TP st ! h = h" "current_cpu_id st h = h" "EXECUTES st = map current_idx (PER_CPU st)"
    "current_idx (PER_CPU st ! h) = Some i \<Longrightarrow> i < length (TASKS st)"
  using assms by (auto simp: harts_inv_def current_cpu_id_def)

lemma harts_inv_switch:
  assumes "harts_inv st" "sched_inv st" "sched_inv st'" "hart < MAX_CPUS" "nxt < length (TASKS st)" "\<not> is_current st nxt"
    "length (TASKS st') = length (TASKS st)" "map current_idx (PER_CPU st') = (map current_idx (PER_CPU st))[hart := Some nxt]"
    "HART_TP st' = (HART_TP st)[hart := hart]" "EXECUTES st' = (EXECUTES st)[hart := Some nxt]"
  shows "harts_inv st'"
    and "is_current st' j \<longleftrightarrow> j = nxt \<or> is_current st j \<and> current_idx (PER_CPU st ! hart) \<noteq> Some j"
proof -
  have c: "current_idx (PER_CPU st' ! h) = (if h = hart then Some nxt else current_idx (PER_CPU st ! h))" if "h < MAX_CPUS" for h
    using arg_cong [OF assms(8), of "\<lambda>xs. xs ! h"] that assms(4) by (simp add: length_PER_CPU assms(2,3) nth_list_update)
  have n: "current_idx (PER_CPU st ! h) \<noteq> Some nxt" if "h < MAX_CPUS" for h
    using assms(2,6) that by (auto simp: is_current_iff)
  have "HART_TP st' = HART_TP st"
    using assms(1,4,9) by (simp add: harts_inv_def list_update_same_conv)
  moreover have u: "h = h'" if "h < MAX_CPUS" "h' < MAX_CPUS" "current_idx (PER_CPU st ! h) = Some i" "current_idx (PER_CPU st ! h') = Some i" for h h' i
    using assms(1) that unfolding harts_inv_def by blast
  moreover have "h = h'" if "h < MAX_CPUS" "h' < MAX_CPUS" "current_idx (PER_CPU st' ! h) = Some i" "current_idx (PER_CPU st' ! h') = Some i" for h h' i
    using that u [of h h' i] n [of h] n [of h'] c [of h] c [of h'] by (auto split: if_splits)
  moreover have "i < length (TASKS st)" if "h < MAX_CPUS" "current_idx (PER_CPU st' ! h) = Some i" for h i
    using that c [of h] assms(5) harts_invD(4) [OF assms(1), of h i] by (auto split: if_splits)
  ultimately show "harts_inv st'"
    using assms(1,7,8,10) unfolding harts_inv_def by simp
  show "is_current st' j \<longleftrightarrow> j = nxt \<or> is_current st j \<and> current_idx (PER_CPU st ! hart) \<noteq> Some j"
  proof
    assume "is_current st' j"
    then obtain h where h: "h < MAX_CPUS" "current_idx (PER_CPU st' ! h) = Some j"
      using is_current_iff [OF assms(3)] by blast
    show "j = nxt \<or> is_current st j \<and> current_idx (PER_CPU st ! hart) \<noteq> Some j"
    proof (cases "h = hart")
      case True
      then show ?thesis
        using h c [of h] by simp
    next
      case False
      then show ?thesis
        using h c [of h] u [of h hart j] assms(4) is_current_iff [OF assms(2)] by auto
    qed
  next
    assume "j = nxt \<or> is_current st j \<and> current_idx (PER_CPU st ! hart) \<noteq> Some j"
    then show "is_current st' j"
    proof
      assume "j = nxt"
      then show ?thesis
        using c [OF assms(4)] assms(4) is_current_iff [OF assms(3)] by auto
    next
      assume "is_current st j \<and> current_idx (PER_CPU st ! hart) \<noteq> Some j"
      then obtain h where "h < MAX_CPUS" "current_idx (PER_CPU st ! h) = Some j" "h \<noteq> hart"
        using is_current_iff [OF assms(2)] by blast
      then show ?thesis
        using c [of h] is_current_iff [OF assms(3)] by auto
    qed
  qed
qed

lemma queued_task:
  assumes "dispatch_inv st" "i < length (TASKS st)" "tk_queued (TASKS st ! i)"
  shows "TASK_VALID st ! i" "\<not> is_current st i" "state_of (state_wd (TASKS st ! i)) = Ready" "\<not> context_saving (TASKS st ! i)"
    "word_ok (state_wd (TASKS st ! i))" "period_us (deadline (TASKS st ! i)) = 0" "queued_on st c i \<Longrightarrow> context_tp (TASKS st ! i) = c"
  using assms by (auto simp: dispatch_inv_def task_ok_def split: if_splits)

lemma put_state_running_ok:
  assumes "word_ok (state_wd t)" "period_us (deadline t) = 0" "\<not> tk_queued t" "\<not> context_saving t"
  shows "task_ok ((put_state Running t)\<lparr>time_slice := x\<rparr>) True True (\<lambda>_. False)"
proof -
  obtain s b where "state_wd t = state_word s b"
    using assms(1) by (metis word_ok_def)
  then show ?thesis
    using assms by (simp add: task_ok_def put_state_def)
qed

lemma dispatch_switch:
  assumes inv: "dispatch_inv st" "hart < MAX_CPUS" "nxt < length (TASKS st)" "tk_queued (TASKS st ! nxt)" "queued_on st hart nxt"
    and st2: "sched_inv st2" "length (TASKS st2) = length (TASKS st)" "HART_TP st2 = HART_TP st" "EXECUTES st2 = EXECUTES st"
      "map current_idx (PER_CPU st2) = map current_idx (PER_CPU st)"
    and nxt: "TASKS st2 ! nxt = (TASKS st ! nxt)\<lparr>tk_queued := False\<rparr>" "TASK_VALID st2 ! nxt" "\<And>c. \<not> queued_on st2 c nxt"
    and others: "\<And>j. j \<noteq> nxt \<Longrightarrow> current_idx (PER_CPU st ! hart) \<noteq> Some j \<Longrightarrow>
      TASKS st2 ! j = TASKS st ! j \<and> TASK_VALID st2 ! j = TASK_VALID st ! j \<and> (\<forall>c. queued_on st2 c j = queued_on st c j)"
    and old: "old = None \<or> old = current_idx (PER_CPU st ! hart)"
      "\<And>j. current_idx (PER_CPU st ! hart) = Some j \<Longrightarrow>
        task_ok (if old = None then TASKS st2 ! j else (TASKS st2 ! j)\<lparr>context_tp := hart, context_saving := False\<rparr>)
          (TASK_VALID st2 ! j) False (\<lambda>c. queued_on st2 c j)"
  shows "dispatch_inv (context_switch hart old nxt (activate_task st2 hart nxt))"
    "length (TASKS (context_switch hart old nxt (activate_task st2 hart nxt))) = length (TASKS st)"
proof -
  define st' where "st' = context_switch hart old nxt (activate_task st2 hart nxt)"
  have s: "sched_inv st" "harts_inv st" "\<And>i. i < length (TASKS st) \<Longrightarrow> task_inv st i"
    using inv(1) by (simp_all add: dispatch_inv_def)
  note q = queued_task [OF inv(1,3,4)]
  have tp: "context_tp (TASKS st2 ! nxt) = hart"
    using q(7) [OF inv(5)] nxt(1) by simp
  have ne: "current_idx (PER_CPU st ! hart) \<noteq> Some nxt"
    using q(2) inv(2) s(1) by (auto simp: is_current_iff)
  have oldn: "old \<noteq> Some nxt" "\<And>j. old = Some j \<Longrightarrow> j < length (TASKS st2)"
    using ne old(1) harts_invD(4) [OF s(2) inv(2)] st2(2) by auto
  note v = switch_view [OF st2(1) inv(2) _ oldn, where hart = hart, folded st'_def]
  have n2: "nxt < length (TASKS st2)"
    using inv(3) st2(2) by simp
  have hi: "harts_inv st'" "is_current st' j \<longleftrightarrow> j = nxt \<or> is_current st j \<and> current_idx (PER_CPU st ! hart) \<noteq> Some j" for j
    using harts_inv_switch [OF s(2,1) v(1) [OF n2] inv(2,3) q(2)] v(2,5,6,7) [OF n2] st2 tp by simp_all
  have "task_inv st' j" if j: "j < length (TASKS st)" for j
  proof (cases "j = nxt")
    case True
    have "task_ok ((put_state Running (TASKS st2 ! nxt))\<lparr>time_slice := initial_slice (priority (TASKS st2 ! nxt))\<rparr>) True True (\<lambda>_. False)"
      using q nxt(1) by (intro put_state_running_ok) simp_all
    then show ?thesis
      using True hi(2) v(3,4,8) [OF n2] nxt(2,3) by simp
  next
    case False
    show ?thesis
    proof (cases "current_idx (PER_CPU st ! hart) = Some j")
      case True
      have "\<not> is_current st' j"
        using hi(2) True False by simp
      then show ?thesis
        using old True False v(3,4,9) [OF n2] harts_invD(1) [OF s(2) inv(2)] st2(3) by auto
    next
      case False
      then show ?thesis
        using \<open>j \<noteq> nxt\<close> others [OF \<open>j \<noteq> nxt\<close> False] s(3) [OF j] hi(2) v(3,4,9) [OF n2] old(1) by auto
    qed
  qed
  then show "dispatch_inv (context_switch hart old nxt (activate_task st2 hart nxt))"
    "length (TASKS (context_switch hart old nxt (activate_task st2 hart nxt))) = length (TASKS st)"
    using v(1,2) [OF n2] hi(1) st2(2) unfolding st'_def [symmetric] dispatch_inv_def by simp_all
qed

lemma do_schedule_keeps:
  assumes "dispatch_inv st" "hart < MAX_CPUS"
  shows "\<exists>st'. do_schedule hart hart st = Goes st' \<and> dispatch_inv st' \<and> length (TASKS st') = length (TASKS st)"
proof (cases "cpu_dequeue st hart")
  case (Pair r st1)
  have s: "sched_inv st" "harts_inv st" "\<And>i. i < length (TASKS st) \<Longrightarrow> task_inv st i"
    using assms(1) by (simp_all add: dispatch_inv_def)
  have pick: "pick_next st hart = (r, st1)"
    using no_deadline_task [OF assms(1)] Pair by (simp add: pick_next_def)
  show ?thesis
  proof (cases r)
    case None
    then have "st1 = st"
      using cpu_dequeue_none(1) [OF s(1) assms(2)] Pair by blast
    then show ?thesis
      using None pick assms(1) by (simp add: do_schedule_def)
  next
    case (Some nxt)
    note d = dequeue_view [OF s(1) assms(2) Pair [unfolded Some]]
    note q = queued_task [OF assms(1) d(3,4)]
    note f = frame_fields [OF d(2)]
    have cur: "current_idx (PER_CPU st1 ! hart) = current_idx (PER_CPU st ! hart)"
      using arg_cong [OF f(5), of "\<lambda>xs. xs ! hart"] assms(2) by (simp add: length_PER_CPU s(1) d(1))
    have ne: "current_idx (PER_CPU st ! hart) \<noteq> Some nxt"
      using q(2) assms(2) s(1) by (auto simp: is_current_iff)
    note sw = dispatch_switch [OF assms d(3,4,6)]
    show ?thesis
    proof (cases "current_idx (PER_CPU st ! hart)")
      case None
      have e: "do_schedule hart hart st = Goes (context_switch hart None nxt (activate_task st1 hart nxt))"
        using pick Some cur None d(3,5) q(4) by (simp add: do_schedule_def)
      show ?thesis
        unfolding e using sw [of st1 None] None d f q(1) by simp
    next
      case (Some old)
      have o: "old \<noteq> nxt" "old < length (TASKS st)" "is_current st old"
        using Some ne harts_invD(4) [OF s(2) assms(2)] assms(2) s(1) by (auto simp: is_current_iff)
      have ok: "task_ok (TASKS st ! old) True True (\<lambda>c. queued_on st c old)" "TASK_VALID st ! old"
        using s(3) [OF o(2)] o(3) by (auto simp: task_ok_def)
      have lb: "left_behind st1 hart old (leave_task st1 hart old)"
        using o ok d f(2) by (intro leave_task_view) (simp_all add: assms(2))
      let ?st2 = "leave_task st1 hart old"
      have t2: "TASKS ?st2 ! nxt = (TASKS st ! nxt)\<lparr>tk_queued := False\<rparr>"
        using lb o(1) d(3,5) by (simp add: left_behind_def)
      have e: "do_schedule hart hart st =
          Goes (context_switch hart (if task_state st1 old = Zombie then None else Some old) nxt (activate_task ?st2 hart nxt))"
        using pick \<open>r = Some nxt\<close> cur Some o(1) t2 q(4) by (simp add: do_schedule_def)
      show ?thesis
        unfolding e using sw [of ?st2 "if task_state st1 old = Zombie then None else Some old"] Some lb d f q(1) o(1) t2
        by (auto simp: left_behind_def split: if_splits)
    qed
  qed
qed

end
