(* ===== verification/Sched_Exclusive.thy ===== *)
theory Sched_Exclusive
  imports Sched_Dispatch
begin

text \<open>
  The dispatcher's invariant is kept by every operation, so that, as long as no deadline is
  configured, every task is in one place: executed by one hart, in one queue, or asleep.  With a
  deadline it is not: the earliest-deadline pick leaves the queue entry behind.  And the
  budget of a deadline task is counted in the wrong unit.
\<close>

section \<open>Every operation keeps the invariant\<close>

definition res_ok :: "nat \<Rightarrow> sched_res \<Rightarrow> bool" where
  "res_ok n r \<longleftrightarrow> r \<noteq> Spins \<and> (\<forall>st. r = Goes st \<longrightarrow> dispatch_inv st \<and> length (TASKS st) = n)"

lemma res_ok_simps [simp]:
  "res_ok n Panics" "\<not> res_ok n Spins" "res_ok n (Goes st) \<longleftrightarrow> dispatch_inv st \<and> length (TASKS st) = n"
  by (simp_all add: res_ok_def)

lemma do_schedule_ok: "dispatch_inv st \<Longrightarrow> hart < MAX_CPUS \<Longrightarrow> length (TASKS st) = n \<Longrightarrow> res_ok n (do_schedule hart hart st)"
  using do_schedule_keeps [of st hart] by auto

lemma harts_inv_updates [simp]:
  "harts_inv (st\<lparr>NEXT_TID := tid\<rparr>) = harts_inv st" "harts_inv (st\<lparr>DEADLINE_TICK_COUNTER := d\<rparr>) = harts_inv st"
  "harts_inv (st\<lparr>PREEMPT_COUNT := pc\<rparr>) = harts_inv st" "harts_inv (st\<lparr>NUM_ONLINE_CPUS := m\<rparr>) = harts_inv st"
  by (simp_all add: harts_inv_def)

lemma dispatch_inv_updates [simp]:
  "dispatch_inv (st\<lparr>NEXT_TID := tid\<rparr>) = dispatch_inv st" "dispatch_inv (st\<lparr>DEADLINE_TICK_COUNTER := d\<rparr>) = dispatch_inv st"
  "dispatch_inv (st\<lparr>PREEMPT_COUNT := pc\<rparr>) = dispatch_inv st" "dispatch_inv (st\<lparr>NUM_ONLINE_CPUS := m\<rparr>) = dispatch_inv st"
  "dispatch_inv (bump_ticks st) = dispatch_inv st" "TASKS (bump_ticks st) = TASKS st"
  by (simp_all add: dispatch_inv_def bump_ticks_def)

lemma dispatch_inv_minor:
  assumes "dispatch_inv st" "i < length (TASKS st)" "\<And>t. tk_queued (f t) = tk_queued t" "\<And>t. state_wd (f t) = state_wd t"
    "\<And>t. context_saving (f t) = context_saving t" "\<And>t. context_tp (f t) = context_tp t" "\<And>t. deadline (f t) = deadline t"
  shows "dispatch_inv (upd_task st i f)"
proof (rule dispatch_inv_upd_task [OF assms(1-3)])
  show "task_ok (f (TASKS st ! i)) (TASK_VALID st ! i) (is_current st i) (\<lambda>c. queued_on st c i)"
    using assms(1,2) unfolding dispatch_inv_def task_ok_def assms(3-7) by blast
qed

lemma current_task:
  assumes "dispatch_inv st" "h < MAX_CPUS" "current_idx (PER_CPU st ! h) = Some i"
  shows "i < length (TASKS st)" "is_current st i" "TASK_VALID st ! i" "\<not> tk_queued (TASKS st ! i)" "\<not> queued_on st c i"
    "word_ok (state_wd (TASKS st ! i))" "period_us (deadline (TASKS st ! i)) = 0" "EXECUTES st ! h = Some i"
proof -
  have s: "sched_inv st" "harts_inv st"
    using assms(1) by (simp_all add: dispatch_inv_def)
  show i: "i < length (TASKS st)" and c: "is_current st i"
    using harts_invD(4) [OF s(2)] assms(2,3) s(1) by (auto simp: is_current_iff)
  then show "TASK_VALID st ! i" "\<not> tk_queued (TASKS st ! i)" "word_ok (state_wd (TASKS st ! i))" "period_us (deadline (TASKS st ! i)) = 0"
    using assms(1) by (auto simp: dispatch_inv_def task_ok_def)
  then show "\<not> queued_on st c i"
    using not_queued_on [OF s(1) i] by simp
  show "EXECUTES st ! h = Some i"
    using harts_invD(3) [OF s(2) assms(2)] assms(2,3) length_PER_CPU [OF s(1)] by simp
qed

lemma sched_tick_ok:
  assumes "dispatch_inv st" "hart < MAX_CPUS"
  shows "res_ok (length (TASKS st)) (sched_tick hart st)"
proof -
  have cpu: "current_cpu_id st hart = hart"
    using assms harts_invD(2) by (simp add: dispatch_inv_def)
  note ds = do_schedule_ok [OF _ assms(2)]
  show ?thesis
  proof (cases "current_idx (PER_CPU st ! hart)")
    case None
    then show ?thesis
      using assms(1) ds by (simp add: sched_tick_def cpu)
  next
    case (Some i)
    note t = current_task [OF assms Some]
    have "res_ok (length (TASKS st)) (tick_running hart hart i (upd_task st i (\<lambda>t. t\<lparr>total_runtime := r\<rparr>)))" for r
    proof -
      let ?st = "upd_task st i (\<lambda>t. t\<lparr>total_runtime := r\<rparr>)"
      have u: "dispatch_inv ?st" "dispatch_inv (upd_task ?st i (\<lambda>t. t\<lparr>time_slice := time_slice t - 1\<rparr>))"
        using dispatch_inv_minor assms(1) t(1) by simp_all
      then show ?thesis
        using t(1,7) ds by (simp add: tick_running_def Let_def split: option.split)
    qed
    then show ?thesis
      using Some assms(1) ds by (simp add: sched_tick_def cpu split: option.split)
  qed
qed

lemma live_hart_current:
  assumes "dispatch_inv st" "live_hart st hart"
  obtains i where "hart < MAX_CPUS" "current_cpu_id st hart = hart" "current_idx (PER_CPU st ! hart) = Some i"
    "state_of (state_wd (TASKS st ! i)) \<noteq> Zombie"
proof -
  have h: "hart < MAX_CPUS" "sched_inv st" "harts_inv st"
    using assms by (simp_all add: live_hart_def dispatch_inv_def)
  have "EXECUTES st ! hart = current_idx (PER_CPU st ! hart)"
    using harts_invD(3) [OF h(3,1)] h(1) length_PER_CPU [OF h(2)] by simp
  then show ?thesis
    using that assms(2) h harts_invD(2) [OF h(3,1)] by (auto simp: live_hart_def task_state_def split: option.splits)
qed

lemma block_current_ok:
  assumes "dispatch_inv st" "live_hart st hart"
  shows "res_ok (length (TASKS st)) (block_current hart reason st)"
proof -
  obtain i where h: "hart < MAX_CPUS" "current_cpu_id st hart = hart" "current_idx (PER_CPU st ! hart) = Some i"
    "state_of (state_wd (TASKS st ! i)) \<noteq> Zombie"
    using live_hart_current [OF assms] .
  note t = current_task [OF assms(1) h(1,3)]
  obtain s b where w: "state_wd (TASKS st ! i) = state_word s b"
    using t(6) by (metis word_ok_def)
  have s: "s = Running \<or> s = Blocked"
    using assms(1) t(1,2) h(4) w by (auto simp: dispatch_inv_def task_ok_def)
  let ?f = "\<lambda>t. t\<lparr>state_wd := snd (commit_blocked_or_consume_wake (state_word s b)), wait_reason := reason,
    context_saving := fst (commit_blocked_or_consume_wake (state_word s b))\<rparr>"
  have "dispatch_inv (upd_task st i ?f)"
    using s t by (intro dispatch_inv_upd_task [OF assms(1) t(1)]) (auto simp: task_ok_def)
  then show ?thesis
    using h do_schedule_ok [OF _ h(1)] w by (auto simp: block_current_def Let_def split: prod.split)
qed

lemma task_exit_ok:
  assumes "dispatch_inv st" "live_hart st hart"
  shows "res_ok (length (TASKS st)) (task_exit hart st)"
proof -
  obtain i where h: "hart < MAX_CPUS" "current_cpu_id st hart = hart" "current_idx (PER_CPU st ! hart) = Some i"
    using live_hart_current [OF assms] .
  note t = current_task [OF assms(1) h(1,3)]
  obtain s b where w: "state_wd (TASKS st ! i) = state_word s b"
    using t(6) by (metis word_ok_def)
  have "dispatch_inv (upd_task st i (put_state Zombie))"
    using t w by (intro dispatch_inv_upd_task [OF assms(1) t(1)]) (auto simp: task_ok_def put_state_def)
  then show ?thesis
    using h do_schedule_ok [OF _ h(1)] by (simp add: task_exit_def Let_def)
qed

lemma sched_start_ok:
  assumes "dispatch_inv st" "hart < MAX_CPUS" "EXECUTES st ! hart = None"
  shows "res_ok (length (TASKS st)) (sched_start hart st)"
proof -
  have s: "sched_inv st" "harts_inv st"
    using assms(1) by (simp_all add: dispatch_inv_def)
  have cpu: "current_cpu_id st hart = hart" "current_idx (PER_CPU st ! hart) = None"
    using harts_invD(2,3) [OF s(2) assms(2)] assms(2,3) length_PER_CPU [OF s(1)] by simp_all
  show ?thesis
  proof (cases "cpu_dequeue st hart")
    case (Pair r st1)
    show ?thesis
    proof (cases r)
      case None
      then show ?thesis
        using Pair by (simp add: sched_start_def cpu)
    next
      case (Some nxt)
      note d = dequeue_view [OF s(1) assms(2) Pair [unfolded Some]]
      note f = frame_fields [OF d(2)]
      show ?thesis
        using dispatch_switch [OF assms(1,2) d(3,4,6), of st1 None] d f cpu(2) queued_task(1) [OF assms(1) d(3,4)] Pair Some
        by (simp add: sched_start_def cpu(1))
    qed
  qed
qed

lemma wake_target_cpu_bound: "wake_target_cpu st idx < MAX_CPUS"
  by (auto simp: wake_target_cpu_def Let_def MAX_CPUS_def)

lemma parked_blocked:
  assumes "dispatch_inv st" "i < length (TASKS st)" "TASK_VALID st ! i" "state_of (state_wd (TASKS st ! i)) = Blocked" "\<not> context_saving (TASKS st ! i)"
  shows "\<not> is_current st i" "\<not> tk_queued (TASKS st ! i)" "period_us (deadline (TASKS st ! i)) = 0"
  using assms by (auto simp: dispatch_inv_def task_ok_def split: if_splits)

lemma dispatch_woken_ok:
  assumes "dispatch_inv st" "i < length (TASKS st)" "TASK_VALID st ! i" "state_of (state_wd (TASKS st ! i)) = Blocked"
    "\<not> context_saving (TASKS st ! i)"
  shows "dispatch_inv (dispatch_woken (upd_task st i (\<lambda>t. t\<lparr>state_wd := pack_state Ready\<rparr>)) i)"
    "length (TASKS (dispatch_woken (upd_task st i (\<lambda>t. t\<lparr>state_wd := pack_state Ready\<rparr>)) i)) = length (TASKS st)"
proof -
  let ?st1 = "upd_task st i (\<lambda>t. t\<lparr>state_wd := pack_state Ready, wait_reason := NoWait\<rparr>)"
  define target where "target = wake_target_cpu ?st1 i"
  let ?f = "\<lambda>t. t\<lparr>state_wd := pack_state Ready, wait_reason := NoWait, context_tp := target\<rparr>"
  let ?st = "upd_task st i ?f"
  note p = parked_blocked [OF assms]
  have e: "dispatch_woken (upd_task st i (\<lambda>t. t\<lparr>state_wd := pack_state Ready\<rparr>)) i = snd (cpu_enqueue ?st target i)"
    using assms(2) by (simp add: dispatch_woken_def Let_def upd_task_def target_def)
  have s: "sched_inv st"
    using assms(1) by (simp add: dispatch_inv_def)
  have u: "sched_inv ?st"
    using upd_task_view [OF s assms(2)] by simp
  have tb: "target < MAX_CPUS"
    unfolding target_def by (rule wake_target_cpu_bound)
  note v = enqueue_view [OF u tb, of i]
  have q: "\<not> tk_queued (TASKS ?st ! i)" "i < length (TASKS ?st)"
    using p(2) assms(2) by simp_all
  note v = v [OF q(2,1)]
  have fr: "frame (snd (cpu_enqueue ?st target i)) = frame st"
    using v(2) by simp
  note f = frame_fields [OF fr]
  have "\<not> is_current (snd (cpu_enqueue ?st target i)) i"
    using p(1) f(5) by (simp add: is_current_def)
  then have ti: "task_inv (snd (cpu_enqueue ?st target i)) i"
    using v(3,4) f(2) assms(2,3,5) p not_queued_on [OF s assms(2) p(2)] by (simp add: task_ok_def pack_state_word)
  show "dispatch_inv (dispatch_woken (upd_task st i (\<lambda>t. t\<lparr>state_wd := pack_state Ready\<rparr>)) i)"
    unfolding e using v f ti by (intro dispatch_inv_one [OF assms(1), where i = i]) simp_all
  show "length (TASKS (dispatch_woken (upd_task st i (\<lambda>t. t\<lparr>state_wd := pack_state Ready\<rparr>)) i)) = length (TASKS st)"
    unfolding e using v(3) by simp
qed

lemma dispatch_task: "dispatch_inv st \<Longrightarrow> i < length (TASKS st) \<Longrightarrow> task_inv st i"
  by (simp add: dispatch_inv_def)

lemma valid_word_ok: "dispatch_inv st \<Longrightarrow> i < length (TASKS st) \<Longrightarrow> TASK_VALID st ! i \<Longrightarrow> word_ok (state_wd (TASKS st ! i))"
  by (simp add: dispatch_inv_def task_ok_def)

lemma wake_slot_ok:
  assumes "dispatch_inv st" "i < length (TASKS st)" "TASK_VALID st ! i"
  shows "dispatch_inv (snd (wake_slot w i st)) \<and> length (TASKS (snd (wake_slot w i st))) = length (TASKS st)"
proof -
  obtain s b where wd: "state_wd (TASKS st ! i) = state_word s b"
    using valid_word_ok [OF assms] by (metis word_ok_def)
  have stamp: "dispatch_inv (upd_task st i (\<lambda>t. t\<lparr>state_wd := state_word s b'\<rparr>))" for b'
    using dispatch_task [OF assms(1,2)] assms wd by (intro dispatch_inv_upd_task) (auto simp: task_ok_def split: if_splits)
  show ?thesis
  proof (cases "s = Blocked \<and> wake_pred w (wait_reason (TASKS st ! i)) \<and> \<not> context_saving (TASKS st ! i)")
    case True
    then show ?thesis
      using dispatch_woken_ok [OF assms] wd by (simp add: wake_slot_def pack_state_word)
  next
    case False
    define b' where "b' = (if s = Blocked then if wake_pred w (wait_reason (TASKS st ! i)) then True else b else if wake_stamps w then True else b)"
    have "snd (wake_slot w i st) = upd_task st i (\<lambda>t. t\<lparr>state_wd := state_word s b'\<rparr>)"
      using wd False by (auto simp: wake_slot_def Let_def b'_def)
    then show ?thesis
      using stamp by simp
  qed
qed

lemma fold_keeps:
  assumes "\<And>i u. i \<in> set is \<Longrightarrow> dispatch_inv u \<Longrightarrow> length (TASKS u) = n \<Longrightarrow> dispatch_inv (f i u) \<and> length (TASKS (f i u)) = n"
    "dispatch_inv st" "length (TASKS st) = n"
  shows "dispatch_inv (fold f is st) \<and> length (TASKS (fold f is st)) = n"
  using assms by (induction "is" arbitrary: st) simp_all

lemma wake_matching_ok:
  assumes "dispatch_inv st"
  shows "dispatch_inv (wake_matching w st) \<and> length (TASKS (wake_matching w st)) = length (TASKS st)"
  unfolding wake_matching_def
  by (rule fold_keeps [OF _ assms refl]) (use wake_slot_ok in \<open>auto simp: try_wake_task_def\<close>)

lemma wake_by_tid_ok:
  assumes "dispatch_inv st"
  shows "dispatch_inv (snd (wake_task_by_tid tid w st)) \<and> length (TASKS (snd (wake_task_by_tid tid w st))) = length (TASKS st)"
    "dispatch_inv (wq_wake_by_tid tid st) \<and> length (TASKS (wq_wake_by_tid tid st)) = length (TASKS st)"
proof -
  show "dispatch_inv (snd (wake_task_by_tid tid w st)) \<and> length (TASKS (snd (wake_task_by_tid tid w st))) = length (TASKS st)"
    using assms wake_slot_ok [OF assms, of _ w]
    by (auto simp: wake_task_by_tid_def find_Some_iff split: option.split prod.split)
      (metis snd_conv)+
  show "dispatch_inv (wq_wake_by_tid tid st) \<and> length (TASKS (wq_wake_by_tid tid st)) = length (TASKS st)"
    using assms wake_slot_ok [OF assms] by (auto simp: wq_wake_by_tid_def find_Some_iff split: option.split)
qed

lemma reap_ok:
  assumes "dispatch_inv st"
  shows "dispatch_inv (reap_stamped_sleepers st) \<and> length (TASKS (reap_stamped_sleepers st)) = length (TASKS st)"
  unfolding reap_stamped_sleepers_def
proof (rule fold_keeps [OF _ assms refl])
  fix i u
  assume i: "i \<in> set [0..<length (TASKS st)]" and u: "dispatch_inv u" "length (TASKS u) = length (TASKS st)"
  show "dispatch_inv (reap_slot i u) \<and> length (TASKS (reap_slot i u)) = length (TASKS st)"
  proof (cases "reap_slot i u = u")
    case False
    then have g: "TASK_VALID u ! i" "state_of (state_wd (TASKS u ! i)) = Blocked" "\<not> context_saving (TASKS u ! i)"
        "state_wd (TASKS u ! i) AND WAKE_STAMP \<noteq> 0"
      by (auto simp: reap_slot_def Let_def split: if_splits)
    then have "reap_slot i u = dispatch_woken (upd_task u i (\<lambda>t. t\<lparr>state_wd := pack_state Ready\<rparr>)) i"
      using False by (auto simp: reap_slot_def Let_def reap_orphaned_stamp_def split: if_splits)
    then show ?thesis
      using dispatch_woken_ok [OF u(1), of i] i u(2) g by simp
  qed (use u in simp)
qed

lemma free_slot:
  assumes "dispatch_inv st" "i < length (TASKS st)" "\<not> TASK_VALID st ! i"
  shows "\<not> is_current st i" "\<not> tk_queued (TASKS st ! i)" "\<not> queued_on st c i"
proof -
  show "\<not> is_current st i" "\<not> tk_queued (TASKS st ! i)"
    using dispatch_task [OF assms(1,2)] assms(3) by (auto simp: task_ok_def split: if_splits)
  then show "\<not> queued_on st c i"
    using not_queued_on [of st i] assms(1,2) by (simp add: dispatch_inv_def)
qed

lemma create_view:
  assumes "dispatch_inv st" "first_idx Not (TASK_VALID st) = Some i" "try_task_create_affinity prio affinity st = (r, st')"
  obtains target where "r = Some i" "i < length (TASKS st)" "target < MAX_CPUS" "affinity \<ge> 0 \<Longrightarrow> target = min (nat affinity) (MAX_CPUS - 1)"
    "sched_inv st'" "TASK_VALID st' = (TASK_VALID st)[i := True]"
    "TASKS st' = (TASKS st)[i := (init_task (NEXT_TID st) prio affinity (TASKS st ! i))\<lparr>context_tp := target, tk_queued := True\<rparr>]"
    "sched_queues st' = upd_q (sched_queues st) target (prio_bucket prio) (sched_queues st target (prio_bucket prio) @ [i])"
    "HART_TP st' = HART_TP st" "EXECUTES st' = EXECUTES st" "map current_idx (PER_CPU st') = map current_idx (PER_CPU st)"
    "DEADLINE_TICK_COUNTER st' = DEADLINE_TICK_COUNTER st" "PREEMPT_COUNT st' = PREEMPT_COUNT st"
proof -
  have s: "sched_inv st"
    using assms(1) by (simp add: dispatch_inv_def)
  have i: "i < length (TASKS st)" "\<not> TASK_VALID st ! i" "i < length (TASK_VALID st)"
    using first_idx_SomeD [OF assms(2)] s by (simp_all add: sched_inv_def)
  note free = free_slot [OF assms(1) i(1,2)]
  define st1 where "st1 = (upd_task (st\<lparr>TASK_VALID := (TASK_VALID st)[i := True]\<rparr>) i
    (\<lambda>t. init_task (NEXT_TID st) prio affinity (t\<lparr>tk_tid := 0\<rparr>)))\<lparr>NEXT_TID := next_tid (NEXT_TID st)\<rparr>"
  define target where "target = pick_target_cpu st1 affinity prio i"
  let ?st2 = "upd_task st1 i (\<lambda>t. t\<lparr>context_tp := target\<rparr>)"
  have tb: "target < MAX_CPUS" "affinity \<ge> 0 \<Longrightarrow> target = min (nat affinity) (MAX_CPUS - 1)"
    using find_best_cpu_bound by (auto simp: target_def pick_target_cpu_def MAX_CPUS_def)
  have "sched_inv (upd_task (st\<lparr>TASK_VALID := (TASK_VALID st)[i := True]\<rparr>) i (\<lambda>t. init_task (NEXT_TID st) prio affinity (t\<lparr>tk_tid := 0\<rparr>)))"
    using s i(1) free(2) by (intro upd_task_view) (simp_all add: init_task_def)
  then have u: "sched_inv ?st2"
    using i(1) by (intro upd_task_view) (simp_all add: st1_def)
  have q: "i < length (TASKS ?st2)" "\<not> tk_queued (TASKS ?st2 ! i)"
    using i(1) by (simp_all add: st1_def init_task_def)
  note v = cpu_enqueue_effect [OF u tb(1) q]
  have e: "r = Some i" "st' = snd (cpu_enqueue ?st2 target i)"
    using assms(2,3) v(1) i(1)
    by (simp_all add: try_task_create_affinity_def alloc_slot_def Let_def st1_def target_def upd_task_def split_beta)
  note v = v [folded e(2)] and f = frame_fields [OF v(5) [folded e(2)]]
  have "DEADLINE_TICK_COUNTER st' = DEADLINE_TICK_COUNTER st" "PREEMPT_COUNT st' = PREEMPT_COUNT st"
    using v(5) by (simp_all add: frame_def st1_def)
  then show ?thesis
    using that [OF e(1) i(1) tb v(2)] v f i(1) by (simp add: st1_def init_task_def)
qed

lemma task_create_ok:
  assumes "dispatch_inv st"
  shows "dispatch_inv (snd (try_task_create_affinity prio affinity st))"
    "length (TASKS (snd (try_task_create_affinity prio affinity st))) = length (TASKS st)"
proof -
  obtain r st' where c: "try_task_create_affinity prio affinity st = (r, st')"
    by (cases "try_task_create_affinity prio affinity st")
  have "dispatch_inv st' \<and> length (TASKS st') = length (TASKS st)"
  proof (cases "first_idx Not (TASK_VALID st)")
    case None
    then show ?thesis
      using assms c by (simp add: try_task_create_affinity_def alloc_slot_def)
  next
    case (Some i)
    obtain target where v: "i < length (TASKS st)" "sched_inv st'" "TASK_VALID st' = (TASK_VALID st)[i := True]"
        "TASKS st' = (TASKS st)[i := (init_task (NEXT_TID st) prio affinity (TASKS st ! i))\<lparr>context_tp := target, tk_queued := True\<rparr>]"
        "sched_queues st' = upd_q (sched_queues st) target (prio_bucket prio) (sched_queues st target (prio_bucket prio) @ [i])"
        "HART_TP st' = HART_TP st" "EXECUTES st' = EXECUTES st" "map current_idx (PER_CPU st') = map current_idx (PER_CPU st)"
      using create_view [OF assms Some c] by metis
    have i: "\<not> TASK_VALID st ! i" "i < length (TASK_VALID st)"
      using first_idx_SomeD [OF Some] by simp_all
    note free = free_slot [OF assms v(1) i(1)]
    have "j \<in> set (sched_queues st' c p) \<longleftrightarrow> j \<in> set (sched_queues st c p) \<or> c = target \<and> p = prio_bucket prio \<and> j = i" for c p j
      unfolding v(5) by (auto simp: upd_q_apply)
    then have qo: "queued_on st' c j \<longleftrightarrow> queued_on st c j \<or> c = target \<and> j = i" for c j
      unfolding queued_on_iff by blast
    have "\<not> is_current st' i"
      using free(1) v(8) by (simp add: is_current_def)
    then have "task_inv st' i"
      using v(1,3,4) qo free(3) i(2) by (simp add: task_ok_def init_task_def pack_state_word deadline_default_def)
    then have "dispatch_inv st'"
      using v qo by (intro dispatch_inv_one [OF assms, where i = i]) simp_all
    then show ?thesis
      using v(4) by simp
  qed
  then show "dispatch_inv (snd (try_task_create_affinity prio affinity st))"
    "length (TASKS (snd (try_task_create_affinity prio affinity st))) = length (TASKS st)"
    using c by simp_all
qed

lemma sp_queues_set [simp]: "sp_queues (sp_set s c p xs) = upd_q (sp_queues s) c p xs"
  by (simp add: sp_set_def)

lemma cpu_remove_view:
  assumes "sched_inv st" "cpu < MAX_CPUS" "idx < length (TASKS st)" "cpu_remove st cpu idx = (True, st')"
  shows "sched_inv st'" "frame st' = frame st" "TASKS st' = (TASKS st)[idx := (TASKS st ! idx)\<lparr>tk_queued := False\<rparr>]"
    "queued_on st cpu idx" "queued_on st' c i \<longleftrightarrow> queued_on st c i \<and> i \<noteq> idx"
proof -
  define p where "p = prio_bucket (priority (TASKS st ! idx))"
  note r = cpu_remove_refines [OF assms, folded p_def]
  have i: "idx \<in> set (sched_queues st cpu p)" and inv: "sched_inv st'"
    using r by simp_all
  have q: "sched_queues st' = upd_q (sched_queues st) cpu p (remove1 idx (sched_queues st cpu p))"
    using r arg_cong [of "sched_abs st'" _ sp_queues] by (metis sched_abs_simps(3) sp_queues_set)
  show "sched_inv st'"
    by (rule inv)
  show "TASKS st' = (TASKS st)[idx := (TASKS st ! idx)\<lparr>tk_queued := False\<rparr>]" "frame st' = frame st"
    using assms(4) by (auto simp: cpu_remove_def Let_def frame_upd_cpu split: prod.splits if_splits)
  show "queued_on st cpu idx"
    using i by (auto simp: queued_on_iff)
  have n: "\<not> queued_on st' c idx"
    using not_queued_on [OF inv] r assms(3) by simp
  have "i \<noteq> idx \<Longrightarrow> i \<in> set (sched_queues st' c k) \<longleftrightarrow> i \<in> set (sched_queues st c k)" for k
    unfolding q by (simp add: upd_q_apply in_set_remove1)
  then show "queued_on st' c i \<longleftrightarrow> queued_on st c i \<and> i \<noteq> idx"
    using n by (cases "i = idx") (simp_all add: queued_on_iff)
qed

lemma queued_on_unique:
  assumes "sched_inv st" "queued_on st c i" "queued_on st c' i"
  shows "c = c'"
  using sched_inv_queues [OF assms(1)] assms(2,3) unfolding queues_ok_def queued_on_iff by blast

lemma rebucket_ok:
  assumes "dispatch_inv st" "cpu < MAX_CPUS" "idx < length (TASKS st)"
  shows "dispatch_inv (rebucket st cpu idx prio) \<and> length (TASKS (rebucket st cpu idx prio)) = length (TASKS st)"
proof -
  have s: "sched_inv st"
    using assms(1) by (simp add: dispatch_inv_def)
  have m: "dispatch_inv (upd_task st idx (\<lambda>t. t\<lparr>priority := prio\<rparr>))"
    using dispatch_inv_minor [OF assms(1,3)] by simp
  show ?thesis
  proof (cases "state_of (state_wd (TASKS st ! idx)) = Ready \<and> fst (cpu_remove st cpu idx)")
    case False
    then have "rebucket st cpu idx prio = upd_task st idx (\<lambda>t. t\<lparr>priority := prio\<rparr>)"
      by (auto simp: rebucket_def cpu_remove_def Let_def split: prod.splits if_splits)
    then show ?thesis
      using m by simp
  next
    case True
    then obtain st1 where r: "cpu_remove st cpu idx = (True, st1)"
      by (metis prod.collapse)
    note v = cpu_remove_view [OF s assms(2,3) r]
    let ?st2 = "upd_task st1 idx (\<lambda>t. t\<lparr>priority := prio\<rparr>)"
    have u: "sched_inv ?st2" "idx < length (TASKS ?st2)" "\<not> tk_queued (TASKS ?st2 ! idx)"
      using upd_task_view [OF v(1), of idx] v(3) assms(3) by simp_all
    note w = enqueue_view [OF u(1) assms(2) u(2,3)]
    have e: "rebucket st cpu idx prio = snd (cpu_enqueue ?st2 cpu idx)"
      using True r by (simp add: rebucket_def)
    have tq: "tk_queued (TASKS st ! idx)"
      using not_queued_on [OF s assms(3)] v(4) by blast
    have "TASKS (rebucket st cpu idx prio) = (TASKS st)[idx := (TASKS st ! idx)\<lparr>priority := prio\<rparr>]"
    proof -
      have "(TASKS st ! idx)\<lparr>priority := prio, tk_queued := True\<rparr> = (TASKS st ! idx)\<lparr>priority := prio\<rparr>"
        using tq by (cases "TASKS st ! idx") simp
      then show ?thesis
        using w(3) v(3) assms(3) unfolding e by simp
    qed
    moreover have "queued_on (rebucket st cpu idx prio) c i = queued_on st c i" for c i
      using w(4) v(4,5) queued_on_unique [OF s] unfolding e by auto
    moreover have "frame (rebucket st cpu idx prio) = frame st"
      using w(2) v(2) unfolding e by simp
    moreover have "sched_inv (rebucket st cpu idx prio)"
      using w(1) unfolding e .
    ultimately show ?thesis
      using frame_fields [of "rebucket st cpu idx prio" st] dispatch_task [OF m, of idx] assms(3)
      by (intro conjI dispatch_inv_one [OF assms(1), where i = idx]) (simp_all add: is_current_def)
  qed
qed

abbreviation find_tid :: "Sched \<Rightarrow> u32 \<Rightarrow> nat option" where
  "find_tid st tid \<equiv> find (\<lambda>i. TASK_VALID st ! i \<and> tk_tid (TASKS st ! i) = tid) [0..<length (TASKS st)]"

lemma find_tid_less: "find_tid st tid = Some i \<Longrightarrow> i < length (TASKS st)"
  by (auto simp: find_Some_iff)

definition keeps :: "Sched \<Rightarrow> Sched \<Rightarrow> bool" where
  "keeps st st' \<longleftrightarrow> dispatch_inv st' \<and> length (TASKS st') = length (TASKS st)"

lemma keeps_minor:
  assumes "dispatch_inv st" "find_tid st tid = Some i" "\<And>t. tk_queued (f t) = tk_queued t" "\<And>t. state_wd (f t) = state_wd t"
    "\<And>t. context_saving (f t) = context_saving t" "\<And>t. context_tp (f t) = context_tp t" "\<And>t. deadline (f t) = deadline t"
  shows "keeps st (upd_task st i f)"
  using dispatch_inv_minor [OF assms(1) find_tid_less [OF assms(2)] assms(3-7)] by (simp add: keeps_def)

lemma keeps_rebucket:
  assumes "keeps st st1" "find_tid st tid = Some i" "cpu < MAX_CPUS"
  shows "keeps st (rebucket st1 cpu i prio)"
  using rebucket_ok [of st1 cpu i prio] find_tid_less [OF assms(2)] assms(1,3) by (simp add: keeps_def)

lemma donate_ok:
  assumes "dispatch_inv st"
  shows "keeps st (pi_boost_task st tid prio)" "keeps st (pi_restore_task st tid)"
    "cpu < MAX_CPUS \<Longrightarrow> keeps st (boost_ready_task st cpu tid prio)" "cpu < MAX_CPUS \<Longrightarrow> keeps st (restore_ready_task st cpu tid)"
proof -
  have refl: "keeps st st"
    using assms by (simp add: keeps_def)
  note minor = keeps_minor [OF assms]
  show "keeps st (pi_boost_task st tid prio)"
    using refl minor by (simp add: pi_boost_task_def Let_def split: option.split)
  show "keeps st (pi_restore_task st tid)"
    using refl minor by (simp add: pi_restore_task_def Let_def split: option.split)
  show "keeps st (boost_ready_task st cpu tid prio)" if "cpu < MAX_CPUS"
  proof (cases "if tid = 0 then None else find_tid st tid")
    case (Some i)
    then have i: "find_tid st tid = Some i" "tid \<noteq> 0"
      by (simp_all split: if_splits)
    have "keeps st (upd_task st i (\<lambda>t. t\<lparr>donation_count := donation_count t + 1\<rparr>))"
      by (rule minor [OF i(1)]) simp_all
    then show ?thesis
      using i keeps_rebucket [OF _ i(1) that] by (simp add: boost_ready_task_def sched_idx_for_tid_def Let_def)
  qed (use refl in \<open>simp add: boost_ready_task_def sched_idx_for_tid_def\<close>)
  show "keeps st (restore_ready_task st cpu tid)" if "cpu < MAX_CPUS"
  proof (cases "if tid = 0 then None else find_tid st tid")
    case (Some i)
    then have i: "find_tid st tid = Some i" "tid \<noteq> 0"
      by (simp_all split: if_splits)
    have "keeps st (upd_task st i (\<lambda>t. t\<lparr>donation_count := n\<rparr>))" for n
      by (rule minor [OF i(1)]) simp_all
    then show ?thesis
      using i keeps_rebucket [OF _ i(1) that] by (simp add: restore_ready_task_def sched_idx_for_tid_def Let_def)
  qed (use refl in \<open>simp add: restore_ready_task_def sched_idx_for_tid_def\<close>)
qed

lemma res_ok_keeps: "keeps st st' \<Longrightarrow> res_ok (length (TASKS st)) (Goes st')"
  by (simp add: keeps_def)

lemma donate_step_ok:
  assumes "dispatch_inv st" "op_enabled st (Donate x)"
  shows "res_ok (length (TASKS st)) (Goes (snd (q_step st x)))"
  using assms(2) donate_ok [OF assms(1)] by (cases x) (simp_all add: keeps_def)

lemma preempt_ok:
  assumes "dispatch_inv st" "live_hart st hart"
  shows "res_ok (length (TASKS st)) (Goes (preempt_disable hart st))" "res_ok (length (TASKS st)) (preempt_enable hart st)"
proof -
  have h: "hart < MAX_CPUS"
    using assms(2) by (simp add: live_hart_def)
  show "res_ok (length (TASKS st)) (Goes (preempt_disable hart st))"
    using assms(1) by (simp add: preempt_disable_def Let_def)
  have "res_ok (length (TASKS st)) (sched_tick hart (st\<lparr>PREEMPT_COUNT := pc\<rparr>))" for pc
    using sched_tick_ok [of "st\<lparr>PREEMPT_COUNT := pc\<rparr>" hart] assms(1) h by simp
  then show "res_ok (length (TASKS st)) (preempt_enable hart st)"
    using assms(1) by (simp add: preempt_enable_def Let_def)
qed

lemma yield_ok:
  assumes "dispatch_inv st" "live_hart st hart"
  shows "res_ok (length (TASKS st)) (task_yield hart st)"
proof -
  obtain i where "hart < MAX_CPUS" "current_cpu_id st hart = hart"
    using live_hart_current [OF assms] .
  then show ?thesis
    using do_schedule_ok [OF assms(1) _ refl] by (simp add: task_yield_def)
qed

lemma sched_step_ok:
  assumes "dispatch_inv st" "op_enabled st x" "\<And>i p r. x \<noteq> SetDeadline i p r"
  shows "res_ok (length (TASKS st)) (sched_step x st)"
proof (cases x)
  case (Donate y)
  then show ?thesis
    using donate_step_ok [of st y] assms by simp
qed (use assms task_create_ok [OF assms(1)] sched_start_ok [OF assms(1)] sched_tick_ok [OF assms(1)] block_current_ok [OF assms(1)]
      task_exit_ok [OF assms(1)] wake_matching_ok [OF assms(1)] wake_by_tid_ok [OF assms(1)] reap_ok [OF assms(1)]
      preempt_ok [OF assms(1)] yield_ok [OF assms(1)] in simp_all)

section \<open>Every task is in one place\<close>

fun no_deadline :: "sched_op \<Rightarrow> bool" where
  "no_deadline (SetDeadline _ _ _) = False"
| "no_deadline _ = True"

lemma dispatch_inv_boot:
  assumes "ts \<noteq> []"
  shows "dispatch_inv (sched_boot ts (replicate (length ts) False) online)"
proof -
  let ?st = "sched_boot ts (replicate (length ts) False) online"
  have f: "TASKS ?st = map (\<lambda>t. t\<lparr>tk_queued := False\<rparr>) ts" "TASK_VALID ?st = replicate (length ts) False"
      "PER_CPU ?st = replicate MAX_CPUS (EMPTY_CPU (length ts))" "HART_TP ?st = [0..<MAX_CPUS]" "EXECUTES ?st = replicate MAX_CPUS None"
    by (simp_all add: sched_boot_def)
  have "\<not> queued_on ?st c i" for c i
    by (simp add: queued_on_iff)
  then show ?thesis
    using assms sched_inv_boot [of "replicate (length ts) False" ts online]
    by (simp add: dispatch_inv_def harts_inv_def task_ok_def is_current_def f EMPTY_CPU_def)
qed

lemma reach_ok:
  assumes "sched_reach no_deadline st r" "dispatch_inv st"
  shows "res_ok (length (TASKS st)) r"
  using assms
proof (induction rule: sched_reach.induct)
  case (reach_step st u x)
  have "x \<noteq> SetDeadline i p r" for i p r
    using reach_step.hyps(2) by auto
  then show ?case
    using sched_step_ok [of u x] reach_step by simp
qed simp

definition in_one_place :: "Sched \<Rightarrow> nat \<Rightarrow> bool" where
  "in_one_place st i \<longleftrightarrow>
     (if list_ex (\<lambda>h. EXECUTES st ! h = Some i) [0..<MAX_CPUS]
      then \<not> list_ex (\<lambda>c. queued_on st c i) [0..<MAX_CPUS]
      else task_state st i = Ready \<and> list_all (\<lambda>c. queued_on st c i = (c = context_tp (TASKS st ! i))) [0..<MAX_CPUS]
             \<and> context_tp (TASKS st ! i) < MAX_CPUS
           \<or> task_state st i = Blocked \<and> \<not> list_ex (\<lambda>c. queued_on st c i) [0..<MAX_CPUS])"

lemma in_one_place_inv:
  assumes "dispatch_inv st" "i < length (TASKS st)" "TASK_VALID st ! i"
  shows "in_one_place st i"
proof -
  have s: "sched_inv st" "harts_inv st"
    using assms(1) by (simp_all add: dispatch_inv_def)
  have ex: "list_ex (\<lambda>h. EXECUTES st ! h = Some i) [0..<MAX_CPUS] \<longleftrightarrow> is_current st i"
    using harts_invD(3) [OF s(2)] is_current_iff [OF s(1)] length_PER_CPU [OF s(1)]
    by (auto simp: list_ex_iff MAX_CPUS_def)
  have q: "queued_on st c i \<Longrightarrow> c < MAX_CPUS" for c
    by (auto simp: queued_on_iff sched_queues_def split: if_splits)
  have t: "tk_queued (TASKS st ! i) \<longleftrightarrow> (\<exists>c. queued_on st c i)"
    using queues_ok_flag [OF sched_inv_queues [OF s(1)] assms(2)] by (simp add: queued_on_iff)
  note ok = dispatch_task [OF assms(1,2), unfolded task_ok_def]
  show ?thesis
  proof (cases "is_current st i")
    case True
    then show ?thesis
      using ok t ex by (simp add: in_one_place_def list_ex_iff)
  next
    case False
    then consider "task_state st i = Ready" "tk_queued (TASKS st ! i)" | "task_state st i = Blocked" "\<not> tk_queued (TASKS st ! i)"
      using ok assms(3) by (auto simp: task_state_def)
    then show ?thesis
    proof cases
      case 1
      then obtain c where "queued_on st c i"
        using t by blast
      then show ?thesis
        using 1(1) False ex ok q by (auto simp: in_one_place_def list_all_iff)
    next
      case 2
      then show ?thesis
        using False ex t by (auto simp: in_one_place_def list_ex_iff)
    qed
  qed
qed

text \<open>
  C3. As long as no deadline is configured, no sequence of task creations, starts, timer ticks, yields,
  blocks, wakes, reaps, exits, priority donations and preemption control on the harts, from boot,
  lets a hart spin at the gate of the context switch, and in every state reached: no two harts
  execute the same task; every hart has its own number in \<open>tp\<close>; and every task in use is
  in exactly one place: executed by a hart and in no ready queue, or ready and queued exactly on the
  hart its saved \<open>tp\<close> names, or blocked and in no ready queue.
\<close>

theorem every_task_in_one_place:
  assumes "ts \<noteq> []" "sched_reach no_deadline (sched_boot ts (replicate (length ts) False) online) r"
  shows "r \<noteq> Spins \<and> (\<forall>st. r = Goes st \<longrightarrow>
     (\<forall>h<MAX_CPUS. \<forall>h'<MAX_CPUS. EXECUTES st ! h = EXECUTES st ! h' \<and> EXECUTES st ! h \<noteq> None \<longrightarrow> h = h')
     \<and> (\<forall>h<MAX_CPUS. current_cpu_id st h = h)
     \<and> (\<forall>i<length ts. TASK_VALID st ! i \<longrightarrow> in_one_place st i))"
proof -
  have ok: "res_ok (length ts) r"
    using reach_ok [OF assms(2) dispatch_inv_boot [OF assms(1)]] by (simp add: sched_boot_def)
  have "h = h'" if g: "r = Goes st" "h < MAX_CPUS" "h' < MAX_CPUS" "EXECUTES st ! h = EXECUTES st ! h'" "EXECUTES st ! h \<noteq> None" for st h h'
  proof -
    have s: "sched_inv st" "harts_inv st"
      using ok g(1) by (simp_all add: dispatch_inv_def)
    obtain i where "EXECUTES st ! h = Some i"
      using g(5) by blast
    then show ?thesis
      using s g harts_invD(3) [OF s(2) g(2)] unfolding harts_inv_def by (simp add: length_PER_CPU) metis
  qed
  moreover have "current_cpu_id st h = h" if "r = Goes st" "h < MAX_CPUS" for st h
    using ok harts_invD(2) that by (simp add: dispatch_inv_def)
  moreover have "in_one_place st i" if "r = Goes st" "i < length ts" "TASK_VALID st ! i" for st i
    using ok in_one_place_inv that by simp
  moreover have "r \<noteq> Spins"
    using ok by auto
  ultimately show ?thesis
    by blast
qed

definition demo_idle :: Sched where
  "demo_idle = sched_boot [demo_task 0 0] [False] 1"

lemma demo_created:
  obtains st target where "try_task_create_affinity 16 (- 1) demo_idle = (Some 0, st)" "target < MAX_CPUS" "dispatch_inv st"
    "TASKS st = [(init_task 1 16 (- 1) (demo_task 0 0))\<lparr>context_tp := target, tk_queued := True\<rparr>]" "TASK_VALID st = [True]"
    "sched_queues st = upd_q (\<lambda>_ _. []) target 16 [0]" "EXECUTES st = replicate MAX_CPUS None" "DEADLINE_TICK_COUNTER st = 0"
    "PREEMPT_COUNT st = replicate MAX_CPUS 0"
proof -
  have b: "dispatch_inv demo_idle"
    using dispatch_inv_boot [of "[demo_task 0 0]" 1] by (simp add: demo_idle_def)
  have f: "first_idx Not (TASK_VALID demo_idle) = Some 0" "TASKS demo_idle = [demo_task 0 0]" "NEXT_TID demo_idle = 1"
      "EXECUTES demo_idle = replicate MAX_CPUS None" "DEADLINE_TICK_COUNTER demo_idle = 0" "TASK_VALID demo_idle = [False]"
      "PREEMPT_COUNT demo_idle = replicate MAX_CPUS 0"
      "sched_queues demo_idle = (\<lambda>_ _. [])"
    by (simp_all add: demo_idle_def) (simp_all add: sched_boot_def demo_task_def)
  obtain r st where c: "try_task_create_affinity 16 (- 1) demo_idle = (r, st)"
    by (cases "try_task_create_affinity 16 (- 1) demo_idle")
  have d: "dispatch_inv st"
    using task_create_ok(1) [OF b, of 16 "- 1"] c by simp
  have p: "prio_bucket 16 = 16"
    by (simp add: prio_bucket_def NUM_PRIORITIES_def)
  show ?thesis
    using create_view [OF b f(1) c] that [OF c [THEN trans]] d c f p by (metis list_update_code(2) nth_Cons_0 append_Nil)
qed

lemma context_switch_fields [simp]:
  "EXECUTES (context_switch hart old nxt st) = (EXECUTES st)[hart := Some nxt]"
  "EXECUTES (activate_task st cpu nxt) = EXECUTES st" "HART_TP (activate_task st cpu nxt) = HART_TP st"
  "PREEMPT_COUNT (context_switch hart old nxt st) = PREEMPT_COUNT st"
  "DEADLINE_TICK_COUNTER (context_switch hart old nxt st) = DEADLINE_TICK_COUNTER st"
  "PREEMPT_COUNT (activate_task st cpu nxt) = PREEMPT_COUNT st" "DEADLINE_TICK_COUNTER (activate_task st cpu nxt) = DEADLINE_TICK_COUNTER st"
  by (auto simp: context_switch_def activate_task_def set_current_def upd_cpu_def Let_def split: option.split)

lemma executing_valid:
  assumes "dispatch_inv st" "h < MAX_CPUS" "EXECUTES st ! h = Some i"
  shows "TASK_VALID st ! i"
proof -
  have s: "sched_inv st" "harts_inv st"
    using assms(1) by (simp_all add: dispatch_inv_def)
  have "current_idx (PER_CPU st ! h) = Some i"
    using harts_invD(3) [OF s(2) assms(2)] assms(2,3) length_PER_CPU [OF s(1)] by simp
  then show ?thesis
    by (rule current_task(3) [OF assms(1,2)])
qed

lemma start_view:
  assumes "dispatch_inv st" "hart < MAX_CPUS" "EXECUTES st ! hart = None" "sched_queues st hart p \<noteq> []"
  obtains st' i where "sched_start hart st = Goes st'" "EXECUTES st' ! hart = Some i" "i < length (TASKS st)"
    "TASKS st' ! i = (put_state Running ((TASKS st ! i)\<lparr>tk_queued := False\<rparr>))\<lparr>time_slice := initial_slice (priority (TASKS st ! i))\<rparr>"
    "PREEMPT_COUNT st' = PREEMPT_COUNT st" "DEADLINE_TICK_COUNTER st' = DEADLINE_TICK_COUNTER st"
proof -
  have s: "sched_inv st" "harts_inv st"
    using assms(1) by (simp_all add: dispatch_inv_def)
  obtain r st1 where d: "cpu_dequeue st hart = (r, st1)"
    by (cases "cpu_dequeue st hart")
  then obtain nxt where r: "r = Some nxt"
    using cpu_dequeue_none(2) [OF s(1) assms(2)] assms(4) by (cases r) auto
  note v = dequeue_view [OF s(1) assms(2) d [unfolded r]]
  have "length (EXECUTES st1) = MAX_CPUS"
    using frame_fields(4) [OF v(2)] harts_invD(3) [OF s(2) assms(2)] length_PER_CPU [OF s(1)] by simp
  moreover have "TASKS (context_switch hart None nxt (activate_task st1 hart nxt)) ! nxt =
      (put_state Running (TASKS st1 ! nxt))\<lparr>time_slice := initial_slice (priority (TASKS st1 ! nxt))\<rparr>"
    using switch_view(8) [OF v(1) assms(2), of nxt None hart] v(3,5) by simp
  moreover have "PREEMPT_COUNT st1 = PREEMPT_COUNT st" "DEADLINE_TICK_COUNTER st1 = DEADLINE_TICK_COUNTER st"
    using v(2) by (simp_all add: frame_def)
  ultimately show ?thesis
    using that v(3,5) d r harts_invD(2) [OF s(2) assms(2)] assms(2) by (simp add: sched_start_def Let_def)
qed

lemma demo_started:
  obtains st h where "sched_reach no_deadline (sched_boot [demo_task 0 0] [False] 1) (Goes st)" "h < MAX_CPUS" "EXECUTES st ! h = Some 0"
    "state_wd (TASKS st ! 0) = pack_state Running" "cpu_affinity (TASKS st ! 0) = - 1" "total_runtime (TASKS st ! 0) = 0"
    "PREEMPT_COUNT st ! h = 0" "DEADLINE_TICK_COUNTER st = 0"
proof -
  obtain st target where c: "try_task_create_affinity 16 (- 1) demo_idle = (Some 0, st)" "target < MAX_CPUS" "dispatch_inv st"
      "TASKS st = [(init_task 1 16 (- 1) (demo_task 0 0))\<lparr>context_tp := target, tk_queued := True\<rparr>]"
      "sched_queues st = upd_q (\<lambda>_ _. []) target 16 [0]" "EXECUTES st = replicate MAX_CPUS None" "DEADLINE_TICK_COUNTER st = 0"
      "PREEMPT_COUNT st = replicate MAX_CPUS 0"
    using demo_created by metis
  have n: "EXECUTES st ! target = None" "sched_queues st target 16 \<noteq> []"
    using c(2,5,6) by (simp_all add: upd_q_apply)
  obtain st' i where st': "sched_start target st = Goes st'" "EXECUTES st' ! target = Some i" "i < length (TASKS st)"
      "TASKS st' ! i = (put_state Running ((TASKS st ! i)\<lparr>tk_queued := False\<rparr>))\<lparr>time_slice := initial_slice (priority (TASKS st ! i))\<rparr>"
      "PREEMPT_COUNT st' = PREEMPT_COUNT st" "DEADLINE_TICK_COUNTER st' = DEADLINE_TICK_COUNTER st"
    using start_view [OF c(3,2) n] .
  have "sched_reach no_deadline demo_idle (Goes st)"
    using reach_step [OF reach_refl, of no_deadline "Create 16 (- 1)" demo_idle] c(1) by simp
  then have r: "sched_reach no_deadline (sched_boot [demo_task 0 0] [False] 1) (Goes st')"
    using reach_step [of no_deadline demo_idle st "Start target"] c(2,6) st'(1) by (simp add: demo_idle_def)
  have i: "i = 0"
    using st'(3) c(4) by simp
  show ?thesis
    using that [OF r c(2)] st' c i by (simp add: put_state_def init_task_def demo_task_def pack_state_word)
qed

theorem every_task_in_one_place_witness:
  "\<exists>st h. sched_reach no_deadline (sched_boot [demo_task 0 0] [False] 1) (Goes st) \<and> h < MAX_CPUS \<and> EXECUTES st ! h = Some 0
     \<and> current_cpu_id st h = h \<and> \<not> queued_on st h 0"
proof -
  obtain st h where r: "sched_reach no_deadline (sched_boot [demo_task 0 0] [False] 1) (Goes st)" "h < MAX_CPUS" "EXECUTES st ! h = Some 0"
    using demo_started by metis
  have v: "TASK_VALID st ! 0"
    using executing_valid [of st h] reach_ok [OF r(1)] dispatch_inv_boot [of "[demo_task 0 0]" 1] r(2,3) by simp
  have o: "in_one_place st 0" "current_cpu_id st h = h"
    using every_task_in_one_place [of "[demo_task 0 0]" 1 "Goes st"] r v by simp_all
  have "list_ex (\<lambda>h. EXECUTES st ! h = Some 0) [0..<MAX_CPUS]"
    using r(2,3) by (auto simp: list_ex_iff)
  then have "\<not> queued_on st h 0"
    using o(1) r(2) by (simp add: in_one_place_def list_ex_iff)
  then show ?thesis
    using r o(2) by blast
qed

end
