(* ===== verification/Sched_Deadline.thy ===== *)
theory Sched_Deadline
  imports Sched_Exclusive
begin

text \<open>
  Deadline tasks (\<open>task_set_deadline\<close>, \<open>deadline_admission_check\<close>, \<open>find_earliest_deadline\<close> and the deadline
  branch of \<open>schedule\<close> in \<open>crates/sched/src/scheduler.rs\<close>).  The earliest-deadline pick claims a task
  without taking its entry off the ready queue, so that a second hart can dispatch it as
  well; and the budget and the period, converted to ticks of the 10 MHz clock, are counted down
  in ticks of the 100 Hz scheduler.
\<close>

section \<open>Configuring a deadline\<close>

definition the_deadline :: "Sched \<Rightarrow> u64 \<Rightarrow> u64 \<Rightarrow> DeadlineParams" where
  "the_deadline st period runtime =
     \<lparr>period_us = period, runtime_us = runtime, abs_deadline = DEADLINE_TICK_COUNTER st + period * TICKS_PER_US,
      remaining = runtime * TICKS_PER_US\<rparr>"

definition deadline_fits :: "Sched \<Rightarrow> u64 \<Rightarrow> u64 \<Rightarrow> bool" where
  "deadline_fits st period runtime \<longleftrightarrow>
     0 < runtime \<and> runtime \<le> period \<and> unat (DEADLINE_TICK_COUNTER st) + unat period * 10000 < 2 ^ 64 - 1"

lemma util_scan_none:
  "(\<And>v t. (v, t) \<in> set xs \<Longrightarrow> v \<Longrightarrow> period_us (deadline t) = 0) \<Longrightarrow> util_scan xs acc = Some acc"
  by (induction xs) force+

lemma checked_mulI: "unat a * unat b < 2 ^ 64 \<Longrightarrow> checked_mul a (b :: u64) = Some (a * b) \<and> unat (a * b) = unat a * unat b"
  by (simp add: checked_mul_def unat_word_ariths)

lemma checked_addI: "unat a + unat b < 2 ^ 64 \<Longrightarrow> checked_add a (b :: u64) = Some (a + b) \<and> unat (a + b) = unat a + unat b"
  by (simp add: checked_add_def unat_word_ariths)

lemma deadline_fitsD:
  assumes "deadline_fits st period runtime"
  shows "checked_mul period TICKS_PER_US = Some (period * TICKS_PER_US)" "checked_mul runtime TICKS_PER_US = Some (runtime * TICKS_PER_US)"
    "checked_add (DEADLINE_TICK_COUNTER st) (period * TICKS_PER_US) = Some (DEADLINE_TICK_COUNTER st + period * TICKS_PER_US)"
    "checked_mul runtime ADMISSION_SCALE = Some (runtime * ADMISSION_SCALE)"
    "unat (runtime * ADMISSION_SCALE) = unat runtime * 10000"
    "unat (DEADLINE_TICK_COUNTER st + period * TICKS_PER_US) = unat (DEADLINE_TICK_COUNTER st) + unat period * 10"
    "unat (runtime * TICKS_PER_US) = unat runtime * 10" "unat runtime \<le> unat period" "0 < unat runtime"
proof -
  have u: "unat TICKS_PER_US = 10" "unat ADMISSION_SCALE = 10000"
    by (simp_all add: TICKS_PER_US_def ADMISSION_SCALE_def)
  have r: "unat runtime \<le> unat period" "0 < unat runtime" "unat (DEADLINE_TICK_COUNTER st) + unat period * 10000 < 2 ^ 64 - 1"
    using assms by (auto simp: deadline_fits_def word_le_nat_alt word_less_nat_alt)
  have m: "unat period * unat TICKS_PER_US < 2 ^ 64" "unat runtime * unat TICKS_PER_US < 2 ^ 64" "unat runtime * unat ADMISSION_SCALE < 2 ^ 64"
    unfolding u using r by linarith+
  note p = checked_mulI [OF m(1)] and q = checked_mulI [OF m(2)] and s = checked_mulI [OF m(3)]
  have "unat (DEADLINE_TICK_COUNTER st) + unat (period * TICKS_PER_US) < 2 ^ 64"
    using p r unfolding u by linarith
  note a = checked_addI [OF this]
  show "checked_mul period TICKS_PER_US = Some (period * TICKS_PER_US)" "checked_mul runtime TICKS_PER_US = Some (runtime * TICKS_PER_US)"
    "checked_add (DEADLINE_TICK_COUNTER st) (period * TICKS_PER_US) = Some (DEADLINE_TICK_COUNTER st + period * TICKS_PER_US)"
    "checked_mul runtime ADMISSION_SCALE = Some (runtime * ADMISSION_SCALE)"
    "unat (runtime * ADMISSION_SCALE) = unat runtime * 10000"
    "unat (DEADLINE_TICK_COUNTER st + period * TICKS_PER_US) = unat (DEADLINE_TICK_COUNTER st) + unat period * 10"
    "unat (runtime * TICKS_PER_US) = unat runtime * 10" "unat runtime \<le> unat period" "0 < unat runtime"
    using p q s a r unfolding u by simp_all
qed

lemma deadline_admitted:
  assumes "dispatch_inv st" "deadline_fits st period runtime"
  shows "deadline_admission_check period runtime st = Ret True"
proof -
  note f = deadline_fitsD [OF assms(2)]
  have u: "util_scan (zip (TASK_VALID st) (TASKS st)) 0 = Some 0"
  proof (rule util_scan_none)
    fix v t
    assume "(v, t) \<in> set (zip (TASK_VALID st) (TASKS st))" "v"
    then show "period_us (deadline t) = 0"
      using assms(1) by (auto simp: set_zip dispatch_inv_def task_ok_def)
  qed
  have "unat (runtime * ADMISSION_SCALE div period) \<le> 10000"
  proof -
    have "unat runtime * 10000 div unat period \<le> unat period * 10000 div unat period"
      using f(8) by (intro div_le_mono) simp
    then show ?thesis
      using f(5,8,9) by (simp add: unat_div_distrib)
  qed
  then have "runtime * ADMISSION_SCALE div period \<le> ADMISSION_SCALE"
    by (simp add: word_le_nat_alt ADMISSION_SCALE_def)
  moreover have "period \<noteq> 0"
    using f(8,9) by auto
  ultimately show ?thesis
    using u f(4) unsigned_less [of "runtime * ADMISSION_SCALE div period", where ?'a = nat]
    by (simp add: deadline_admission_check_def checked_add_def)
qed

lemma set_deadline_effect:
  assumes "dispatch_inv st" "i < length (TASKS st)" "TASK_VALID st ! i" "deadline_fits st period runtime"
  shows "task_set_deadline i period runtime st = Goes (upd_task st i (\<lambda>t. t\<lparr>deadline := the_deadline st period runtime\<rparr>))"
    "period_us (the_deadline st period runtime) \<noteq> 0" "remaining (the_deadline st period runtime) \<noteq> 0"
    "abs_deadline (the_deadline st period runtime) \<noteq> - 1"
proof -
  note f = deadline_fitsD [OF assms(4)]
  have z: "period \<noteq> 0" "runtime \<noteq> 0" "\<not> runtime > period" "unat (DEADLINE_TICK_COUNTER st) + unat period * 10 < 2 ^ 64 - 1"
    using f(8,9) assms(4) by (auto simp: deadline_fits_def)
  then show "task_set_deadline i period runtime st = Goes (upd_task st i (\<lambda>t. t\<lparr>deadline := the_deadline st period runtime\<rparr>))"
    using assms(2,3) deadline_admitted [OF assms(1,4)] f(1-3) by (simp add: task_set_deadline_def the_deadline_def)
  show "period_us (the_deadline st period runtime) \<noteq> 0" "remaining (the_deadline st period runtime) \<noteq> 0"
    using z(1) f(7,9) by (auto simp: the_deadline_def)
  show "abs_deadline (the_deadline st period runtime) \<noteq> - 1"
  proof
    assume "abs_deadline (the_deadline st period runtime) = - 1"
    then have "unat (DEADLINE_TICK_COUNTER st + period * TICKS_PER_US) = unat (- 1 :: u64)"
      by (simp add: the_deadline_def)
    then show False
      using f(6) z(4) by (simp add: unsigned_minus_1_eq_mask mask_eq_exp_minus_1)
  qed
qed

section \<open>What leaving a task does not touch\<close>

lemma enqueue_other:
  "j \<noteq> idx \<Longrightarrow> TASKS (snd (cpu_enqueue st cpu idx)) ! j = TASKS st ! j"
  "length (TASKS (snd (cpu_enqueue st cpu idx))) = length (TASKS st)"
  "c \<noteq> cpu \<Longrightarrow> sched_queues (snd (cpu_enqueue st cpu idx)) c = sched_queues st c"
  by (simp_all add: cpu_enqueue_def Let_def sched_queues_def fun_eq_iff split: EnqueueOutcome.split)

lemma enqueue_deadline: "deadline (TASKS (snd (cpu_enqueue st cpu idx)) ! j) = deadline (TASKS st ! j)"
  by (cases "j = idx"; cases "idx < length (TASKS st)")
    (simp_all add: cpu_enqueue_def Let_def enqueue_other list_update_beyond split: EnqueueOutcome.split)

lemma leave_other:
  "j \<noteq> old \<Longrightarrow> TASKS (leave_task st cpu old) ! j = TASKS st ! j"
  "j \<noteq> old \<Longrightarrow> TASK_VALID (leave_task st cpu old) ! j = TASK_VALID st ! j"
  "c \<noteq> cpu \<Longrightarrow> sched_queues (leave_task st cpu old) c = sched_queues st c"
  "EXECUTES (leave_task st cpu old) = EXECUTES st" "HART_TP (leave_task st cpu old) = HART_TP st"
  "old < length (TASKS st) \<Longrightarrow> deadline (TASKS (leave_task st cpu old) ! j) = deadline (TASKS st ! j)"
  "TASK_VALID (leave_task st cpu old) ! j \<Longrightarrow> TASK_VALID st ! j"
proof -
  have f: "TASK_VALID (snd (cpu_enqueue u cpu old)) = TASK_VALID u" "EXECUTES (snd (cpu_enqueue u cpu old)) = EXECUTES u"
      "HART_TP (snd (cpu_enqueue u cpu old)) = HART_TP u" for u
    using frame_fields [OF frame_enqueue, of u cpu old] by simp_all
  show "j \<noteq> old \<Longrightarrow> TASKS (leave_task st cpu old) ! j = TASKS st ! j"
    "j \<noteq> old \<Longrightarrow> TASK_VALID (leave_task st cpu old) ! j = TASK_VALID st ! j"
    "c \<noteq> cpu \<Longrightarrow> sched_queues (leave_task st cpu old) c = sched_queues st c"
    "EXECUTES (leave_task st cpu old) = EXECUTES st" "HART_TP (leave_task st cpu old) = HART_TP st"
    by (simp_all add: leave_task_def enqueue_other f)
  show "old < length (TASKS st) \<Longrightarrow> deadline (TASKS (leave_task st cpu old) ! j) = deadline (TASKS st ! j)"
    by (cases "j = old") (simp_all add: leave_task_def enqueue_deadline put_state_def)
  show "TASK_VALID (leave_task st cpu old) ! j \<Longrightarrow> TASK_VALID st ! j"
    by (cases "j = old"; cases "old < length (TASK_VALID st)") (auto simp: leave_task_def f list_update_beyond split: if_splits)
qed

lemma switch_other:
  "c \<noteq> cpu \<Longrightarrow> sched_queues (context_switch hart old nxt (activate_task st cpu nxt)) c = sched_queues st c"
  by (auto simp: context_switch_def activate_task_def set_current_def Let_def sched_queues_def fun_eq_iff split: option.split)

lemma dequeue_head:
  assumes "sched_inv st" "a < MAX_CPUS" "find (\<lambda>p. sched_queues st a p \<noteq> []) [0..<NUM_PRIORITIES] = Some p" "hd (sched_queues st a p) = i"
  obtains st' where "cpu_dequeue st a = (Some i, st')"
proof -
  obtain r st' where d: "cpu_dequeue st a = (r, st')"
    by (cases "cpu_dequeue st a")
  then show ?thesis
    using cpu_dequeue_refines [OF assms(1,2) d] assms(3,4) that by (auto simp: sp_dequeue_def)
qed

section \<open>A deadline task on two harts\<close>

text \<open>The first hart claims the task; its entry stays in the queue.\<close>

lemma edf_pick:
  assumes "dispatch_inv st0" "i < length (TASKS st0)" "tk_queued (TASKS st0 ! i)" "cpu_affinity (TASKS st0 ! i) < 0" "b < MAX_CPUS"
    "period_us d \<noteq> 0" "remaining d \<noteq> 0" "abs_deadline d \<noteq> - 1"
  defines "st \<equiv> upd_task st0 i (\<lambda>t. t\<lparr>deadline := d\<rparr>)"
  shows "pick_next st b = (Some i, upd_task st i (put_state Running))"
proof -
  note q = queued_task [OF assms(1-3)]
  have "edf_eligible st b i"
    using q(1,3) assms(2,4,6,7) by (simp add: st_def edf_eligible_def task_state_def Let_def)
  moreover have "\<not> edf_eligible st b j" if "j < length (TASKS st)" "j \<noteq> i" for j
    using dispatch_task [OF assms(1), of j] that by (auto simp: st_def edf_eligible_def Let_def task_ok_def)
  ultimately have "find_earliest_deadline st b = Some i"
    using assms(2,8) by (intro find_earliest_deadline_only) (simp_all add: st_def)
  then show ?thesis
    by (simp add: pick_next_def)
qed

definition leave_current :: "Sched \<Rightarrow> nat \<Rightarrow> Sched" where
  "leave_current st cpu = (case current_idx (PER_CPU st ! cpu) of None \<Rightarrow> st | Some old \<Rightarrow> leave_task st cpu old)"

definition left_current :: "Sched \<Rightarrow> nat \<Rightarrow> nat option" where
  "left_current st cpu = (case current_idx (PER_CPU st ! cpu) of None \<Rightarrow> None | Some old \<Rightarrow> if task_state st old = Zombie then None else Some old)"

lemma do_schedule_switches:
  assumes "pick_next st b = (Some i, st')" "current_idx (PER_CPU st' ! b) \<noteq> Some i" "\<not> context_saving (TASKS (leave_current st' b) ! i)"
  shows "do_schedule hart b st = Goes (context_switch hart (left_current st' b) i (activate_task (leave_current st' b) b i))"
  using assms by (cases "current_idx (PER_CPU st' ! b)") (simp_all add: do_schedule_def leave_current_def left_current_def Let_def)

text \<open>What the claiming hart leaves in place of the state it found.\<close>

definition hart_left :: "Sched \<Rightarrow> nat \<Rightarrow> nat \<Rightarrow> Task \<Rightarrow> Sched \<Rightarrow> bool" where
  "hart_left st0 b i t s2 \<longleftrightarrow> sched_inv s2 \<and> length (TASKS s2) = length (TASKS st0) \<and> EXECUTES s2 = EXECUTES st0 \<and> HART_TP s2 = HART_TP st0
     \<and> map current_idx (PER_CPU s2) = map current_idx (PER_CPU st0) \<and> (\<forall>c. c \<noteq> b \<longrightarrow> sched_queues s2 c = sched_queues st0 c)
     \<and> TASKS s2 ! i = t
     \<and> (\<forall>j. j < length (TASKS st0) \<longrightarrow> j \<noteq> i \<longrightarrow> TASK_VALID s2 ! j \<longrightarrow> period_us (deadline (TASKS s2 ! j)) = 0)"

lemma claim_left:
  fixes d :: DeadlineParams
  assumes "dispatch_inv st0" "i < length (TASKS st0)" "current_idx (PER_CPU st0 ! b) \<noteq> Some i" "b < MAX_CPUS"
  defines "t \<equiv> put_state Running ((TASKS st0 ! i)\<lparr>deadline := d\<rparr>)"
  shows "hart_left st0 b i t (leave_current (upd_task (upd_task st0 i (\<lambda>t. t\<lparr>deadline := d\<rparr>)) i (put_state Running)) b)"
proof -
  let ?st' = "upd_task (upd_task st0 i (\<lambda>t. t\<lparr>deadline := d\<rparr>)) i (put_state Running)"
  have s: "sched_inv ?st'"
    using assms(1,2) by (simp add: upd_task_view put_state_def dispatch_inv_def)
  have per: "period_us (deadline (TASKS st0 ! j)) = 0" if "j < length (TASKS st0)" "TASK_VALID st0 ! j" for j
    using dispatch_task [OF assms(1) that(1)] that(2) by (simp add: task_ok_def)
  show ?thesis
  proof (cases "current_idx (PER_CPU st0 ! b)")
    case None
    then show ?thesis
      using s per assms(2) by (simp add: hart_left_def leave_current_def t_def)
  next
    case (Some old)
    have o: "old \<noteq> i" "old < length (TASKS st0)" "is_current st0 old" "TASK_VALID st0 ! old"
      using Some assms(3) current_task(1-3) [OF assms(1,4) Some] by auto
    have "task_ok (TASKS ?st' ! old) True True (\<lambda>c. queued_on ?st' c old)"
      using dispatch_task [OF assms(1) o(2)] o by simp
    then have "left_behind ?st' b old (leave_task ?st' b old)"
      using o s by (intro leave_task_view) (simp_all add: assms(4))
    then show ?thesis
      using Some o per assms(2) leave_other [where st = ?st' and old = old and cpu = b]
      by (simp add: hart_left_def leave_current_def left_behind_def t_def)
  qed
qed

lemma claim_step:
  assumes "dispatch_inv st0" "i < length (TASKS st0)" "tk_queued (TASKS st0 ! i)" "cpu_affinity (TASKS st0 ! i) < 0" "b < MAX_CPUS"
    "period_us d \<noteq> 0" "remaining d \<noteq> 0" "abs_deadline d \<noteq> - 1"
  defines "st \<equiv> upd_task st0 i (\<lambda>t. t\<lparr>deadline := d\<rparr>)"
  obtains st1 where "do_schedule b b st = Goes st1" "sched_inv st1" "EXECUTES st1 = (EXECUTES st0)[b := Some i]"
    "HART_TP st1 = (HART_TP st0)[b := context_tp (TASKS st0 ! i)]" "\<And>c. c \<noteq> b \<Longrightarrow> sched_queues st1 c = sched_queues st0 c"
    "map current_idx (PER_CPU st1) = (map current_idx (PER_CPU st0))[b := Some i]" "length (TASKS st1) = length (TASKS st0)"
    "task_state st1 i = Running" "\<not> context_saving (TASKS st1 ! i)"
    "\<And>j. j < length (TASKS st0) \<Longrightarrow> j \<noteq> i \<Longrightarrow> TASK_VALID st1 ! j \<Longrightarrow> period_us (deadline (TASKS st1 ! j)) = 0"
proof -
  have s: "sched_inv st0" "harts_inv st0"
    using assms(1) by (simp_all add: dispatch_inv_def)
  note q = queued_task [OF assms(1-3)]
  have cur: "current_idx (PER_CPU st0 ! b) \<noteq> Some i"
    using q(2) assms(5) s(1) by (auto simp: is_current_iff)
  define s2 where "s2 = leave_current (upd_task st i (put_state Running)) b"
  define old where "old = left_current (upd_task st i (put_state Running)) b"
  have "hart_left st0 b i (put_state Running ((TASKS st0 ! i)\<lparr>deadline := d\<rparr>)) s2"
    unfolding s2_def st_def by (rule claim_left [OF assms(1,2) cur assms(5)])
  then have s2: "sched_inv s2" "length (TASKS s2) = length (TASKS st0)" "EXECUTES s2 = EXECUTES st0" "HART_TP s2 = HART_TP st0"
    "map current_idx (PER_CPU s2) = map current_idx (PER_CPU st0)" "\<And>c. c \<noteq> b \<Longrightarrow> sched_queues s2 c = sched_queues st0 c"
    "TASKS s2 ! i = put_state Running ((TASKS st0 ! i)\<lparr>deadline := d\<rparr>)"
    "\<And>j. j < length (TASKS st0) \<Longrightarrow> j \<noteq> i \<Longrightarrow> TASK_VALID s2 ! j \<Longrightarrow> period_us (deadline (TASKS s2 ! j)) = 0"
    by (simp_all add: hart_left_def)
  have e: "do_schedule b b st = Goes (context_switch b old i (activate_task s2 b i))"
    unfolding s2_def old_def
    by (rule do_schedule_switches [OF edf_pick [OF assms(1-8), folded st_def]])
      (use cur s2(7) q(4) in \<open>simp_all add: st_def put_state_def s2_def\<close>)
  have n: "i < length (TASKS s2)" "old \<noteq> Some i" "\<And>j. old = Some j \<Longrightarrow> j < length (TASKS s2)"
    using assms(2) cur s2(2) harts_invD(4) [OF s(2) assms(5)] by (auto simp: old_def st_def left_current_def split: option.splits if_splits)
  note v = switch_view [OF s2(1) assms(5) n, where hart = b]
  obtain w f where w: "state_wd (TASKS st0 ! i) = state_word w f"
    using q(5) by (metis word_ok_def)
  let ?st1 = "context_switch b old i (activate_task s2 b i)"
  show ?thesis
  proof (rule that [OF e])
    show "task_state ?st1 i = Running" "\<not> context_saving (TASKS ?st1 ! i)"
      using v(8) s2(7) w q(4) by (simp_all add: task_state_def put_state_def)
    show "period_us (deadline (TASKS ?st1 ! j)) = 0" if "j < length (TASKS st0)" "j \<noteq> i" "TASK_VALID ?st1 ! j" for j
      using v(3) v(9) [OF _ that(2)] s2(8) [OF that(1,2)] that(3) by (simp split: if_splits)
    show "sched_queues ?st1 c = sched_queues st0 c" if "c \<noteq> b" for c
      using switch_other [OF that] s2(6) [OF that] by simp
    show "HART_TP ?st1 = (HART_TP st0)[b := context_tp (TASKS st0 ! i)]"
      using v(6) s2(4,7) by (simp add: put_state_def)
  qed (use v s2 in simp_all)
qed

text \<open>The second hart finds the task at the head of its own queue.\<close>

lemma dequeue_step:
  assumes "sched_inv st" "a < MAX_CPUS" "find_earliest_deadline st a = None" "cpu_dequeue st a = (Some i, st')"
    "current_idx (PER_CPU st ! a) \<noteq> Some i" "\<not> context_saving (TASKS st ! i)" "HART_TP st ! a = a"
    "length (EXECUTES st) = MAX_CPUS" "length (HART_TP st) = MAX_CPUS"
  obtains st2 where "task_yield a st = Goes st2" "EXECUTES st2 = (EXECUTES st)[a := Some i]" "\<And>b. b \<noteq> a \<Longrightarrow> HART_TP st2 ! b = HART_TP st ! b"
proof -
  note dq = dequeue_view [OF assms(1,2,4)]
  note f = frame_fields [OF dq(2)]
  have cur: "current_idx (PER_CPU st' ! a) = current_idx (PER_CPU st ! a)"
    using arg_cong [OF f(5), of "\<lambda>xs. xs ! a"] assms(2) by (simp add: length_PER_CPU assms(1) dq(1))
  have p: "pick_next st a = (Some i, st')"
    using assms(3,4) by (simp add: pick_next_def)
  have s2: "EXECUTES (leave_current st' a) = EXECUTES st" "HART_TP (leave_current st' a) = HART_TP st"
      "TASKS (leave_current st' a) ! i = TASKS st' ! i"
    using assms(5) f cur by (auto simp: leave_current_def leave_other split: option.split)
  have e: "do_schedule a a st = Goes (context_switch a (left_current st' a) i (activate_task (leave_current st' a) a i))"
    by (rule do_schedule_switches [OF p]) (use s2(3) cur assms(5,6) dq(3,5) in simp_all)
  show ?thesis
    by (rule that [of "context_switch a (left_current st' a) i (activate_task (leave_current st' a) a i)"])
      (use e s2 assms in \<open>auto simp: task_yield_def current_cpu_id_def context_switch_def Let_def split: option.split\<close>)
qed

text \<open>
  C35. The earliest-deadline pick does not take the task off the ready queue it is in, nor does it look at
  whose queue that is.  In every state the dispatcher reaches before any deadline is configured, give
  a deadline to an unpinned task that is next on the queue of hart \<open>a\<close>, let another hart
  \<open>b\<close> yield and then hart \<open>a\<close>: both harts execute the task, on the same stack, and hart \<open>b\<close>
  takes itself for hart \<open>a\<close>, because it has loaded the \<open>tp\<close> saved for the queue of \<open>a\<close>.
\<close>

theorem deadline_task_on_two_harts:
  assumes "ts \<noteq> []" "sched_reach no_deadline (sched_boot ts (replicate (length ts) False) online) (Goes st0)"
    "a < MAX_CPUS" "b < MAX_CPUS" "a \<noteq> b"
    "find (\<lambda>p. sched_queues st0 a p \<noteq> []) [0..<NUM_PRIORITIES] = Some p" "hd (sched_queues st0 a p) = i"
    "cpu_affinity (TASKS st0 ! i) < 0" "deadline_fits st0 period runtime"
  shows "\<exists>st st1 st2. task_set_deadline i period runtime st0 = Goes st \<and> task_yield b st = Goes st1 \<and> task_yield a st1 = Goes st2
    \<and> EXECUTES st2 ! a = Some i \<and> EXECUTES st2 ! b = Some i \<and> current_cpu_id st2 b = a"
proof -
  have inv: "dispatch_inv st0"
    using reach_ok [OF assms(2) dispatch_inv_boot [OF assms(1)]] by simp
  have s: "sched_inv st0" "harts_inv st0"
    using inv by (simp_all add: dispatch_inv_def)
  obtain d0 where "cpu_dequeue st0 a = (Some i, d0)"
    using dequeue_head [OF s(1) assms(3,6,7)] .
  note dq = dequeue_view [OF s(1) assms(3) this]
  note q = queued_task [OF inv dq(3,4)]
  have len: "length (HART_TP st0) = MAX_CPUS" "length (EXECUTES st0) = MAX_CPUS"
    using s(2) length_PER_CPU [OF s(1)] by (simp_all add: harts_inv_def)
  let ?d = "the_deadline st0 period runtime"
  let ?st = "upd_task st0 i (\<lambda>t. t\<lparr>deadline := ?d\<rparr>)"
  note sd = set_deadline_effect [OF inv dq(3) q(1) assms(9)]
  obtain st1 where st1: "do_schedule b b ?st = Goes st1" "sched_inv st1" "EXECUTES st1 = (EXECUTES st0)[b := Some i]"
    "HART_TP st1 = (HART_TP st0)[b := context_tp (TASKS st0 ! i)]" "\<And>c. c \<noteq> b \<Longrightarrow> sched_queues st1 c = sched_queues st0 c"
    "map current_idx (PER_CPU st1) = (map current_idx (PER_CPU st0))[b := Some i]" "length (TASKS st1) = length (TASKS st0)"
    "task_state st1 i = Running" "\<not> context_saving (TASKS st1 ! i)"
    "\<And>j. j < length (TASKS st0) \<Longrightarrow> j \<noteq> i \<Longrightarrow> TASK_VALID st1 ! j \<Longrightarrow> period_us (deadline (TASKS st1 ! j)) = 0"
    using claim_step [OF inv dq(3,4) assms(8,4) sd(2-4)] by blast
  have y1: "task_yield b ?st = Goes st1"
    using st1(1) harts_invD(1) [OF s(2) assms(4)] by (simp add: task_yield_def current_cpu_id_def)
  have cura: "current_idx (PER_CPU st1 ! a) = current_idx (PER_CPU st0 ! a)"
    using arg_cong [OF st1(6), of "\<lambda>xs. xs ! a"] assms(3,5) by (simp add: length_PER_CPU s(1) st1(2))
  have na: "current_idx (PER_CPU st0 ! a) \<noteq> Some i"
    using q(2) assms(3) s(1) by (auto simp: is_current_iff)
  have tpa: "HART_TP st1 ! a = a" "HART_TP st1 ! b = a"
    using st1(4) harts_invD(1) [OF s(2) assms(3)] assms(3-5) len(1) q(7) [OF dq(6)] by simp_all
  have none: "find_earliest_deadline st1 a = None"
  proof (rule find_earliest_deadline_none)
    show "\<not> edf_eligible st1 a j" if "j < length (TASKS st1)" for j
      using st1(7,8) st1(10) [of j] cura na that by (cases "j = i") (auto simp: edf_eligible_def Let_def)
  qed
  obtain st1' where d1: "cpu_dequeue st1 a = (Some i, st1')"
    using dequeue_head [OF st1(2) assms(3)] assms(6,7) st1(5) [OF assms(5)] by metis
  have len1: "length (EXECUTES st1) = MAX_CPUS" "length (HART_TP st1) = MAX_CPUS"
    using st1(3,4) len by simp_all
  obtain st2 where st2: "task_yield a st1 = Goes st2" "EXECUTES st2 = (EXECUTES st1)[a := Some i]" "\<And>b. b \<noteq> a \<Longrightarrow> HART_TP st2 ! b = HART_TP st1 ! b"
    using dequeue_step [OF st1(2) assms(3) none d1 _ st1(9) tpa(1) len1] cura na by metis
  have "EXECUTES st2 ! a = Some i" "EXECUTES st2 ! b = Some i" "current_cpu_id st2 b = a"
    using st2(2,3) st1(3) tpa(2) len assms(3-5) by (simp_all add: current_cpu_id_def)
  then show ?thesis
    using sd(1) y1 st2(1) by blast
qed

theorem deadline_task_on_two_harts_witness:
  "\<exists>st0 a b st st1 st2. sched_reach no_deadline (sched_boot [demo_task 0 0] [False] 1) (Goes st0) \<and> a \<noteq> b
     \<and> task_set_deadline 0 10000 1000 st0 = Goes st \<and> task_yield b st = Goes st1 \<and> task_yield a st1 = Goes st2
     \<and> EXECUTES st2 ! a = Some 0 \<and> EXECUTES st2 ! b = Some 0 \<and> current_cpu_id st2 b = a"
proof -
  obtain st0 a where c: "try_task_create_affinity 16 (- 1) demo_idle = (Some 0, st0)" "a < MAX_CPUS" "dispatch_inv st0"
      "TASKS st0 = [(init_task 1 16 (- 1) (demo_task 0 0))\<lparr>context_tp := a, tk_queued := True\<rparr>]"
      "sched_queues st0 = upd_q (\<lambda>_ _. []) a 16 [0]" "DEADLINE_TICK_COUNTER st0 = 0"
    using demo_created by metis
  define b :: nat where "b = (if a = 0 then 1 else 0)"
  have b: "b < MAX_CPUS" "a \<noteq> b"
    by (simp_all add: b_def MAX_CPUS_def)
  have r: "sched_reach no_deadline (sched_boot [demo_task 0 0] [False] 1) (Goes st0)"
    using reach_step [OF reach_refl, of no_deadline "Create 16 (- 1)" demo_idle] c(1) by (simp add: demo_idle_def)
  have q: "find (\<lambda>p. sched_queues st0 a p \<noteq> []) [0..<NUM_PRIORITIES] = Some 16" "hd (sched_queues st0 a 16) = 0"
    unfolding c(5) demo_levels by (simp_all add: upd_q_apply)
  have "cpu_affinity (TASKS st0 ! 0) < 0" "deadline_fits st0 10000 1000"
    using c(4,6) by (simp_all add: init_task_def deadline_fits_def)
  then have "\<exists>st st1 st2. task_set_deadline 0 10000 1000 st0 = Goes st \<and> task_yield b st = Goes st1 \<and> task_yield a st1 = Goes st2
     \<and> EXECUTES st2 ! a = Some 0 \<and> EXECUTES st2 ! b = Some 0 \<and> current_cpu_id st2 b = a"
    using deadline_task_on_two_harts [of "[demo_task 0 0]" 1 st0 a b 16 0 10000 1000] r c(2) b q by simp
  then show ?thesis
    using r b(2) by blast
qed

section \<open>The budget of a deadline task\<close>

fun ticks :: "nat \<Rightarrow> nat \<Rightarrow> Sched \<Rightarrow> sched_res" where
  "ticks hart 0 st = Goes st"
| "ticks hart (Suc k) st = goes_on (ticks hart k st) (sched_tick hart)"

text \<open>The state of a hart that runs the only deadline task, with budget left.\<close>

definition runs_deadline :: "Sched \<Rightarrow> nat \<Rightarrow> nat \<Rightarrow> bool" where
  "runs_deadline st hart i \<longleftrightarrow>
     hart < MAX_CPUS \<and> i < length (TASKS st) \<and> HART_TP st ! hart = hart \<and> current_idx (PER_CPU st ! hart) = Some i
     \<and> EXECUTES st ! hart = Some i \<and> TASK_VALID st ! i \<and> PREEMPT_COUNT st ! hart = 0
     \<and> state_wd (TASKS st ! i) = pack_state Running \<and> (cpu_affinity (TASKS st ! i) < 0 \<or> cpu_affinity (TASKS st ! i) = int hart)
     \<and> period_us (deadline (TASKS st ! i)) \<noteq> 0 \<and> abs_deadline (deadline (TASKS st ! i)) \<noteq> - 1
     \<and> (\<forall>j<length (TASKS st). j \<noteq> i \<and> TASK_VALID st ! j \<longrightarrow> period_us (deadline (TASKS st ! j)) = 0)"

lemma deadline_tick_step:
  assumes "runs_deadline st hart i" "1 < unat (remaining (deadline (TASKS st ! i)))"
    "DEADLINE_TICK_COUNTER st \<le> abs_deadline (deadline (TASKS st ! i))"
    "unat (total_runtime (TASKS st ! i)) + 1 < 2 ^ 64" "unat (DEADLINE_TICK_COUNTER st) * 10000 < 2 ^ 64"
  obtains st' where "sched_tick hart st = Goes st'" "runs_deadline st' hart i"
    "deadline (TASKS st' ! i) = (deadline (TASKS st ! i))\<lparr>remaining := remaining (deadline (TASKS st ! i)) - 1\<rparr>"
    "total_runtime (TASKS st' ! i) = total_runtime (TASKS st ! i) + 1" "DEADLINE_TICK_COUNTER st' = DEADLINE_TICK_COUNTER st + 1"
proof -
  let ?d = "deadline (TASKS st ! i)"
  let ?d' = "?d\<lparr>remaining := remaining ?d - 1\<rparr>"
  let ?f = "\<lambda>t. t\<lparr>total_runtime := total_runtime (TASKS st ! i) + 1, deadline := ?d'\<rparr>"
  let ?st = "bump_ticks (upd_task st i ?f)"
  note r = assms(1) [unfolded runs_deadline_def]
  have rem: "remaining ?d \<noteq> 0" "remaining ?d - 1 \<noteq> 0"
    using assms(2) by auto
  have f: "TASKS ?st ! i = ?f (TASKS st ! i)" "\<And>j. j \<noteq> i \<Longrightarrow> TASKS ?st ! j = TASKS st ! j" "length (TASKS ?st) = length (TASKS st)"
      "TASK_VALID ?st = TASK_VALID st" "PER_CPU ?st = PER_CPU st" "HART_TP ?st = HART_TP st" "EXECUTES ?st = EXECUTES st"
      "PREEMPT_COUNT ?st = PREEMPT_COUNT st" "DEADLINE_TICK_COUNTER ?st = DEADLINE_TICK_COUNTER st + 1"
    using r by (simp_all add: bump_ticks_def upd_task_def)
  have "edf_eligible ?st hart i"
    using r rem f by (auto simp: edf_eligible_def task_state_def pack_state_word Let_def)
  moreover have "\<not> edf_eligible ?st hart j" if "j < length (TASKS ?st)" "j \<noteq> i" for j
    using r that f by (auto simp: edf_eligible_def Let_def)
  ultimately have "find_earliest_deadline ?st hart = Some i"
    using r f(1,3) by (intro find_earliest_deadline_only) simp_all
  then have ds: "do_schedule hart hart ?st = Goes (upd_task ?st i (put_state Running))"
    using r f(5) by (simp add: do_schedule_def pick_next_def)
  have ca: "checked_add (total_runtime (TASKS st ! i)) 1 = Some (total_runtime (TASKS st ! i) + 1)"
    using assms(4) by (simp add: checked_add_def)
  have "unat SCHED_TICK_US = 10000"
    by (simp add: SCHED_TICK_US_def)
  then have cm: "checked_mul (DEADLINE_TICK_COUNTER st) SCHED_TICK_US = Some (DEADLINE_TICK_COUNTER st * SCHED_TICK_US)"
    using assms(5) by (simp add: checked_mul_def)
  have dt: "deadline_tick (DEADLINE_TICK_COUNTER st) ?d = Some ?d'"
    using rem(1) assms(3) by (auto simp: deadline_tick_def Let_def word_neq_0_conv not_less)
  have st: "state_of (pack_state Running) = Running" "set_state (pack_state Running) Running = pack_state Running"
    by (simp_all add: pack_state_word)
  have tk: "sched_tick hart st = Goes (upd_task ?st i (put_state Running))"
  proof -
    have "tick_running hart hart i (upd_task st i (\<lambda>t. t\<lparr>total_runtime := total_runtime (TASKS st ! i) + 1\<rparr>)) = do_schedule hart hart ?st"
      using r dt by (simp add: tick_running_def Let_def word_neq_0_conv upd_task_def)
    then show ?thesis
      using r ca cm ds st(1) by (simp add: sched_tick_def current_cpu_id_def task_state_def MAX_CPUS_def)
  qed
  have "runs_deadline (upd_task ?st i (put_state Running)) hart i"
    using r f st by (auto simp: runs_deadline_def put_state_def nth_list_update)
  then show ?thesis
    using that [OF tk] r f by (simp add: put_state_def)
qed

lemma deadline_ticks:
  assumes "runs_deadline st hart i" "unat (remaining (deadline (TASKS st ! i))) = n" "k < n"
    "unat (DEADLINE_TICK_COUNTER st) + k \<le> unat (abs_deadline (deadline (TASKS st ! i)))"
    "unat (total_runtime (TASKS st ! i)) + k < 2 ^ 64" "(unat (DEADLINE_TICK_COUNTER st) + k) * 10000 < 2 ^ 64"
  shows "\<exists>st'. ticks hart k st = Goes st' \<and> runs_deadline st' hart i \<and> unat (remaining (deadline (TASKS st' ! i))) = n - k
    \<and> abs_deadline (deadline (TASKS st' ! i)) = abs_deadline (deadline (TASKS st ! i))
    \<and> unat (DEADLINE_TICK_COUNTER st') = unat (DEADLINE_TICK_COUNTER st) + k \<and> unat (total_runtime (TASKS st' ! i)) = unat (total_runtime (TASKS st ! i)) + k"
  using assms(3-6)
proof (induction k)
  case 0
  then show ?case
    using assms(1,2) by simp
next
  case (Suc k)
  then obtain u where u: "ticks hart k st = Goes u" "runs_deadline u hart i" "unat (remaining (deadline (TASKS u ! i))) = n - k"
      "abs_deadline (deadline (TASKS u ! i)) = abs_deadline (deadline (TASKS st ! i))"
      "unat (DEADLINE_TICK_COUNTER u) = unat (DEADLINE_TICK_COUNTER st) + k" "unat (total_runtime (TASKS u ! i)) = unat (total_runtime (TASKS st ! i)) + k"
    by fastforce
  have c: "1 < unat (remaining (deadline (TASKS u ! i)))" "DEADLINE_TICK_COUNTER u \<le> abs_deadline (deadline (TASKS u ! i))"
      "unat (total_runtime (TASKS u ! i)) + 1 < 2 ^ 64" "unat (DEADLINE_TICK_COUNTER u) * 10000 < 2 ^ 64"
    using u(3-6) Suc.prems by (simp_all add: word_le_nat_alt)
  obtain v where v: "sched_tick hart u = Goes v" "runs_deadline v hart i"
    "deadline (TASKS v ! i) = (deadline (TASKS u ! i))\<lparr>remaining := remaining (deadline (TASKS u ! i)) - 1\<rparr>"
    "total_runtime (TASKS v ! i) = total_runtime (TASKS u ! i) + 1" "DEADLINE_TICK_COUNTER v = DEADLINE_TICK_COUNTER u + 1"
    using deadline_tick_step [OF u(2) c] .
  have "unat (remaining (deadline (TASKS u ! i)) - 1) = n - Suc k"
    using c(1) u(3) by (subst unat_sub) (simp_all add: word_le_nat_alt)
  moreover have "unat (DEADLINE_TICK_COUNTER u + 1) = Suc (unat (DEADLINE_TICK_COUNTER u))"
    using u(5) Suc.prems(4) by (simp add: unat_word_ariths)
  moreover have "unat (total_runtime (TASKS u ! i) + 1) = Suc (unat (total_runtime (TASKS u ! i)))"
    using c(3) by (simp add: unat_word_ariths)
  ultimately show ?case
    using u v by simp
qed

text \<open>
  C36. The budget and the period of a deadline task are stored in ticks of the 10 MHz clock (ten per
  microsecond), but counted down once per tick of the scheduler, which lasts 10 000 microseconds: a
  task that is given a runtime of \<open>runtime\<close> microseconds in every period, and that is running, keeps
  its hart for 100 000 times that long, whatever the other tasks of the hart need (they are not
  even considered), before the budget is used up.
\<close>

theorem deadline_budget_unit:
  assumes "ts \<noteq> []" "sched_reach no_deadline (sched_boot ts (replicate (length ts) False) online) (Goes st0)" "hart < MAX_CPUS"
    "EXECUTES st0 ! hart = Some i" "state_wd (TASKS st0 ! i) = pack_state Running" "cpu_affinity (TASKS st0 ! i) < 0"
    "PREEMPT_COUNT st0 ! hart = 0" "deadline_fits st0 period runtime"
    "unat (total_runtime (TASKS st0 ! i)) + 10 * unat runtime < 2 ^ 64" "(unat (DEADLINE_TICK_COUNTER st0) + 10 * unat runtime) * 10000 < 2 ^ 64"
    "elapsed_us = k * unat SCHED_TICK_US" "elapsed_us < 100000 * unat runtime"
  shows "\<exists>st st'. task_set_deadline i period runtime st0 = Goes st \<and> ticks hart k st = Goes st' \<and> EXECUTES st' ! hart = Some i
    \<and> unat (remaining (deadline (TASKS st' ! i))) = 10 * unat runtime - k"
proof -
  have inv: "dispatch_inv st0"
    using reach_ok [OF assms(2) dispatch_inv_boot [OF assms(1)]] by simp
  have s: "sched_inv st0" "harts_inv st0"
    using inv by (simp_all add: dispatch_inv_def)
  have cur: "current_idx (PER_CPU st0 ! hart) = Some i"
    using harts_invD(3) [OF s(2) assms(3)] assms(3,4) length_PER_CPU [OF s(1)] by simp
  note t = current_task [OF inv assms(3) cur]
  let ?d = "the_deadline st0 period runtime"
  let ?st = "upd_task st0 i (\<lambda>t. t\<lparr>deadline := ?d\<rparr>)"
  note sd = set_deadline_effect [OF inv t(1,3) assms(8)] and f = deadline_fitsD [OF assms(8)]
  have "period_us (deadline (TASKS st0 ! j)) = 0" if "j < length (TASKS st0)" "TASK_VALID st0 ! j" for j
    using dispatch_task [OF inv that(1)] that(2) by (simp add: task_ok_def)
  then have rd: "runs_deadline ?st hart i"
    using assms(3-7) cur t sd harts_invD(1) [OF s(2) assms(3)] by (simp add: runs_deadline_def)
  have k: "k < 10 * unat runtime"
    using assms(11,12) by (simp add: SCHED_TICK_US_def)
  have d: "unat (remaining (deadline (TASKS ?st ! i))) = 10 * unat runtime"
      "unat (abs_deadline (deadline (TASKS ?st ! i))) = unat (DEADLINE_TICK_COUNTER st0) + unat period * 10"
    using t(1) f(6,7) by (simp_all add: the_deadline_def)
  have b: "unat (DEADLINE_TICK_COUNTER ?st) + k \<le> unat (abs_deadline (deadline (TASKS ?st ! i)))"
      "unat (total_runtime (TASKS ?st ! i)) + k < 2 ^ 64" "(unat (DEADLINE_TICK_COUNTER ?st) + k) * 10000 < 2 ^ 64"
    using k f(8) assms(9,10) d(2) t(1) by simp_all
  show ?thesis
    using deadline_ticks [OF rd d(1) k b] sd(1) by (auto simp: runs_deadline_def)
qed

theorem deadline_budget_unit_witness:
  "\<exists>st0 hart st st'. task_set_deadline 0 10000 1000 st0 = Goes st \<and> ticks hart 9999 st = Goes st' \<and> EXECUTES st' ! hart = Some 0
     \<and> unat (remaining (deadline (TASKS st' ! 0))) = 1"
proof -
  obtain st0 hart where r: "sched_reach no_deadline (sched_boot [demo_task 0 0] [False] 1) (Goes st0)" "hart < MAX_CPUS" "EXECUTES st0 ! hart = Some 0"
    "state_wd (TASKS st0 ! 0) = pack_state Running" "cpu_affinity (TASKS st0 ! 0) = - 1" "total_runtime (TASKS st0 ! 0) = 0"
    "PREEMPT_COUNT st0 ! hart = 0" "DEADLINE_TICK_COUNTER st0 = 0"
    using demo_started .
  have "deadline_fits st0 10000 1000"
    using r(8) by (simp add: deadline_fits_def)
  then have "\<exists>st st'. task_set_deadline 0 10000 1000 st0 = Goes st \<and> ticks hart 9999 st = Goes st' \<and> EXECUTES st' ! hart = Some 0
     \<and> unat (remaining (deadline (TASKS st' ! 0))) = 1"
    using deadline_budget_unit [of "[demo_task 0 0]" 1 st0 hart 0 10000 1000 _ 9999, OF _ _ r(2,3,4) _ r(7) _ _ _ refl] r
    by (simp add: SCHED_TICK_US_def)
  then show ?thesis
    by blast
qed

end
