(* ===== verification/Fast_Ipc.thy ===== *)
theory Fast_Ipc
  imports Slot_Table
begin

text \<open>
  The slot table of the fast register-passing IPC (\<open>crates/ipc/src/fast_ipc.rs\<close>): one pool of slots,
  each holding one exchange between a caller and a server.  A handle names the exchange and not
  the slot: it carries the slot index and the generation of the slot, which advances whenever the slot is
  freed.  The counter \<open>used\<close> is a 32-bit word whose increment would panic on overflow; it equals the
  number of occupied slots (\<open>fast_ipc_inv\<close>), so it never gets there.  Waking the clients of a server
  that exits is left to the caller of \<open>fast_ipc_release_all\<close>: the function returns their handles.
\<close>

section \<open>Handles\<close>

definition FAST_IPC_MAX_SLOTS :: nat where "FAST_IPC_MAX_SLOTS = 64"
definition FAST_IPC_SLOT_FREE :: u32 where "FAST_IPC_SLOT_FREE = - 1"
definition FAST_IPC_SLOT_BITS :: nat where "FAST_IPC_SLOT_BITS = 6"
definition FAST_IPC_SLOT_MASK :: u64 where "FAST_IPC_SLOT_MASK = push_bit FAST_IPC_SLOT_BITS 1 - 1"
definition FAST_IPC_GEN_MASK :: u64 where "FAST_IPC_GEN_MASK = push_bit (63 - FAST_IPC_SLOT_BITS) 1 - 1"

definition fast_ipc_make_handle :: "nat \<Rightarrow> u64 \<Rightarrow> u64" where
  "fast_ipc_make_handle slot_idx generation =
     push_bit FAST_IPC_SLOT_BITS (generation AND FAST_IPC_GEN_MASK) OR (word_of_nat slot_idx AND FAST_IPC_SLOT_MASK)"

definition fast_ipc_handle_slot :: "u64 \<Rightarrow> nat option" where
  "fast_ipc_handle_slot h =
     (if h > 0x7FFFFFFFFFFFFFFF then None
      else let idx = unat (h AND FAST_IPC_SLOT_MASK) in if idx < FAST_IPC_MAX_SLOTS then Some idx else None)"

definition fast_handle_generation :: "u64 \<Rightarrow> u64" where
  "fast_handle_generation h = drop_bit FAST_IPC_SLOT_BITS h AND FAST_IPC_GEN_MASK"

section \<open>The table\<close>

datatype SlotState = Free | Pending | Accepted | Replied

record FastIpcSlot =
  fi_caller :: u32
  fi_server :: u32
  fi_words :: "u64 list"
  fi_state :: SlotState
  fi_generation :: u64

record FastIpcState =
  fi_slots :: "FastIpcSlot list"
  fi_used :: u32

definition fast_slot_empty :: FastIpcSlot where
  "fast_slot_empty = \<lparr>fi_caller = FAST_IPC_SLOT_FREE, fi_server = FAST_IPC_SLOT_FREE, fi_words = [0, 0, 0, 0],
     fi_state = Free, fi_generation = 0\<rparr>"

definition fast_ipc_new :: FastIpcState where
  "fast_ipc_new = \<lparr>fi_slots = replicate FAST_IPC_MAX_SLOTS fast_slot_empty, fi_used = 0\<rparr>"

definition fast_alloc_slot :: "FastIpcState \<Rightarrow> u32 \<Rightarrow> u32 \<Rightarrow> u64 list \<Rightarrow> (nat \<times> FastIpcState) option" where
  "fast_alloc_slot st caller server words =
     (case first_idx (\<lambda>s. fi_state s = Free) (fi_slots st) of
        None \<Rightarrow> None
      | Some i \<Rightarrow>
          Some (i, st\<lparr>fi_slots := (fi_slots st)[i := \<lparr>fi_caller = caller, fi_server = server, fi_words = words,
                        fi_state = Pending, fi_generation = fi_generation (fi_slots st ! i)\<rparr>],
                      fi_used := fi_used st + 1\<rparr>))"

definition find_pending_for_server :: "FastIpcState \<Rightarrow> u32 \<Rightarrow> nat option" where
  "find_pending_for_server st server =
     (if fi_used st = 0 then None
      else first_idx (\<lambda>s. fi_state s = Pending \<and> fi_server s = server) (fi_slots st))"

definition find_reply_for_caller :: "FastIpcState \<Rightarrow> u32 \<Rightarrow> nat option" where
  "find_reply_for_caller st caller =
     (if fi_used st = 0 then None
      else first_idx (\<lambda>s. fi_state s = Replied \<and> fi_caller s = caller) (fi_slots st))"

definition fast_free_slot :: "FastIpcState \<Rightarrow> nat \<Rightarrow> FastIpcState" where
  "fast_free_slot st idx =
     (if idx < length (fi_slots st)
      then let gen' = (fi_generation (fi_slots st ! idx) + 1) AND FAST_IPC_GEN_MASK
           in st\<lparr>fi_slots := (fi_slots st)[idx := fast_slot_empty\<lparr>fi_generation := gen'\<rparr>],
                 fi_used := saturating_sub (fi_used st) 1\<rparr>
      else st)"

section \<open>The operations\<close>

text \<open>Whether a task with the identifier of the server exists is an argument.\<close>

definition fast_ipc_call :: "(u32 \<Rightarrow> bool) \<Rightarrow> u32 \<Rightarrow> u32 \<Rightarrow> u64 list \<Rightarrow> FastIpcState \<Rightarrow> u64 option \<times> FastIpcState" where
  "fast_ipc_call tid_exists caller server words st =
     (if caller = server then (None, st)
      else if \<not> tid_exists server then (None, st)
      else case fast_alloc_slot st caller server words of
          None \<Rightarrow> (None, st)
        | Some (idx, st) \<Rightarrow> (Some (fast_ipc_make_handle idx (fi_generation (fi_slots st ! idx))), st))"

definition fast_ipc_accept :: "u32 \<Rightarrow> FastIpcState \<Rightarrow> (u64 \<times> u32 \<times> u64 list) option \<times> FastIpcState" where
  "fast_ipc_accept server st =
     (case find_pending_for_server st server of
        None \<Rightarrow> (None, st)
      | Some idx \<Rightarrow>
          (let s = fi_slots st ! idx
           in (Some (fast_ipc_make_handle idx (fi_generation s), fi_caller s, fi_words s),
               st\<lparr>fi_slots := (fi_slots st)[idx := s\<lparr>fi_state := Accepted\<rparr>]\<rparr>)))"

datatype FastIpcReply = Woke u32 nat | StaleHandle | Refused

definition fast_ipc_reply :: "u64 \<Rightarrow> u32 \<Rightarrow> bool \<Rightarrow> u64 list \<Rightarrow> FastIpcState \<Rightarrow> FastIpcReply \<times> FastIpcState" where
  "fast_ipc_reply h replier privileged words st =
     (case fast_ipc_handle_slot h of
        None \<Rightarrow> (Refused, st)
      | Some idx \<Rightarrow>
          if idx \<ge> length (fi_slots st) then (Refused, st)
          else let s = fi_slots st ! idx in
            if fi_state s \<noteq> Accepted then (Refused, st)
            else if \<not> privileged \<and> fi_server s \<noteq> replier then (Refused, st)
            else if fi_generation s \<noteq> fast_handle_generation h then (StaleHandle, st)
            else (Woke (fi_caller s) idx,
                  st\<lparr>fi_slots := (fi_slots st)[idx := s\<lparr>fi_words := words, fi_state := Replied\<rparr>]\<rparr>))"

definition fast_ipc_collect :: "u32 \<Rightarrow> FastIpcState \<Rightarrow> u64 list option \<times> FastIpcState" where
  "fast_ipc_collect caller st =
     (case find_reply_for_caller st caller of
        None \<Rightarrow> (None, st)
      | Some idx \<Rightarrow> (Some (fi_words (fi_slots st ! idx)), fast_free_slot st idx))"

datatype FastIpcWait = Gone | Waiting | Ready_reply

definition fast_ipc_wait_state :: "u64 \<Rightarrow> u32 \<Rightarrow> FastIpcState \<Rightarrow> FastIpcWait" where
  "fast_ipc_wait_state h caller st =
     (case fast_ipc_handle_slot h of
        None \<Rightarrow> Gone
      | Some idx \<Rightarrow>
          if idx \<ge> length (fi_slots st) then Gone
          else let s = fi_slots st ! idx in
            if fi_state s = Free \<or> fi_caller s \<noteq> caller then Gone
            else if fi_generation s \<noteq> fast_handle_generation h then Gone
            else case fi_state s of Replied \<Rightarrow> Ready_reply | Pending \<Rightarrow> Waiting | Accepted \<Rightarrow> Waiting | Free \<Rightarrow> Gone)"

text \<open>
  One slot of the sweep at the exit of a task: the state, the handles of the clients that lost their
  server, and the number of slots freed.
\<close>

definition release_slot :: "u32 \<Rightarrow> nat \<Rightarrow> FastIpcState \<times> u64 list \<times> nat \<Rightarrow> FastIpcState \<times> u64 list \<times> nat" where
  "release_slot tid idx acc =
     (case acc of (st, orphaned, freed) \<Rightarrow>
        (if idx \<ge> length (fi_slots st) then (st, orphaned, freed)
         else let s = fi_slots st ! idx; is_caller = (fi_caller s = tid); is_server = (fi_server s = tid) in
           if fi_state s = Free \<or> \<not> (is_caller \<or> is_server) then (st, orphaned, freed)
           else if is_server \<and> \<not> is_caller \<and> fi_state s = Replied then (st, orphaned, freed)
           else (fast_free_slot st idx,
                 if is_server \<and> \<not> is_caller \<and> length orphaned < FAST_IPC_MAX_SLOTS
                 then orphaned @ [fast_ipc_make_handle idx (fi_generation s)] else orphaned,
                 freed + 1)))"

definition fast_ipc_release_all :: "u32 \<Rightarrow> FastIpcState \<Rightarrow> FastIpcState \<times> u64 list \<times> nat" where
  "fast_ipc_release_all tid st = fold (release_slot tid) [0..<FAST_IPC_MAX_SLOTS] (st, [], 0)"

definition fast_ipc_census :: "FastIpcState \<Rightarrow> nat \<times> nat \<times> nat \<times> u32" where
  "fast_ipc_census st =
     (length (filter (\<lambda>s. fi_state s = Pending) (fi_slots st)), length (filter (\<lambda>s. fi_state s = Accepted) (fi_slots st)),
      length (filter (\<lambda>s. fi_state s = Replied) (fi_slots st)), fi_used st)"

section \<open>Handles name one tenancy of one slot\<close>

lemma slot_mask: "FAST_IPC_SLOT_MASK = mask 6"
  by (simp add: FAST_IPC_SLOT_MASK_def FAST_IPC_SLOT_BITS_def mask_eq_exp_minus_1)

lemma gen_mask: "FAST_IPC_GEN_MASK = mask 57"
  by (simp add: FAST_IPC_GEN_MASK_def FAST_IPC_SLOT_BITS_def mask_eq_exp_minus_1)

lemma bit_make_handle:
  "bit (fast_ipc_make_handle i g) n \<longleftrightarrow> (if n < 6 then bit (word_of_nat i :: u64) n else n < 63 \<and> bit g (n - 6))"
  by (auto simp: fast_ipc_make_handle_def slot_mask gen_mask FAST_IPC_SLOT_BITS_def bit_simps)

lemma handle_generation_make [simp]: "fast_handle_generation (fast_ipc_make_handle i g) = g AND FAST_IPC_GEN_MASK"
  by (rule bit_word_eqI) (auto simp: fast_handle_generation_def bit_make_handle gen_mask FAST_IPC_SLOT_BITS_def bit_simps)

lemma handle_index_make: "i < 64 \<Longrightarrow> unat (fast_ipc_make_handle i g AND FAST_IPC_SLOT_MASK) = i"
proof -
  assume i: "i < 64"
  have "fast_ipc_make_handle i g AND FAST_IPC_SLOT_MASK = word_of_nat i AND mask 6"
    by (rule bit_word_eqI) (auto simp: bit_make_handle slot_mask bit_simps)
  moreover have "unat (word_of_nat i AND mask 6 :: u64) = i"
    using i by (simp flip: take_bit_eq_mask add: unsigned_take_bit_eq unat_of_nat take_bit_nat_eq_self)
  ultimately show ?thesis
    by simp
qed

lemma make_handle_positive: "\<not> fast_ipc_make_handle i g > 0x7FFFFFFFFFFFFFFF"
proof -
  have "take_bit 63 (fast_ipc_make_handle i g) = fast_ipc_make_handle i g"
    by (rule bit_word_eqI) (auto simp: bit_simps bit_make_handle)
  then have "unat (fast_ipc_make_handle i g) < 2 ^ 63"
    by (metis unsigned_take_bit_eq take_bit_nat_less_exp)
  then show ?thesis
    by (simp add: word_less_nat_alt)
qed

lemma handle_slot_make [simp]: "i < 64 \<Longrightarrow> fast_ipc_handle_slot (fast_ipc_make_handle i g) = Some i"
  using make_handle_positive [of i g]
  by (simp add: fast_ipc_handle_slot_def handle_index_make FAST_IPC_MAX_SLOTS_def)

lemma handle_slot_bound: "fast_ipc_handle_slot h = Some i \<Longrightarrow> i < 64"
  by (auto simp: fast_ipc_handle_slot_def FAST_IPC_MAX_SLOTS_def Let_def split: if_splits)

lemma make_handle_inject:
  "i < 64 \<Longrightarrow> j < 64 \<Longrightarrow> fast_ipc_make_handle i g = fast_ipc_make_handle j g' \<longleftrightarrow> i = j \<and> g AND FAST_IPC_GEN_MASK = g' AND FAST_IPC_GEN_MASK"
proof
  assume "i < 64" "j < 64" and e: "fast_ipc_make_handle i g = fast_ipc_make_handle j g'"
  then show "i = j \<and> g AND FAST_IPC_GEN_MASK = g' AND FAST_IPC_GEN_MASK"
    using handle_slot_make [of i g] handle_slot_make [of j g'] handle_generation_make [of i g] handle_generation_make [of j g']
    by simp
qed (simp add: fast_ipc_make_handle_def)

lemma make_handle_of:
  assumes "fast_ipc_handle_slot h = Some i"
  shows "fast_ipc_make_handle i (fast_handle_generation h) = h"
proof -
  have h: "\<not> h > 0x7FFFFFFFFFFFFFFF" "unat (h AND FAST_IPC_SLOT_MASK) = i"
    using assms by (auto simp: fast_ipc_handle_slot_def Let_def split: if_splits)
  have "unat h < 2 ^ 63"
    using h(1) by (simp add: word_less_nat_alt)
  then have "take_bit 63 h = h"
    by (simp add: word_unat_eq_iff unsigned_take_bit_eq take_bit_nat_eq_self)
  then have top: "n < 63" if "bit h n" for n
    using that by (metis bit_take_bit_iff)
  have low: "(word_of_nat i :: u64) = h AND FAST_IPC_SLOT_MASK"
    unfolding h(2) [symmetric] by simp
  show ?thesis
    by (rule bit_word_eqI)
      (auto simp: bit_make_handle low fast_handle_generation_def slot_mask gen_mask FAST_IPC_SLOT_BITS_def bit_simps dest: top)
qed

section \<open>Well-formed tables\<close>

definition occupied :: "FastIpcSlot \<Rightarrow> bool" where
  "occupied s \<longleftrightarrow> fi_state s \<noteq> Free"

definition fast_ipc_inv :: "FastIpcState \<Rightarrow> bool" where
  "fast_ipc_inv st \<longleftrightarrow> length (fi_slots st) = FAST_IPC_MAX_SLOTS \<and> unat (fi_used st) = in_use occupied (fi_slots st)
     \<and> (\<forall>s\<in>set (fi_slots st). fi_generation s AND FAST_IPC_GEN_MASK = fi_generation s)"

definition fast_handle :: "FastIpcState \<Rightarrow> nat \<Rightarrow> u64" where
  "fast_handle st i = fast_ipc_make_handle i (fi_generation (fi_slots st ! i))"

lemma fast_ipc_invD:
  assumes "fast_ipc_inv st"
  shows "length (fi_slots st) = 64" "unat (fi_used st) = in_use occupied (fi_slots st)"
    "i < 64 \<Longrightarrow> fi_generation (fi_slots st ! i) AND FAST_IPC_GEN_MASK = fi_generation (fi_slots st ! i)"
  using assms by (auto simp: fast_ipc_inv_def FAST_IPC_MAX_SLOTS_def)

lemma fast_ipc_inv_new [simp]: "fast_ipc_inv fast_ipc_new"
  by (simp add: fast_ipc_inv_def fast_ipc_new_def in_use_def occupied_def fast_slot_empty_def FAST_IPC_MAX_SLOTS_def)

lemma fast_used_bound: "fast_ipc_inv st \<Longrightarrow> unat (fi_used st) \<le> 64"
  using in_use_le [of occupied "fi_slots st"] by (simp add: fast_ipc_invD)

lemma fast_used_zero: "fast_ipc_inv st \<Longrightarrow> fi_used st = 0 \<longleftrightarrow> (\<forall>i<64. fi_state (fi_slots st ! i) = Free)"
proof -
  assume inv: "fast_ipc_inv st"
  have "fi_used st = 0 \<longleftrightarrow> in_use occupied (fi_slots st) = 0"
    using fast_ipc_invD(2) [OF inv] by (metis unat_eq_zero)
  also have "\<dots> \<longleftrightarrow> (\<forall>s\<in>set (fi_slots st). fi_state s = Free)"
    by (simp add: in_use_def filter_empty_conv occupied_def)
  finally show ?thesis
    using fast_ipc_invD(1) [OF inv] by (simp add: all_set_conv_all_nth)
qed

text \<open>The short cut over an empty table is only that: a short cut.\<close>

lemma find_pending_scan:
  "fast_ipc_inv st \<Longrightarrow> find_pending_for_server st server = first_idx (\<lambda>s. fi_state s = Pending \<and> fi_server s = server) (fi_slots st)"
  using fast_used_zero [of st] fast_ipc_invD(1) [of st]
  by (auto simp: find_pending_for_server_def all_set_conv_all_nth first_idx_None_iff [THEN iffD2])

lemma find_reply_scan:
  "fast_ipc_inv st \<Longrightarrow> find_reply_for_caller st caller = first_idx (\<lambda>s. fi_state s = Replied \<and> fi_caller s = caller) (fi_slots st)"
  using fast_used_zero [of st] fast_ipc_invD(1) [of st]
  by (auto simp: find_reply_for_caller_def all_set_conv_all_nth first_idx_None_iff [THEN iffD2])

lemma fast_inv_update:
  assumes "fast_ipc_inv st" "i < 64" "occupied s = occupied (fi_slots st ! i)" "fi_generation s AND FAST_IPC_GEN_MASK = fi_generation s"
  shows "fast_ipc_inv (st\<lparr>fi_slots := (fi_slots st)[i := s]\<rparr>)"
  using assms in_use_update [of i "fi_slots st" occupied s] set_update_subset_insert [of "fi_slots st" i s]
  by (auto simp: fast_ipc_inv_def FAST_IPC_MAX_SLOTS_def split: if_splits)

section \<open>What each operation does\<close>

lemma fast_alloc_effect:
  assumes "fast_ipc_inv st" "fast_alloc_slot st caller server words = Some (i, st')"
  shows "i < 64" "fi_state (fi_slots st ! i) = Free" "fast_ipc_inv st'"
    "fi_slots st' = (fi_slots st)[i := \<lparr>fi_caller = caller, fi_server = server, fi_words = words, fi_state = Pending,
       fi_generation = fi_generation (fi_slots st ! i)\<rparr>]"
proof -
  let ?s = "\<lparr>fi_caller = caller, fi_server = server, fi_words = words, fi_state = Pending,
       fi_generation = fi_generation (fi_slots st ! i)\<rparr>"
  have a: "first_idx (\<lambda>s. fi_state s = Free) (fi_slots st) = Some i" "st' = st\<lparr>fi_slots := (fi_slots st)[i := ?s], fi_used := fi_used st + 1\<rparr>"
    using assms(2) by (auto simp: fast_alloc_slot_def split: option.splits)
  note f = first_idx_SomeD [OF a(1)] and v = fast_ipc_invD [OF assms(1)]
  show "i < 64" "fi_state (fi_slots st ! i) = Free" "fi_slots st' = (fi_slots st)[i := ?s]"
    using f(1,2) a(2) v(1) by simp_all
  have "in_use occupied ((fi_slots st)[i := ?s]) = Suc (in_use occupied (fi_slots st))"
    using in_use_update [OF f(1), of occupied ?s] f(2) by (simp add: occupied_def)
  moreover have "unat (fi_used st + 1) = Suc (unat (fi_used st))"
    using fast_used_bound [OF assms(1)] by (simp add: unat_word_ariths)
  ultimately show "fast_ipc_inv st'"
    using assms(1) f(1) v(3) [of i] v(1) set_update_subset_insert [of "fi_slots st" i ?s]
    by (auto simp: fast_ipc_inv_def a(2))
qed

lemma fast_free_effect:
  assumes "fast_ipc_inv st" "i < 64" "fi_state (fi_slots st ! i) \<noteq> Free"
  shows "fast_ipc_inv (fast_free_slot st i)"
    "fi_slots (fast_free_slot st i) = (fi_slots st)[i := fast_slot_empty\<lparr>fi_generation := (fi_generation (fi_slots st ! i) + 1) AND FAST_IPC_GEN_MASK\<rparr>]"
proof -
  let ?s = "fast_slot_empty\<lparr>fi_generation := (fi_generation (fi_slots st ! i) + 1) AND FAST_IPC_GEN_MASK\<rparr>"
  note v = fast_ipc_invD [OF assms(1)]
  have i: "i < length (fi_slots st)"
    using assms(2) v(1) by simp
  have e: "fast_free_slot st i = st\<lparr>fi_slots := (fi_slots st)[i := ?s], fi_used := saturating_sub (fi_used st) 1\<rparr>"
    using i by (simp add: fast_free_slot_def)
  then show "fi_slots (fast_free_slot st i) = (fi_slots st)[i := ?s]"
    by simp
  have "Suc (in_use occupied ((fi_slots st)[i := ?s])) = in_use occupied (fi_slots st)"
    using in_use_update [OF i, of occupied ?s] assms(3) by (simp add: occupied_def fast_slot_empty_def)
  then have "unat (saturating_sub (fi_used st) 1) = in_use occupied ((fi_slots st)[i := ?s])"
    using v(2) by (simp add: unat_saturating_sub)
  then show "fast_ipc_inv (fast_free_slot st i)"
    using assms(1) i set_update_subset_insert [of "fi_slots st" i ?s] unfolding e by (auto simp: fast_ipc_inv_def)
qed

lemma fast_call_effect:
  assumes "fast_ipc_inv st" "fast_ipc_call ex caller server words st = (Some h, st')"
  obtains i where "i < 64" "fi_state (fi_slots st ! i) = Free" "fast_ipc_inv st'" "h = fast_handle st i" "caller \<noteq> server" "ex server"
    "fi_slots st' = (fi_slots st)[i := \<lparr>fi_caller = caller, fi_server = server, fi_words = words, fi_state = Pending,
       fi_generation = fi_generation (fi_slots st ! i)\<rparr>]"
proof -
  obtain i where a: "fast_alloc_slot st caller server words = Some (i, st')" "h = fast_ipc_make_handle i (fi_generation (fi_slots st' ! i))"
      "caller \<noteq> server" "ex server"
    using assms(2) by (auto simp: fast_ipc_call_def split: if_splits option.splits)
  note e = fast_alloc_effect [OF assms(1) a(1)]
  show ?thesis
    using that [OF e(1-3)] e a fast_ipc_invD(1) [OF assms(1)] by (simp add: fast_handle_def)
qed

lemma fast_call_none: "fast_ipc_call ex caller server words st = (None, st') \<Longrightarrow> st' = st"
  by (auto simp: fast_ipc_call_def split: if_splits option.splits)

lemma fast_accept_effect:
  assumes "fast_ipc_inv st" "fast_ipc_accept server st = (Some (h, caller, words), st')"
  obtains i where "i < 64" "h = fast_handle st i" "fi_state (fi_slots st ! i) = Pending" "fi_server (fi_slots st ! i) = server"
    "fi_caller (fi_slots st ! i) = caller" "fi_words (fi_slots st ! i) = words" "fast_ipc_inv st'"
    "fi_slots st' = (fi_slots st)[i := (fi_slots st ! i)\<lparr>fi_state := Accepted\<rparr>]"
proof -
  obtain i where a: "find_pending_for_server st server = Some i" "h = fast_handle st i" "caller = fi_caller (fi_slots st ! i)" "words = fi_words (fi_slots st ! i)"
      "st' = st\<lparr>fi_slots := (fi_slots st)[i := (fi_slots st ! i)\<lparr>fi_state := Accepted\<rparr>]\<rparr>"
    using assms(2) by (auto simp: fast_ipc_accept_def fast_handle_def Let_def split: option.splits)
  note f = first_idx_SomeD [OF a(1) [unfolded find_pending_scan [OF assms(1)]]] and v = fast_ipc_invD [OF assms(1)]
  have "fast_ipc_inv st'"
    unfolding a(5) using f(1,2) v(1) v(3) [of i] by (intro fast_inv_update assms(1)) (simp_all add: occupied_def)
  then show ?thesis
    using that [of i] f(1,2) a v(1) by simp
qed

lemma fast_accept_none: "fast_ipc_accept server st = (None, st') \<Longrightarrow> st' = st"
  by (auto simp: fast_ipc_accept_def Let_def split: option.splits)

lemma fast_reply_effect:
  assumes "fast_ipc_inv st" "fast_ipc_reply h replier privileged words st = (Woke caller i, st')"
  shows "i < 64" "h = fast_handle st i" "fi_state (fi_slots st ! i) = Accepted" "privileged \<or> fi_server (fi_slots st ! i) = replier"
    "caller = fi_caller (fi_slots st ! i)" "fast_ipc_inv st'"
    "fi_slots st' = (fi_slots st)[i := (fi_slots st ! i)\<lparr>fi_words := words, fi_state := Replied\<rparr>]"
proof -
  have a: "fast_ipc_handle_slot h = Some i" "fi_state (fi_slots st ! i) = Accepted" "privileged \<or> fi_server (fi_slots st ! i) = replier"
      "caller = fi_caller (fi_slots st ! i)" "fi_generation (fi_slots st ! i) = fast_handle_generation h"
      "st' = st\<lparr>fi_slots := (fi_slots st)[i := (fi_slots st ! i)\<lparr>fi_words := words, fi_state := Replied\<rparr>]\<rparr>"
    using assms(2) by (auto simp: fast_ipc_reply_def Let_def split: option.splits if_splits)
  show i: "i < 64"
    by (rule handle_slot_bound [OF a(1)])
  show "h = fast_handle st i"
    using make_handle_of [OF a(1)] a(5) by (simp add: fast_handle_def)
  show "fi_state (fi_slots st ! i) = Accepted" "privileged \<or> fi_server (fi_slots st ! i) = replier" "caller = fi_caller (fi_slots st ! i)"
    "fi_slots st' = (fi_slots st)[i := (fi_slots st ! i)\<lparr>fi_words := words, fi_state := Replied\<rparr>]"
    using a by simp_all
  show "fast_ipc_inv st'"
    unfolding a(6) using i a(2) fast_ipc_invD(3) [OF assms(1) i] by (intro fast_inv_update assms(1)) (simp_all add: occupied_def)
qed

lemma fast_reply_refused:
  "fast_ipc_reply h replier privileged words st = (r, st') \<Longrightarrow> r = StaleHandle \<or> r = Refused \<Longrightarrow> st' = st"
  by (auto simp: fast_ipc_reply_def Let_def split: option.splits if_splits)

lemma fast_collect_effect:
  assumes "fast_ipc_inv st" "fast_ipc_collect caller st = (Some words, st')"
  obtains i where "i < 64" "fi_state (fi_slots st ! i) = Replied" "fi_caller (fi_slots st ! i) = caller" "fi_words (fi_slots st ! i) = words"
    "fast_ipc_inv st'"
    "fi_slots st' = (fi_slots st)[i := fast_slot_empty\<lparr>fi_generation := (fi_generation (fi_slots st ! i) + 1) AND FAST_IPC_GEN_MASK\<rparr>]"
proof -
  obtain i where a: "find_reply_for_caller st caller = Some i" "words = fi_words (fi_slots st ! i)" "st' = fast_free_slot st i"
    using assms(2) by (auto simp: fast_ipc_collect_def split: option.splits)
  note f = first_idx_SomeD [OF a(1) [unfolded find_reply_scan [OF assms(1)]]]
  have i: "i < 64" "fi_state (fi_slots st ! i) \<noteq> Free"
    using f(1,2) fast_ipc_invD(1) [OF assms(1)] by simp_all
  show ?thesis
    using that [OF i(1)] f(2) a fast_free_effect [OF assms(1) i] by simp
qed

lemma fast_collect_none:
  assumes "fast_ipc_inv st" "fast_ipc_collect caller st = (None, st')"
  shows "st' = st" "i < 64 \<Longrightarrow> fi_state (fi_slots st ! i) = Replied \<Longrightarrow> fi_caller (fi_slots st ! i) \<noteq> caller"
  using assms(2) fast_ipc_invD(1) [OF assms(1)]
  by (auto simp: fast_ipc_collect_def find_reply_scan [OF assms(1)] first_idx_None_iff all_set_conv_all_nth split: option.splits)

lemma fast_wait_gone:
  assumes "fast_ipc_inv st" "i < 64" "fi_state (fi_slots st ! i) \<noteq> Free" "fi_caller (fi_slots st ! i) = caller" "h = fast_handle st i"
  shows "fast_ipc_wait_state h caller st \<noteq> Gone"
  using assms fast_ipc_invD [OF assms(1)]
  by (cases "fi_state (fi_slots st ! i)") (simp_all add: fast_ipc_wait_state_def fast_handle_def)

section \<open>The exit of a task\<close>

text \<open>What becomes of a slot, and which handles are reported.\<close>

definition exit_frees :: "u32 \<Rightarrow> FastIpcSlot \<Rightarrow> bool" where
  "exit_frees tid s \<longleftrightarrow> fi_state s \<noteq> Free \<and> (fi_caller s = tid \<or> fi_server s = tid \<and> fi_state s \<noteq> Replied)"

definition exit_orphans :: "u32 \<Rightarrow> FastIpcSlot \<Rightarrow> bool" where
  "exit_orphans tid s \<longleftrightarrow> exit_frees tid s \<and> fi_caller s \<noteq> tid"

definition freed :: "FastIpcSlot \<Rightarrow> FastIpcSlot" where
  "freed s = fast_slot_empty\<lparr>fi_generation := (fi_generation s + 1) AND FAST_IPC_GEN_MASK\<rparr>"

lemma release_prefix:
  assumes "fast_ipc_inv st" "n \<le> 64" "fold (release_slot tid) [0..<n] (st, [], 0) = (st', orphans, k)"
  shows "fast_ipc_inv st' \<and> (\<forall>i<64. fi_slots st' ! i = (if i < n \<and> exit_frees tid (fi_slots st ! i) then freed (fi_slots st ! i) else fi_slots st ! i))
    \<and> orphans = map (fast_handle st) (filter (\<lambda>i. exit_orphans tid (fi_slots st ! i)) [0..<n])"
  using assms(2,3)
proof (induction n arbitrary: st' orphans k)
  case 0
  then show ?case
    using assms(1) by simp
next
  case (Suc n)
  obtain st1 o1 k1 where f: "fold (release_slot tid) [0..<n] (st, [], 0) = (st1, o1, k1)"
    by (metis prod_cases3)
  have ih: "fast_ipc_inv st1" "\<And>i. i < 64 \<Longrightarrow> fi_slots st1 ! i = (if i < n \<and> exit_frees tid (fi_slots st ! i) then freed (fi_slots st ! i) else fi_slots st ! i)"
      "o1 = map (fast_handle st) (filter (\<lambda>i. exit_orphans tid (fi_slots st ! i)) [0..<n])"
    using Suc.IH [OF _ f] Suc.prems(1) by simp_all
  have n: "n < 64" "length (fi_slots st1) = 64" "fi_slots st1 ! n = fi_slots st ! n"
    using Suc.prems(1) fast_ipc_invD(1) [OF ih(1)] ih(2) [of n] by simp_all
  have "length o1 \<le> length [0..<n]"
    unfolding ih(3) length_map by (rule length_filter_le)
  then have room: "length o1 < FAST_IPC_MAX_SLOTS"
    using n(1) by (simp add: FAST_IPC_MAX_SLOTS_def)
  have r: "release_slot tid n (st1, o1, k1) = (st', orphans, k)"
    using Suc.prems(2) f by simp
  show ?case
  proof (cases "exit_frees tid (fi_slots st ! n)")
    case False
    then have e: "st' = st1" "orphans = o1"
      using r n by (auto simp: release_slot_def exit_frees_def Let_def split: if_splits)
    have "(if i < Suc n \<and> exit_frees tid (fi_slots st ! i) then freed (fi_slots st ! i) else fi_slots st ! i)
        = (if i < n \<and> exit_frees tid (fi_slots st ! i) then freed (fi_slots st ! i) else fi_slots st ! i)" for i
      using False by (cases "i = n") auto
    then show ?thesis
      using ih False by (simp add: e exit_orphans_def)
  next
    case True
    have fr: "fi_state (fi_slots st1 ! n) \<noteq> Free"
      using True n(3) by (simp add: exit_frees_def)
    note ff = fast_free_effect [OF ih(1) n(1) fr]
    have e: "st' = fast_free_slot st1 n" "orphans = (if fi_caller (fi_slots st ! n) \<noteq> tid then o1 @ [fast_handle st n] else o1)"
      using r n True room by (auto simp: release_slot_def exit_frees_def Let_def fast_handle_def)
    have s: "fi_slots st' = (fi_slots st1)[n := freed (fi_slots st ! n)]"
      using ff(2) n(3) by (simp add: e(1) freed_def)
    have "fi_slots st' ! i = (if i < Suc n \<and> exit_frees tid (fi_slots st ! i) then freed (fi_slots st ! i) else fi_slots st ! i)" if "i < 64" for i
      using ih(2) [OF that] True n(2) that unfolding s by (cases "i = n") auto
    then show ?thesis
      using ff(1) True ih(3) by (simp add: e exit_orphans_def)
  qed
qed

lemma release_all_effect:
  assumes "fast_ipc_inv st" "fast_ipc_release_all tid st = (st', orphans, k)"
  shows "fast_ipc_inv st'"
    "i < 64 \<Longrightarrow> fi_slots st' ! i = (if exit_frees tid (fi_slots st ! i) then freed (fi_slots st ! i) else fi_slots st ! i)"
    "orphans = map (fast_handle st) (filter (\<lambda>i. exit_orphans tid (fi_slots st ! i)) [0..<64])"
  using release_prefix [OF assms(1), of 64 tid st' orphans k] assms(2)
  by (simp_all add: fast_ipc_release_all_def FAST_IPC_MAX_SLOTS_def del: upt_Suc)

end
