(* ===== verification/Fast_Call.thy ===== *)
theory Fast_Call
  imports Fast_Ipc Sched_Wake "HOL-Library.Sublist"
begin

text \<open>
  The system calls of the fast IPC (the arms \<open>SYS_IPC_FAST_CALL\<close>, \<open>SYS_IPC_FAST_ACCEPT\<close> and
  \<open>SYS_IPC_FAST_REPLY\<close> of \<open>crates/syscall/src/dispatch.rs\<close>) and the sweep at the exit of a task, over the
  slot table and the state words of the tasks.

  A system call that blocks is cut where other harts can come in between: claiming the
  slot, blocking, looking for the reply, asking for the state of the exchange.  The wakes a call
  sends are in flight (\<open>fs_flights\<close>) until they are delivered, in any order and as late as they may
  be: the hart that sends a wake delivers it before it goes on, so this allows more interleavings than the
  code has; the runs shown deliver each wake at once.  A task is its state word, its
  wait reason and how far it is in its system call; queues and contexts are the subject of the
  dispatcher.  The log records what the system calls hand to the tasks.
\<close>

section \<open>Tasks and wakes\<close>

datatype phase =
    Idle | CallBlocking u64 nat | CallWaiting u64 nat | CallProbing u64 nat | AcceptBlocking nat | AcceptWaiting nat

record ftask =
  ft_word :: u32
  ft_reason :: WaitReason
  ft_phase :: phase
  ft_kernel :: bool

datatype flight = ToTid u32 wake | Sweep wake

datatype fevent =
    Called u32 u32 u64 "u64 list" | Taken u32 u64 u32 "u64 list" | Answered u32 bool u64 "u64 list"
  | Delivered u32 u64 "u64 list" | Failed u32 u64 | GaveUp u32 u64

record fsys =
  fs_ipc :: FastIpcState
  fs_tasks :: "u32 \<Rightarrow> ftask option"
  fs_flights :: "flight list"
  fs_log :: "fevent list"

definition wake_ftask :: "wake \<Rightarrow> ftask \<Rightarrow> ftask" where
  "wake_ftask w t =
     (let (wt, wd) = wake_transition (ft_word t) (wake_pred w (ft_reason t)) (wake_stamps w) True
      in if wt = Dispatched then t\<lparr>ft_word := wd, ft_reason := NoWait\<rparr> else t\<lparr>ft_word := wd\<rparr>)"

definition block_ftask :: "WaitReason \<Rightarrow> ftask \<Rightarrow> ftask" where
  "block_ftask reason t = t\<lparr>ft_word := snd (commit_blocked_or_consume_wake (ft_word t)), ft_reason := reason\<rparr>"

fun land_wake :: "flight \<Rightarrow> (u32 \<Rightarrow> ftask option) \<Rightarrow> u32 \<Rightarrow> ftask option" where
  "land_wake (ToTid tid w) tasks = tasks(tid := map_option (wake_ftask w) (tasks tid))"
| "land_wake (Sweep w) tasks = (\<lambda>tid. map_option (wake_ftask w) (tasks tid))"

section \<open>The system calls\<close>

definition MAX_SPURIOUS_WAKES :: nat where "MAX_SPURIOUS_WAKES = 8"

definition put_phase :: "u32 \<Rightarrow> ftask \<Rightarrow> phase \<Rightarrow> fsys \<Rightarrow> fsys" where
  "put_phase tid t ph sys = sys\<lparr>fs_tasks := (fs_tasks sys)(tid \<mapsto> t\<lparr>ft_phase := ph\<rparr>)\<rparr>"

definition log_event :: "fevent \<Rightarrow> fsys \<Rightarrow> fsys" where
  "log_event e sys = sys\<lparr>fs_log := fs_log sys @ [e]\<rparr>"

definition sys_fast_call :: "u32 \<Rightarrow> ftask \<Rightarrow> u32 \<Rightarrow> u64 list \<Rightarrow> fsys \<Rightarrow> fsys" where
  "sys_fast_call caller t server words sys =
     (case fast_ipc_call (\<lambda>tid. fs_tasks sys tid \<noteq> None) caller server words (fs_ipc sys) of
        (None, ipc) \<Rightarrow> sys\<lparr>fs_ipc := ipc\<rparr>
      | (Some h, ipc) \<Rightarrow>
          log_event (Called caller server h words)
            (put_phase caller t (CallBlocking h 0)
              (sys\<lparr>fs_ipc := ipc, fs_flights := fs_flights sys @ [ToTid server (fast_ipc_server server)]\<rparr>)))"

definition fast_call_collect :: "u32 \<Rightarrow> ftask \<Rightarrow> u64 \<Rightarrow> nat \<Rightarrow> fsys \<Rightarrow> fsys" where
  "fast_call_collect caller t h turn sys =
     (case fast_ipc_collect caller (fs_ipc sys) of
        (Some reply, ipc) \<Rightarrow> log_event (Delivered caller h reply) (put_phase caller t Idle (sys\<lparr>fs_ipc := ipc\<rparr>))
      | (None, ipc) \<Rightarrow> put_phase caller t (CallProbing h turn) (sys\<lparr>fs_ipc := ipc\<rparr>))"

definition fast_call_probe :: "u32 \<Rightarrow> ftask \<Rightarrow> u64 \<Rightarrow> nat \<Rightarrow> fsys \<Rightarrow> fsys" where
  "fast_call_probe caller t h turn sys =
     (case fast_ipc_wait_state h caller (fs_ipc sys) of
        Gone \<Rightarrow> log_event (Failed caller h) (put_phase caller t Idle sys)
      | _ \<Rightarrow> if turn + 1 < MAX_SPURIOUS_WAKES then put_phase caller t (CallBlocking h (turn + 1)) sys
             else log_event (GaveUp caller h) (put_phase caller t Idle sys))"

definition fast_accept_try :: "u32 \<Rightarrow> ftask \<Rightarrow> phase \<Rightarrow> fsys \<Rightarrow> fsys" where
  "fast_accept_try server t otherwise sys =
     (case fast_ipc_accept server (fs_ipc sys) of
        (Some (h, caller, words), ipc) \<Rightarrow> log_event (Taken server h caller words) (put_phase server t Idle (sys\<lparr>fs_ipc := ipc\<rparr>))
      | (None, ipc) \<Rightarrow> put_phase server t otherwise (sys\<lparr>fs_ipc := ipc\<rparr>))"

definition sys_fast_accept :: "u32 \<Rightarrow> ftask \<Rightarrow> fsys \<Rightarrow> fsys" where
  "sys_fast_accept server t sys = fast_accept_try server t (AcceptBlocking 0) sys"

definition fast_accept_again :: "u32 \<Rightarrow> ftask \<Rightarrow> nat \<Rightarrow> fsys \<Rightarrow> fsys" where
  "fast_accept_again server t turn sys =
     fast_accept_try server t (if turn + 1 < MAX_SPURIOUS_WAKES then AcceptBlocking (turn + 1) else Idle) sys"

definition sys_fast_reply :: "u32 \<Rightarrow> ftask \<Rightarrow> u64 \<Rightarrow> u64 list \<Rightarrow> fsys \<Rightarrow> fsys" where
  "sys_fast_reply replier t h words sys =
     (case fast_ipc_reply h replier (ft_kernel t) words (fs_ipc sys) of
        (Woke caller _, ipc) \<Rightarrow>
          log_event (Answered replier (ft_kernel t) h words)
            (sys\<lparr>fs_ipc := ipc, fs_flights := fs_flights sys @ [ToTid caller (fast_ipc_client_tid h)]\<rparr>)
      | (_, ipc) \<Rightarrow> sys\<lparr>fs_ipc := ipc\<rparr>)"

definition fast_exit :: "u32 \<Rightarrow> fsys \<Rightarrow> fsys" where
  "fast_exit tid sys =
     (let (ipc, orphaned, _) = fast_ipc_release_all tid (fs_ipc sys)
      in sys\<lparr>fs_ipc := ipc, fs_tasks := (fs_tasks sys)(tid := None),
             fs_flights := fs_flights sys @ map (\<lambda>h. Sweep (fast_ipc_client h)) orphaned\<rparr>)"

section \<open>Interleavings\<close>

datatype fop =
    Spawn u32 bool | Preempt u32 | Dispatch u32 | FastCall u32 u32 "u64 list" | TaskBlock u32 | Collect u32 | Probe u32
  | FastAccept u32 | AcceptAgain u32 | FastReply u32 u64 "u64 list" | TaskExit u32 | LandWake nat | StrayWake u32 wake

definition running :: "ftask \<Rightarrow> bool" where
  "running t \<longleftrightarrow> state_of (ft_word t) = Running"

text \<open>Every system call is made by a running task; a stray wake is one some other subsystem sends to a task.\<close>

fun client_wake :: "wake \<Rightarrow> bool" where
  "client_wake (fast_ipc_client_tid _) = True"
| "client_wake (fast_ipc_client _) = True"
| "client_wake _ = False"

fun task_step :: "fop \<Rightarrow> u32 \<Rightarrow> ftask \<Rightarrow> fsys \<Rightarrow> fsys option" where
  "task_step (FastCall _ server words) tid t sys = (if ft_phase t = Idle then Some (sys_fast_call tid t server words sys) else None)"
| "task_step (TaskBlock _) tid t sys =
     (case ft_phase t of
        CallBlocking h n \<Rightarrow> Some (put_phase tid (block_ftask (FastIpcClient h) t) (CallWaiting h n) sys)
      | AcceptBlocking n \<Rightarrow> Some (put_phase tid (block_ftask (FastIpcServer tid) t) (AcceptWaiting n) sys)
      | _ \<Rightarrow> None)"
| "task_step (Collect _) tid t sys = (case ft_phase t of CallWaiting h n \<Rightarrow> Some (fast_call_collect tid t h n sys) | _ \<Rightarrow> None)"
| "task_step (Probe _) tid t sys = (case ft_phase t of CallProbing h n \<Rightarrow> Some (fast_call_probe tid t h n sys) | _ \<Rightarrow> None)"
| "task_step (FastAccept _) tid t sys = (if ft_phase t = Idle then Some (sys_fast_accept tid t sys) else None)"
| "task_step (AcceptAgain _) tid t sys = (case ft_phase t of AcceptWaiting n \<Rightarrow> Some (fast_accept_again tid t n sys) | _ \<Rightarrow> None)"
| "task_step (FastReply _ h words) tid t sys = (if ft_phase t = Idle then Some (sys_fast_reply tid t h words sys) else None)"
| "task_step (TaskExit _) tid t sys = Some (fast_exit tid sys)"
| "task_step (Preempt _) tid t sys = Some (sys\<lparr>fs_tasks := (fs_tasks sys)(tid \<mapsto> t\<lparr>ft_word := set_state (ft_word t) Ready\<rparr>)\<rparr>)"
| "task_step _ tid t sys = None"

fun actor :: "fop \<Rightarrow> u32 option" where
  "actor (FastCall c _ _) = Some c"
| "actor (TaskBlock c) = Some c"
| "actor (Collect c) = Some c"
| "actor (Probe c) = Some c"
| "actor (FastAccept c) = Some c"
| "actor (AcceptAgain c) = Some c"
| "actor (FastReply c _ _) = Some c"
| "actor (TaskExit c) = Some c"
| "actor (Preempt c) = Some c"
| "actor _ = None"

definition fstep :: "fop \<Rightarrow> fsys \<Rightarrow> fsys option" where
  "fstep x sys =
     (case actor x of
        Some tid \<Rightarrow> (case fs_tasks sys tid of None \<Rightarrow> None | Some t \<Rightarrow> if running t then task_step x tid t sys else None)
      | None \<Rightarrow>
          (case x of
             Spawn tid k \<Rightarrow>
               if fs_tasks sys tid = None
               then Some (sys\<lparr>fs_tasks := (fs_tasks sys)(tid \<mapsto> \<lparr>ft_word = pack_state Ready, ft_reason = NoWait, ft_phase = Idle, ft_kernel = k\<rparr>)\<rparr>)
               else None
           | Dispatch tid \<Rightarrow>
               (case fs_tasks sys tid of
                  None \<Rightarrow> None
                | Some t \<Rightarrow> if state_of (ft_word t) = Ready
                            then Some (sys\<lparr>fs_tasks := (fs_tasks sys)(tid \<mapsto> t\<lparr>ft_word := set_state (ft_word t) Running\<rparr>)\<rparr>) else None)
           | LandWake k \<Rightarrow>
               if k < length (fs_flights sys)
               then Some (sys\<lparr>fs_tasks := land_wake (fs_flights sys ! k) (fs_tasks sys),
                              fs_flights := take k (fs_flights sys) @ drop (Suc k) (fs_flights sys)\<rparr>) else None
           | StrayWake tid w \<Rightarrow>
               if client_wake w then None else Some (sys\<lparr>fs_tasks := land_wake (ToTid tid w) (fs_tasks sys)\<rparr>)
           | _ \<Rightarrow> None))"

definition fsys_init :: fsys where
  "fsys_init = \<lparr>fs_ipc = fast_ipc_new, fs_tasks = (\<lambda>_. None), fs_flights = [], fs_log = []\<rparr>"

fun fpath :: "fop list \<Rightarrow> fsys \<Rightarrow> fsys option" where
  "fpath [] sys = Some sys"
| "fpath (x # xs) sys = (case fstep x sys of None \<Rightarrow> None | Some sys' \<Rightarrow> fpath xs sys')"

inductive freach :: "fsys \<Rightarrow> fsys \<Rightarrow> bool" where
  freach_refl: "freach sys sys"
| freach_step: "freach sys u \<Longrightarrow> fstep x u = Some v \<Longrightarrow> freach sys v"

lemma fpath_reach: "fpath xs sys = Some v \<Longrightarrow> freach u sys \<Longrightarrow> freach u v"
  by (induction xs arbitrary: sys) (auto split: option.splits intro: freach_step)

lemma fstep_cases:
  assumes "fstep x sys = Some sys'"
  obtains (task) tid t where "actor x = Some tid" "fs_tasks sys tid = Some t" "running t" "task_step x tid t sys = Some sys'"
  | (spawn) tid k where "x = Spawn tid k" "fs_tasks sys tid = None"
      "sys' = sys\<lparr>fs_tasks := (fs_tasks sys)(tid \<mapsto> \<lparr>ft_word = pack_state Ready, ft_reason = NoWait, ft_phase = Idle, ft_kernel = k\<rparr>)\<rparr>"
  | (dispatch) tid t where "x = Dispatch tid" "fs_tasks sys tid = Some t" "state_of (ft_word t) = Ready"
      "sys' = sys\<lparr>fs_tasks := (fs_tasks sys)(tid \<mapsto> t\<lparr>ft_word := set_state (ft_word t) Running\<rparr>)\<rparr>"
  | (land) k where "x = LandWake k" "k < length (fs_flights sys)"
      "sys' = sys\<lparr>fs_tasks := land_wake (fs_flights sys ! k) (fs_tasks sys), fs_flights := take k (fs_flights sys) @ drop (Suc k) (fs_flights sys)\<rparr>"
  | (stray) tid w where "x = StrayWake tid w" "\<not> client_wake w" "sys' = sys\<lparr>fs_tasks := land_wake (ToTid tid w) (fs_tasks sys)\<rparr>"
proof (cases "actor x")
  case (Some tid)
  then show ?thesis
    using assms task by (auto simp: fstep_def split: option.splits if_splits)
next
  case None
  then show ?thesis
    using assms spawn dispatch land stray by (cases x) (auto simp: fstep_def split: option.splits if_splits)
qed

section \<open>Every reply reaches the call it answers\<close>

fun call_handle :: "phase \<Rightarrow> u64 option" where
  "call_handle (CallBlocking h n) = Some h"
| "call_handle (CallWaiting h n) = Some h"
| "call_handle (CallProbing h n) = Some h"
| "call_handle _ = None"

definition in_call :: "fsys \<Rightarrow> u32 \<Rightarrow> u64 option" where
  "in_call sys c = (case fs_tasks sys c of None \<Rightarrow> None | Some t \<Rightarrow> call_handle (ft_phase t))"

fun own_event :: "u32 \<Rightarrow> fevent \<Rightarrow> bool" where
  "own_event c (Called c' _ _ _) \<longleftrightarrow> c' = c"
| "own_event c (Delivered c' _ _) \<longleftrightarrow> c' = c"
| "own_event c (Failed c' _) \<longleftrightarrow> c' = c"
| "own_event c (GaveUp c' _) \<longleftrightarrow> c' = c"
| "own_event c _ \<longleftrightarrow> False"

text \<open>The log up to now ends with a call that is still open, followed by events of other tasks.\<close>

definition open_call :: "fevent list \<Rightarrow> u32 \<Rightarrow> u32 \<Rightarrow> u64 \<Rightarrow> u64 list \<Rightarrow> fevent list \<Rightarrow> bool" where
  "open_call log c s h w since \<longleftrightarrow> (\<exists>before. log = before @ Called c s h w # since) \<and> (\<forall>e\<in>set since. \<not> own_event c e)"

definition slot_logged :: "fevent list \<Rightarrow> u32 \<Rightarrow> u64 \<Rightarrow> FastIpcSlot \<Rightarrow> bool" where
  "slot_logged log c h s \<longleftrightarrow>
     (\<exists>w since. open_call log c (fi_server s) h w since
        \<and> (case fi_state s of
             Pending \<Rightarrow> fi_words s = w
           | Accepted \<Rightarrow> Taken (fi_server s) h c w \<in> set since
           | Replied \<Rightarrow> (\<exists>p k. subseq [Taken (fi_server s) h c w, Answered p k h (fi_words s)] since \<and> (p = fi_server s \<or> k))
           | Free \<Rightarrow> True))"

definition answers :: "fevent list \<Rightarrow> u32 \<Rightarrow> u64 \<Rightarrow> u64 list \<Rightarrow> bool" where
  "answers log c h r \<longleftrightarrow>
     (\<exists>s w since p k. open_call log c s h w since \<and> subseq [Taken s h c w, Answered p k h r] since \<and> (p = s \<or> k))"

definition auth_inv :: "u32 \<Rightarrow> fsys \<Rightarrow> bool" where
  "auth_inv c sys \<longleftrightarrow> fast_ipc_inv (fs_ipc sys)
     \<and> (\<forall>i<64. occupied (fi_slots (fs_ipc sys) ! i) \<and> fi_caller (fi_slots (fs_ipc sys) ! i) = c
          \<longrightarrow> in_call sys c = Some (fast_handle (fs_ipc sys) i) \<and> slot_logged (fs_log sys) c (fast_handle (fs_ipc sys) i) (fi_slots (fs_ipc sys) ! i))
     \<and> (\<forall>a h r b. fs_log sys = a @ Delivered c h r # b \<longrightarrow> answers a c h r)"

lemma auth_invD:
  assumes "auth_inv c sys"
  shows "fast_ipc_inv (fs_ipc sys)"
    "i < 64 \<Longrightarrow> occupied (fi_slots (fs_ipc sys) ! i) \<Longrightarrow> fi_caller (fi_slots (fs_ipc sys) ! i) = c \<Longrightarrow>
       in_call sys c = Some (fast_handle (fs_ipc sys) i) \<and> slot_logged (fs_log sys) c (fast_handle (fs_ipc sys) i) (fi_slots (fs_ipc sys) ! i)"
    "fs_log sys = a @ Delivered c h r # b \<Longrightarrow> answers a c h r"
  using assms by (simp_all add: auth_inv_def)

lemma open_call_append:
  "open_call log c s h w since \<Longrightarrow> \<not> own_event c e \<Longrightarrow> open_call (log @ [e]) c s h w (since @ [e])"
  by (auto simp: open_call_def)

lemma open_call_start: "open_call (log @ [Called c s h w]) c s h w []"
  by (auto simp: open_call_def)

lemma slot_logged_append:
  assumes "slot_logged log c h s" "\<not> own_event c e"
  shows "slot_logged (log @ [e]) c h s"
proof -
  obtain w since where o: "open_call log c (fi_server s) h w since"
      "case fi_state s of Pending \<Rightarrow> fi_words s = w | Accepted \<Rightarrow> Taken (fi_server s) h c w \<in> set since
        | Replied \<Rightarrow> (\<exists>p k. subseq [Taken (fi_server s) h c w, Answered p k h (fi_words s)] since \<and> (p = fi_server s \<or> k)) | Free \<Rightarrow> True"
    using assms(1) by (auto simp: slot_logged_def)
  have "case fi_state s of Pending \<Rightarrow> fi_words s = w | Accepted \<Rightarrow> Taken (fi_server s) h c w \<in> set (since @ [e])
      | Replied \<Rightarrow> (\<exists>p k. subseq [Taken (fi_server s) h c w, Answered p k h (fi_words s)] (since @ [e]) \<and> (p = fi_server s \<or> k)) | Free \<Rightarrow> True"
    using o(2) by (cases "fi_state s") (auto intro: list_emb_append2)
  then show ?thesis
    using open_call_append [OF o(1) assms(2)] by (auto simp: slot_logged_def)
qed

lemma slot_logged_Accepted:
  "fi_state s = Accepted \<Longrightarrow> open_call log c (fi_server s) h w since \<Longrightarrow> Taken (fi_server s) h c w \<in> set since \<Longrightarrow> slot_logged log c h s"
  by (simp add: slot_logged_def) blast

lemma slot_logged_Replied:
  "fi_state s = Replied \<Longrightarrow> open_call log c (fi_server s) h w since \<Longrightarrow>
     subseq [Taken (fi_server s) h c w, Answered p k h (fi_words s)] since \<Longrightarrow> p = fi_server s \<or> k \<Longrightarrow> slot_logged log c h s"
  by (simp add: slot_logged_def) blast

lemma delivered_append:
  assumes "log @ [e] = a @ x # b"
  shows "(a = log \<and> e = x) \<or> (\<exists>b'. log = a @ x # b')"
proof (cases b rule: rev_cases)
  case Nil
  then show ?thesis
    using assms by simp
next
  case (snoc ys y)
  then have "log @ [e] = (a @ x # ys) @ [y]"
    using assms by simp
  then have "log = a @ x # ys"
    by (simp only: append1_eq_conv)
  then show ?thesis
    by blast
qed

text \<open>Steps in which the task \<open>c\<close> does not begin or end a call.\<close>

lemma auth_frame:
  assumes "auth_inv c sys" "fast_ipc_inv (fs_ipc sys')" "in_call sys' c = in_call sys c"
    "fs_log sys' = fs_log sys \<or> (\<exists>e. fs_log sys' = fs_log sys @ [e] \<and> \<not> own_event c e)"
    "\<And>i. i < 64 \<Longrightarrow> occupied (fi_slots (fs_ipc sys') ! i) \<Longrightarrow> fi_caller (fi_slots (fs_ipc sys') ! i) = c \<Longrightarrow>
       occupied (fi_slots (fs_ipc sys) ! i) \<and> fi_caller (fi_slots (fs_ipc sys) ! i) = c \<and> fast_handle (fs_ipc sys') i = fast_handle (fs_ipc sys) i
       \<and> (fi_slots (fs_ipc sys') ! i = fi_slots (fs_ipc sys) ! i \<or> slot_logged (fs_log sys') c (fast_handle (fs_ipc sys) i) (fi_slots (fs_ipc sys') ! i))"
  shows "auth_inv c sys'"
  unfolding auth_inv_def
proof (intro conjI allI impI assms(2))
  fix i
  assume i: "i < 64" "occupied (fi_slots (fs_ipc sys') ! i) \<and> fi_caller (fi_slots (fs_ipc sys') ! i) = c"
  then have o: "occupied (fi_slots (fs_ipc sys) ! i) \<and> fi_caller (fi_slots (fs_ipc sys) ! i) = c \<and> fast_handle (fs_ipc sys') i = fast_handle (fs_ipc sys) i
       \<and> (fi_slots (fs_ipc sys') ! i = fi_slots (fs_ipc sys) ! i \<or> slot_logged (fs_log sys') c (fast_handle (fs_ipc sys) i) (fi_slots (fs_ipc sys') ! i))"
    using assms(5) [OF i(1)] by simp
  then show "in_call sys' c = Some (fast_handle (fs_ipc sys') i)"
    using auth_invD(2) [OF assms(1) i(1)] assms(3) by simp
  have "slot_logged (fs_log sys) c (fast_handle (fs_ipc sys) i) (fi_slots (fs_ipc sys) ! i)"
    using auth_invD(2) [OF assms(1) i(1)] o by simp
  then have "slot_logged (fs_log sys') c (fast_handle (fs_ipc sys) i) (fi_slots (fs_ipc sys) ! i)"
    using assms(4) slot_logged_append by auto
  then show "slot_logged (fs_log sys') c (fast_handle (fs_ipc sys') i) (fi_slots (fs_ipc sys') ! i)"
    using o by metis
next
  fix a h r b
  assume l: "fs_log sys' = a @ Delivered c h r # b"
  have "\<exists>b'. fs_log sys = a @ Delivered c h r # b'"
    using assms(4)
  proof
    assume "\<exists>e. fs_log sys' = fs_log sys @ [e] \<and> \<not> own_event c e"
    then obtain e where e: "fs_log sys @ [e] = a @ Delivered c h r # b" "\<not> own_event c e"
      using l by auto
    then show ?thesis
      using delivered_append [OF e(1)] by auto
  qed (use l in metis)
  then show "answers a c h r"
    using auth_invD(3) [OF assms(1)] by blast
qed

text \<open>Steps that end the call of \<open>c\<close> and leave it no slot.\<close>

lemma auth_end:
  assumes "auth_inv c sys" "fast_ipc_inv (fs_ipc sys')"
    "\<And>i. i < 64 \<Longrightarrow> occupied (fi_slots (fs_ipc sys') ! i) \<Longrightarrow> fi_caller (fi_slots (fs_ipc sys') ! i) \<noteq> c"
    "\<And>a h r b. fs_log sys' = a @ Delivered c h r # b \<Longrightarrow> answers a c h r"
  shows "auth_inv c sys'"
  using assms by (auto simp: auth_inv_def)

lemma wake_ftask_phase [simp]: "ft_phase (wake_ftask w t) = ft_phase t"
  by (simp add: wake_ftask_def split: prod.split)

lemma land_wake_phase: "map_option ft_phase (land_wake f tasks tid) = map_option ft_phase (tasks tid)"
  by (cases f) (simp_all add: option.map_comp o_def)

lemma in_call_land [simp]: "in_call (sys\<lparr>fs_tasks := land_wake f (fs_tasks sys)\<rparr>) c = in_call sys c"
  "in_call (sys\<lparr>fs_tasks := land_wake f (fs_tasks sys), fs_flights := fl\<rparr>) c = in_call sys c"
  using land_wake_phase [of f "fs_tasks sys" c] by (auto simp: in_call_def split: option.splits)

lemma in_call_put [simp]:
  "in_call (put_phase tid t ph sys) c = (if c = tid then call_handle ph else in_call sys c)"
  "in_call (log_event e sys) c = in_call sys c"
  "in_call (sys\<lparr>fs_ipc := ipc\<rparr>) c = in_call sys c"
  "in_call (sys\<lparr>fs_ipc := ipc, fs_flights := fl\<rparr>) c = in_call sys c"
  by (simp_all add: in_call_def put_phase_def log_event_def)

lemma put_phase_fields [simp]:
  "fs_ipc (put_phase tid t ph sys) = fs_ipc sys" "fs_log (put_phase tid t ph sys) = fs_log sys"
  "fs_flights (put_phase tid t ph sys) = fs_flights sys" "fs_tasks (put_phase tid t ph sys) = (fs_tasks sys)(tid \<mapsto> t\<lparr>ft_phase := ph\<rparr>)"
  "fs_ipc (log_event e sys) = fs_ipc sys" "fs_log (log_event e sys) = fs_log sys @ [e]"
  "fs_flights (log_event e sys) = fs_flights sys" "fs_tasks (log_event e sys) = fs_tasks sys"
  by (simp_all add: put_phase_def log_event_def)

lemma auth_same_ipc:
  assumes "auth_inv c sys" "fs_ipc sys' = fs_ipc sys" "in_call sys' c = in_call sys c"
    "fs_log sys' = fs_log sys \<or> (\<exists>e. fs_log sys' = fs_log sys @ [e] \<and> \<not> own_event c e)"
  shows "auth_inv c sys'"
  using auth_invD(1) [OF assms(1)] by (intro auth_frame [OF assms(1)]) (simp_all add: assms)

lemma auth_call:
  assumes "auth_inv c sys" "fs_tasks sys tid = Some t" "ft_phase t = Idle"
  shows "auth_inv c (sys_fast_call tid t server words sys)"
proof (cases "fast_ipc_call (\<lambda>tid. fs_tasks sys tid \<noteq> None) tid server words (fs_ipc sys)")
  case (Pair r ipc)
  note inv = auth_invD(1) [OF assms(1)]
  show ?thesis
  proof (cases r)
    case None
    then show ?thesis
      using Pair fast_call_none [OF Pair [unfolded None]] assms(1) by (simp add: sys_fast_call_def)
  next
    case (Some h)
    obtain i where i: "i < 64" "fi_state (fi_slots (fs_ipc sys) ! i) = Free" "fast_ipc_inv ipc" "h = fast_handle (fs_ipc sys) i"
        "fi_slots ipc = (fi_slots (fs_ipc sys))[i := \<lparr>fi_caller = tid, fi_server = server, fi_words = words, fi_state = Pending,
          fi_generation = fi_generation (fi_slots (fs_ipc sys) ! i)\<rparr>]"
      using fast_call_effect [OF inv Pair [unfolded Some]] .
    have len: "length (fi_slots (fs_ipc sys)) = 64"
      by (rule fast_ipc_invD(1) [OF inv])
    have h: "fast_handle ipc j = fast_handle (fs_ipc sys) j" if "j < 64" for j
      using that len i(1) by (cases "j = i") (simp_all add: fast_handle_def i(5))
    let ?sys = "sys_fast_call tid t server words sys"
    have e: "fs_ipc ?sys = ipc" "fs_log ?sys = fs_log sys @ [Called tid server h words]" "in_call ?sys c = (if c = tid then Some h else in_call sys c)"
      using Pair Some by (simp_all add: sys_fast_call_def)
    show ?thesis
    proof (cases "c = tid")
      case False
      have "fi_slots ipc ! j = fi_slots (fs_ipc sys) ! j" if "j < 64" "fi_caller (fi_slots ipc ! j) = c" for j
        using that False len by (cases "j = i") (auto simp: i(5))
      then show ?thesis
        by (intro auth_frame [OF assms(1)]) (use False i(3) h e in auto)
    next
      case True
      have none: "\<not> (occupied (fi_slots (fs_ipc sys) ! j) \<and> fi_caller (fi_slots (fs_ipc sys) ! j) = c)" if "j < 64" for j
        using auth_invD(2) [OF assms(1) that] assms(2,3) True by (auto simp: in_call_def)
      have only: "j = i" if "j < 64" "occupied (fi_slots ipc ! j) \<and> fi_caller (fi_slots ipc ! j) = c" for j
        using none [OF that(1)] that(2) by (cases "j = i") (simp_all add: i(5))
      have "slot_logged (fs_log sys @ [Called c server h words]) c h (fi_slots ipc ! i)"
        using open_call_start [of "fs_log sys" c server h words] i(1) len by (auto simp: slot_logged_def i(5))
      moreover have "answers a c h' r" if "fs_log sys @ [Called c server h words] = a @ Delivered c h' r # b" for a h' r b
        using delivered_append [OF that] auth_invD(3) [OF assms(1)] by auto
      moreover have "in_call ?sys c = Some (fast_handle ipc i)"
        using e(3) True i(4) h [OF i(1)] by simp
      ultimately show ?thesis
        using only i(3,4) h [OF i(1)] e(1,2) True unfolding auth_inv_def by metis
    qed
  qed
qed

lemma auth_unique:
  assumes "auth_inv c sys" "i < 64" "occupied (fi_slots (fs_ipc sys) ! i)" "fi_caller (fi_slots (fs_ipc sys) ! i) = c"
    "j < 64" "occupied (fi_slots (fs_ipc sys) ! j)" "fi_caller (fi_slots (fs_ipc sys) ! j) = c"
  shows "i = j"
  using auth_invD(2) [OF assms(1-4)] auth_invD(2) [OF assms(1,5-7)] assms(2,5) make_handle_inject by (auto simp: fast_handle_def)

lemma auth_collect:
  assumes "auth_inv c sys" "fs_tasks sys tid = Some t" "ft_phase t = CallWaiting h n"
  shows "auth_inv c (fast_call_collect tid t h n sys)"
proof (cases "fast_ipc_collect tid (fs_ipc sys)")
  case (Pair r ipc)
  note inv = auth_invD(1) [OF assms(1)]
  have call: "in_call sys tid = Some h"
    using assms(2,3) by (simp add: in_call_def)
  show ?thesis
  proof (cases r)
    case None
    then have "ipc = fs_ipc sys"
      using fast_collect_none(1) [OF inv] Pair by simp
    then show ?thesis
      using Pair None call by (intro auth_same_ipc [OF assms(1)]) (auto simp: fast_call_collect_def)
  next
    case (Some reply)
    obtain i where i: "i < 64" "fi_state (fi_slots (fs_ipc sys) ! i) = Replied" "fi_caller (fi_slots (fs_ipc sys) ! i) = tid"
        "fi_words (fi_slots (fs_ipc sys) ! i) = reply" "fast_ipc_inv ipc"
        "fi_slots ipc = (fi_slots (fs_ipc sys))[i := freed (fi_slots (fs_ipc sys) ! i)]"
      using fast_collect_effect [OF inv Pair [unfolded Some]] by (metis freed_def)
    have len: "length (fi_slots (fs_ipc sys)) = 64"
      by (rule fast_ipc_invD(1) [OF inv])
    have fr: "\<not> occupied (freed s)" for s
      by (simp add: occupied_def freed_def fast_slot_empty_def)
    have oc: "occupied (fi_slots (fs_ipc sys) ! i)"
      using i(2) by (simp add: occupied_def)
    let ?sys = "fast_call_collect tid t h n sys"
    have e: "fs_ipc ?sys = ipc" "fs_log ?sys = fs_log sys @ [Delivered tid h reply]" "c \<noteq> tid \<Longrightarrow> in_call ?sys c = in_call sys c"
      using Pair Some by (simp_all add: fast_call_collect_def)
    show ?thesis
    proof (cases "c = tid")
      case False
      have "fi_slots ipc ! j = fi_slots (fs_ipc sys) ! j" if "j < 64" "fi_caller (fi_slots ipc ! j) = c" "occupied (fi_slots ipc ! j)" for j
        using that fr len by (cases "j = i") (auto simp: i(6))
      then show ?thesis
        by (intro auth_frame [OF assms(1)]) (use False i(5) e in \<open>auto simp: fast_handle_def\<close>)
    next
      case True
      have sl: "h = fast_handle (fs_ipc sys) i" "slot_logged (fs_log sys) c h (fi_slots (fs_ipc sys) ! i)"
        using auth_invD(2) [OF assms(1) i(1) oc] i(3) True call by simp_all
      then have "answers (fs_log sys) c h reply"
        using i(2,4) by (simp add: slot_logged_def answers_def) metis
      then have ans: "answers a c h' r" if "fs_log ?sys = a @ Delivered c h' r # b" for a h' r b
        using delivered_append [OF that [unfolded e(2)]] auth_invD(3) [OF assms(1)] True by auto
      have "fi_caller (fi_slots ipc ! j) \<noteq> c" if "j < 64" "occupied (fi_slots ipc ! j)" for j
        using auth_unique [OF assms(1) i(1) oc _ that(1)] that fr len i(3) True by (cases "j = i") (auto simp: i(6))
      then show ?thesis
        using i(5) e(1) ans by (intro auth_end [OF assms(1)]) simp_all
    qed
  qed
qed

lemma auth_probe:
  assumes "auth_inv c sys" "fs_tasks sys tid = Some t" "ft_phase t = CallProbing h n" "\<And>h'. GaveUp c h' \<notin> set (fs_log (fast_call_probe tid t h n sys))"
  shows "auth_inv c (fast_call_probe tid t h n sys)"
proof (cases "c = tid")
  case False
  then show ?thesis
    by (intro auth_same_ipc [OF assms(1)]) (auto simp: fast_call_probe_def split: FastIpcWait.split)
next
  case True
  have call: "in_call sys c = Some h"
    using assms(2,3) True by (simp add: in_call_def)
  show ?thesis
  proof (cases "fast_ipc_wait_state h tid (fs_ipc sys) = Gone")
    case gone: True
    have "fi_caller (fi_slots (fs_ipc sys) ! i) \<noteq> c" if "i < 64" "occupied (fi_slots (fs_ipc sys) ! i)" for i
      using fast_wait_gone [OF auth_invD(1) [OF assms(1)] that(1)] that(2) gone auth_invD(2) [OF assms(1) that] call True
      by (auto simp: occupied_def)
    moreover have "answers a c h' r" if "fs_log sys @ [Failed tid h] = a @ Delivered c h' r # b" for a h' r b
      using delivered_append [OF that] auth_invD(3) [OF assms(1)] by auto
    ultimately show ?thesis
      using gone auth_invD(1) [OF assms(1)] by (intro auth_end [OF assms(1)]) (simp_all add: fast_call_probe_def)
  next
    case False
    then have e: "fast_call_probe tid t h n sys = put_phase tid t (CallBlocking h (n + 1)) sys"
      using assms(4) [of h] True by (auto simp: fast_call_probe_def split: FastIpcWait.splits if_splits)
    show ?thesis
      unfolding e using call True by (intro auth_same_ipc [OF assms(1)]) simp_all
  qed
qed

lemma auth_accept:
  assumes "auth_inv c sys" "fs_tasks sys tid = Some t" "call_handle (ft_phase t) = None" "call_handle ph = None"
  shows "auth_inv c (fast_accept_try tid t ph sys)"
proof (cases "fast_ipc_accept tid (fs_ipc sys)")
  case (Pair r ipc)
  note inv = auth_invD(1) [OF assms(1)]
  have call: "in_call sys tid = None"
    using assms(2,3) by (simp add: in_call_def)
  show ?thesis
  proof (cases r)
    case None
    then have "ipc = fs_ipc sys"
      using fast_accept_none Pair by simp
    then show ?thesis
      using Pair None call assms(4) by (intro auth_same_ipc [OF assms(1)]) (auto simp: fast_accept_try_def)
  next
    case (Some x)
    obtain h caller words where x: "x = (h, caller, words)"
      by (metis prod_cases3)
    obtain i where i: "i < 64" "h = fast_handle (fs_ipc sys) i" "fi_state (fi_slots (fs_ipc sys) ! i) = Pending" "fi_server (fi_slots (fs_ipc sys) ! i) = tid"
        "fi_caller (fi_slots (fs_ipc sys) ! i) = caller" "fi_words (fi_slots (fs_ipc sys) ! i) = words" "fast_ipc_inv ipc"
        "fi_slots ipc = (fi_slots (fs_ipc sys))[i := (fi_slots (fs_ipc sys) ! i)\<lparr>fi_state := Accepted\<rparr>]"
      using fast_accept_effect [OF inv Pair [unfolded Some x]] .
    let ?sys = "fast_accept_try tid t ph sys" and ?s = "fi_slots (fs_ipc sys) ! i"
    have len: "length (fi_slots (fs_ipc sys)) = 64"
      by (rule fast_ipc_invD(1) [OF inv])
    have e: "fs_ipc ?sys = ipc" "fs_log ?sys = fs_log sys @ [Taken tid h caller words]" "in_call ?sys c = in_call sys c"
      using Pair Some x call by (simp_all add: fast_accept_try_def)
    have h: "fast_handle ipc j = fast_handle (fs_ipc sys) j" if "j < 64" for j
      using that len i(1) by (cases "j = i") (simp_all add: fast_handle_def i(8))
    have "slot_logged (fs_log ?sys) c h (?s\<lparr>fi_state := Accepted\<rparr>)" if c: "caller = c"
    proof -
      obtain since where o: "open_call (fs_log sys) c tid h words since"
        using auth_invD(2) [OF assms(1) i(1)] i c by (auto simp: slot_logged_def occupied_def)
      show ?thesis
        using open_call_append [OF o, of "Taken tid h c words"] c i(4) by (intro slot_logged_Accepted [where w = words and since = "since @ [Taken tid h c words]"]) (simp_all add: e(2))
    qed
    then show ?thesis
      by (intro auth_frame [OF assms(1)]) (use i len h e in \<open>auto simp: nth_list_update occupied_def split: if_splits\<close>)
  qed
qed

lemma subseq_pair_snoc: "x \<in> set xs \<Longrightarrow> subseq [x, y] (xs @ [y])"
  using list_emb_append_mono [of "(=)" "[x]" xs "[y]" "[y]"] by (simp add: subseq_singleton_left)

lemma auth_reply:
  assumes "auth_inv c sys"
  shows "auth_inv c (sys_fast_reply tid t h words sys)"
proof (cases "fast_ipc_reply h tid (ft_kernel t) words (fs_ipc sys)")
  case (Pair r ipc)
  note inv = auth_invD(1) [OF assms(1)]
  show ?thesis
  proof (cases r)
    case (Woke caller i)
    note i = fast_reply_effect [OF inv Pair [unfolded Woke]]
    let ?sys = "sys_fast_reply tid t h words sys" and ?s = "fi_slots (fs_ipc sys) ! i"
    have len: "length (fi_slots (fs_ipc sys)) = 64"
      by (rule fast_ipc_invD(1) [OF inv])
    have e: "fs_ipc ?sys = ipc" "fs_log ?sys = fs_log sys @ [Answered tid (ft_kernel t) h words]" "in_call ?sys c = in_call sys c"
      using Pair Woke by (simp_all add: sys_fast_reply_def)
    have h: "fast_handle ipc j = fast_handle (fs_ipc sys) j" if "j < 64" for j
      using that len i(1) by (cases "j = i") (simp_all add: fast_handle_def i(7))
    have "slot_logged (fs_log ?sys) c h (?s\<lparr>fi_words := words, fi_state := Replied\<rparr>)" if c: "caller = c"
    proof -
      obtain w since where o: "open_call (fs_log sys) c (fi_server ?s) h w since" "Taken (fi_server ?s) h c w \<in> set since"
        using auth_invD(2) [OF assms(1) i(1)] i(2,3,5) c by (auto simp: slot_logged_def occupied_def)
      show ?thesis
        using open_call_append [OF o(1), of "Answered tid (ft_kernel t) h words"] subseq_pair_snoc [OF o(2)] i(4)
        by (intro slot_logged_Replied [where w = w and p = tid and k = "ft_kernel t" and since = "since @ [Answered tid (ft_kernel t) h words]"]) (auto simp: e(2))
    qed
    then show ?thesis
      by (intro auth_frame [OF assms(1)]) (use i len h e in \<open>auto simp: nth_list_update occupied_def split: if_splits\<close>)
  qed (use Pair fast_reply_refused [OF Pair] assms in \<open>simp_all add: sys_fast_reply_def\<close>)
qed

lemma auth_exit:
  assumes "auth_inv c sys"
  shows "auth_inv c (fast_exit tid sys)"
proof -
  obtain ipc orphaned k where r: "fast_ipc_release_all tid (fs_ipc sys) = (ipc, orphaned, k)"
    by (metis prod_cases3)
  note e = release_all_effect [OF auth_invD(1) [OF assms] r]
  let ?sys = "fast_exit tid sys"
  have s: "fs_ipc ?sys = ipc" "fs_log ?sys = fs_log sys" "c \<noteq> tid \<Longrightarrow> in_call ?sys c = in_call sys c"
    using r by (simp_all add: fast_exit_def in_call_def)
  have k: "fi_slots ipc ! i = fi_slots (fs_ipc sys) ! i \<and> \<not> exit_frees tid (fi_slots (fs_ipc sys) ! i)" if "i < 64" "occupied (fi_slots ipc ! i)" for i
    using e(2) [OF that(1)] that(2) by (auto simp: freed_def occupied_def fast_slot_empty_def split: if_splits)
  show ?thesis
  proof (cases "c = tid")
    case False
    then show ?thesis
      by (intro auth_frame [OF assms]) (use s e(1) k in \<open>auto simp: fast_handle_def\<close>)
  next
    case True
    have "fi_caller (fi_slots ipc ! i) \<noteq> c" if "i < 64" "occupied (fi_slots ipc ! i)" for i
      using k [OF that] that(2) True by (auto simp: exit_frees_def occupied_def)
    then show ?thesis
      using auth_invD(3) [OF assms] by (intro auth_end [OF assms]) (simp_all add: s e(1))
  qed
qed

lemma fstep_log:
  assumes "fstep x sys = Some sys'"
  shows "set (fs_log sys) \<subseteq> set (fs_log sys')"
  using assms
proof (cases rule: fstep_cases)
  case (task tid t)
  then show ?thesis
    by (cases x) (auto simp: sys_fast_call_def fast_call_collect_def fast_call_probe_def sys_fast_accept_def fast_accept_again_def
        fast_accept_try_def sys_fast_reply_def fast_exit_def
        split: if_splits phase.splits option.splits prod.splits FastIpcWait.splits FastIpcReply.splits)
qed (auto split: if_splits)

lemma auth_step:
  assumes "auth_inv c sys" "fstep x sys = Some sys'" "\<And>h. GaveUp c h \<notin> set (fs_log sys')"
  shows "auth_inv c sys'"
  using assms(2)
proof (cases rule: fstep_cases)
  case (task tid t)
  note put = auth_same_ipc [OF assms(1)]
  have call: "in_call sys tid = call_handle (ft_phase t)"
    using task(2) by (simp add: in_call_def)
  show ?thesis
  proof (cases x)
    case (FastCall c' server words)
    then show ?thesis
      using task auth_call [OF assms(1)] by (auto split: if_splits)
  next
    case (TaskBlock c')
    then show ?thesis
      using task call by (auto split: phase.splits intro!: put)
  next
    case (Collect c')
    then show ?thesis
      using task auth_collect [OF assms(1)] by (auto split: phase.splits)
  next
    case (Probe c')
    then show ?thesis
      using task auth_probe [OF assms(1)] assms(3) by (auto split: phase.splits)
  next
    case (FastAccept c')
    then show ?thesis
      using task auth_accept [OF assms(1) task(2)] by (auto simp: sys_fast_accept_def split: if_splits)
  next
    case (AcceptAgain c')
    then show ?thesis
      using task auth_accept [OF assms(1) task(2)] by (auto simp: fast_accept_again_def split: phase.splits)
  next
    case (FastReply c' h words)
    then show ?thesis
      using task auth_reply [OF assms(1)] by (auto split: if_splits)
  next
    case (TaskExit c')
    then show ?thesis
      using task auth_exit [OF assms(1)] by auto
  next
    case (Preempt c')
    then show ?thesis
      using task call by (auto simp: in_call_def intro!: put)
  qed (use task in simp_all)
next
  case (spawn tid k)
  then show ?thesis
    by (intro auth_same_ipc [OF assms(1)]) (auto simp: in_call_def)
next
  case (dispatch tid t)
  then show ?thesis
    by (intro auth_same_ipc [OF assms(1)]) (auto simp: in_call_def)
next
  case (land k)
  then show ?thesis
    by (intro auth_same_ipc [OF assms(1)]) simp_all
next
  case (stray tid w)
  then show ?thesis
    by (intro auth_same_ipc [OF assms(1)]) (simp_all del: land_wake.simps)
qed

lemma auth_reach:
  assumes "freach fsys_init sys" "\<And>h. GaveUp c h \<notin> set (fs_log sys)"
  shows "auth_inv c sys"
  using assms
proof (induction fsys_init sys rule: freach.induct)
  case freach_refl
  then show ?case
    using fast_ipc_inv_new by (simp add: auth_inv_def fsys_init_def) (simp add: fast_ipc_new_def FAST_IPC_MAX_SLOTS_def occupied_def fast_slot_empty_def)
next
  case (freach_step u x v)
  then show ?case
    using auth_step [of c u x v] fstep_log [of x u v] by blast
qed

text \<open>
  C2. In every interleaving of the fast-IPC system calls, wakes, preemptions and task exits, a reply
  that is delivered to a client was given to exactly that call: since the call, and before the
  delivery, the server it was addressed to took the request as it was sent and then the
  server (or a kernel task) answered with exactly those words, and the client neither began nor ended
  another call in between.  The client must not have abandoned a call before.
\<close>

theorem fast_reply_answers_call:
  assumes "freach fsys_init sys" "\<forall>h'. GaveUp c h' \<notin> set (fs_log sys)" "fs_log sys = before @ Delivered c h r # later"
  shows "\<exists>earlier s w since p k. before = earlier @ Called c s h w # since \<and> (\<forall>e\<in>set since. \<not> own_event c e)
    \<and> subseq [Taken s h c w, Answered p k h r] since \<and> (p = s \<or> k)"
proof -
  have "answers before c h r"
    using auth_invD(3) [OF auth_reach [OF assms(1)] assms(3)] assms(2) by blast
  then show ?thesis
    unfolding answers_def open_call_def by metis
qed

definition demo_exchange :: "fop list" where
  "demo_exchange = [Spawn 1 False, Dispatch 1, Spawn 2 False, Dispatch 2, FastCall 1 2 [10, 20, 30, 40], LandWake 0, TaskBlock 1,
     FastAccept 2, FastReply 2 0 [7, 8, 9, 10], LandWake 0, Dispatch 1, Collect 1]"

lemma demo_exchange_log:
  "map_option fs_log (fpath demo_exchange fsys_init) =
     Some [Called 1 2 0 [10, 20, 30, 40], Taken 2 0 1 [10, 20, 30, 40], Answered 2 False 0 [7, 8, 9, 10], Delivered 1 0 [7, 8, 9, 10]]"
  by code_simp

theorem fast_reply_answers_call_witness:
  "\<exists>sys before. fpath demo_exchange fsys_init = Some sys \<and> fs_log sys = before @ [Delivered 1 0 [7, 8, 9, 10]]
     \<and> (\<exists>earlier s w since p k. before = earlier @ Called 1 s 0 w # since
          \<and> subseq [Taken s 0 1 w, Answered p k 0 [7, 8, 9, 10]] since \<and> (p = s \<or> k))"
proof -
  let ?before = "[Called 1 2 0 [10, 20, 30, 40], Taken 2 0 1 [10, 20, 30, 40], Answered 2 False 0 [7, 8, 9, 10]] :: fevent list"
  obtain sys where sys: "fpath demo_exchange fsys_init = Some sys" "fs_log sys = ?before @ [Delivered 1 0 [7, 8, 9, 10]]"
    using demo_exchange_log by (cases "fpath demo_exchange fsys_init") auto
  have "\<forall>h'. GaveUp 1 h' \<notin> set (fs_log sys)"
    by (simp add: sys(2))
  from fast_reply_answers_call [OF fpath_reach [OF sys(1) freach_refl] this sys(2)]
  have "\<exists>earlier s w since p k. ?before = earlier @ Called 1 s 0 w # since
          \<and> subseq [Taken s 0 1 w, Answered p k 0 [7, 8, 9, 10]] since \<and> (p = s \<or> k)"
    by blast
  then show ?thesis
    using sys by blast
qed

end
