(* ===== verification/Fast_Wake.thy ===== *)
theory Fast_Wake
  imports Fast_Call
begin

text \<open>
  Whether a client of the fast IPC wakes up: it does when its call is answered, it does not
  when its server exits before it has blocked, and a call that is given up after too many spurious wakes
  leaves a slot behind whose late reply the next call receives.
\<close>

section \<open>An answered client is woken\<close>

definition task_fine :: "ftask \<Rightarrow> bool" where
  "task_fine t \<longleftrightarrow> word_ok (ft_word t) \<and> state_of (ft_word t) \<in> {Ready, Running, Blocked}
     \<and> (state_of (ft_word t) = Blocked \<longrightarrow>
          (case ft_phase t of CallWaiting h n \<Rightarrow> ft_reason t = FastIpcClient h | AcceptWaiting n \<Rightarrow> True | _ \<Rightarrow> False))"

definition will_look :: "ftask \<Rightarrow> bool" where
  "will_look t \<longleftrightarrow>
     (case ft_phase t of CallBlocking h n \<Rightarrow> stamped (ft_word t) | CallProbing h n \<Rightarrow> stamped (ft_word t)
      | CallWaiting h n \<Rightarrow> state_of (ft_word t) \<noteq> Blocked | _ \<Rightarrow> True)"

definition answered_in :: "FastIpcState \<Rightarrow> u32 \<Rightarrow> u64 \<Rightarrow> bool" where
  "answered_in ipc c h \<longleftrightarrow> (\<exists>i<64. fi_state (fi_slots ipc ! i) = Replied \<and> fi_caller (fi_slots ipc ! i) = c \<and> h = fast_handle ipc i)"

definition heeded :: "fsys \<Rightarrow> u32 \<Rightarrow> ftask \<Rightarrow> bool" where
  "heeded sys c t \<longleftrightarrow>
     (\<forall>h. call_handle (ft_phase t) = Some h \<and> answered_in (fs_ipc sys) c h
        \<longrightarrow> ToTid c (fast_ipc_client_tid h) \<in> set (fs_flights sys) \<or> will_look t)"

definition wake_inv :: "fsys \<Rightarrow> bool" where
  "wake_inv sys \<longleftrightarrow> fast_ipc_inv (fs_ipc sys) \<and> (\<forall>c t. fs_tasks sys c = Some t \<longrightarrow> task_fine t \<and> heeded sys c t)"

lemma wake_invD:
  assumes "wake_inv sys"
  shows "fast_ipc_inv (fs_ipc sys)" "fs_tasks sys c = Some t \<Longrightarrow> task_fine t" "fs_tasks sys c = Some t \<Longrightarrow> heeded sys c t"
  using assms by (auto simp: wake_inv_def)

lemma task_fineE:
  assumes "task_fine t"
  obtains s b where "ft_word t = state_word s b" "s \<in> {Ready, Running, Blocked}"
    "s = Blocked \<longrightarrow> (case ft_phase t of CallWaiting h n \<Rightarrow> ft_reason t = FastIpcClient h | AcceptWaiting n \<Rightarrow> True | _ \<Rightarrow> False)"
  using assms that [of "state_of (ft_word t)" "stamped (ft_word t)"] by (simp add: task_fine_def word_ok_def)

lemma wake_fine:
  assumes "task_fine t"
  shows "task_fine (wake_ftask w t)" "will_look t \<Longrightarrow> will_look (wake_ftask w t)"
    "call_handle (ft_phase t) = Some h \<Longrightarrow> will_look (wake_ftask (fast_ipc_client_tid h) t)"
proof -
  obtain s b where s: "ft_word t = state_word s b" "s \<in> {Ready, Running, Blocked}"
      "s = Blocked \<longrightarrow> (case ft_phase t of CallWaiting h n \<Rightarrow> ft_reason t = FastIpcClient h | AcceptWaiting n \<Rightarrow> True | _ \<Rightarrow> False)"
    using assms by (rule task_fineE)
  show "task_fine (wake_ftask w t)" "will_look t \<Longrightarrow> will_look (wake_ftask w t)"
    using s by (auto simp: wake_ftask_def task_fine_def will_look_def split: phase.splits)
  show "call_handle (ft_phase t) = Some h \<Longrightarrow> will_look (wake_ftask (fast_ipc_client_tid h) t)"
    using s by (cases "ft_phase t") (auto simp: wake_ftask_def will_look_def wake_pred_def wake_stamps_def)
qed

lemma block_fine:
  assumes "task_fine t" "running t" "ph = CallWaiting h n \<and> reason = FastIpcClient h \<or> ph = AcceptWaiting n"
  shows "task_fine ((block_ftask reason t)\<lparr>ft_phase := ph\<rparr>)" "stamped (ft_word t) \<Longrightarrow> will_look ((block_ftask reason t)\<lparr>ft_phase := ph\<rparr>)"
proof -
  obtain b where "ft_word t = state_word Running b"
    using assms(1,2) by (auto elim!: task_fineE simp: running_def)
  then show "task_fine ((block_ftask reason t)\<lparr>ft_phase := ph\<rparr>)" "stamped (ft_word t) \<Longrightarrow> will_look ((block_ftask reason t)\<lparr>ft_phase := ph\<rparr>)"
    using assms(3) by (auto simp: block_ftask_def task_fine_def will_look_def)
qed

text \<open>A step of one task, with the wakes it sends.\<close>

lemma wake_inv_step:
  assumes "wake_inv sys" "fast_ipc_inv (fs_ipc sys')" "set (fs_flights sys) \<subseteq> set (fs_flights sys')"
    "\<And>c h. answered_in (fs_ipc sys') c h \<Longrightarrow> answered_in (fs_ipc sys) c h \<or> ToTid c (fast_ipc_client_tid h) \<in> set (fs_flights sys')"
    "\<And>c. c \<noteq> tid \<Longrightarrow> fs_tasks sys' c = fs_tasks sys c"
    "\<And>t'. fs_tasks sys' tid = Some t' \<Longrightarrow> task_fine t' \<and> heeded sys' tid t'"
  shows "wake_inv sys'"
  unfolding wake_inv_def
proof (intro conjI allI impI assms(2))
  fix c t
  assume t: "fs_tasks sys' c = Some t"
  show "task_fine t" "heeded sys' c t"
    using t assms(3-6) wake_invD(2,3) [OF assms(1), of c t] by (cases "c = tid"; fastforce simp: heeded_def)+
qed

lemma heeded_idle: "call_handle (ft_phase t) = None \<Longrightarrow> heeded sys c t"
  by (simp add: heeded_def)

lemma task_fine_phase:
  assumes "task_fine t" "running t"
  shows "task_fine (t\<lparr>ft_phase := ph\<rparr>)" "task_fine (t\<lparr>ft_word := set_state (ft_word t) Ready\<rparr>)"
    "stamped (set_state (ft_word t) Ready) = stamped (ft_word t)" "state_of (set_state (ft_word t) Ready) = Ready"
proof -
  obtain b where "ft_word t = state_word Running b"
    using assms by (auto elim!: task_fineE simp: running_def)
  then show "task_fine (t\<lparr>ft_phase := ph\<rparr>)" "task_fine (t\<lparr>ft_word := set_state (ft_word t) Ready\<rparr>)"
      "stamped (set_state (ft_word t) Ready) = stamped (ft_word t)" "state_of (set_state (ft_word t) Ready) = Ready"
    by (simp_all add: task_fine_def)
qed

lemma answered_call:
  assumes "fast_ipc_inv st" "i < 64" "fi_state (fi_slots st ! i) = Free"
    "fi_slots st' = (fi_slots st)[i := s]" "fi_state s = Pending" "fi_generation s = fi_generation (fi_slots st ! i)"
  shows "answered_in st' c h \<longleftrightarrow> answered_in st c h" "\<not> answered_in st' c (fast_handle st i)"
proof -
  have len: "length (fi_slots st) = 64"
    by (rule fast_ipc_invD(1) [OF assms(1)])
  have e: "fast_handle st' j = fast_handle st j" "fi_state (fi_slots st' ! j) = Replied \<longleftrightarrow> fi_state (fi_slots st ! j) = Replied"
      "fi_state (fi_slots st ! j) = Replied \<Longrightarrow> fi_caller (fi_slots st' ! j) = fi_caller (fi_slots st ! j)" for j
    using assms(2-6) len by (cases "j = i"; simp add: fast_handle_def)+
  then show "answered_in st' c h \<longleftrightarrow> answered_in st c h"
    by (auto simp: answered_in_def)
  show "\<not> answered_in st' c (fast_handle st i)"
    using assms(2-5) len e(1) make_handle_inject [of i] by (auto simp: answered_in_def fast_handle_def)
qed


lemma answered_only:
  assumes "\<And>i. i < 64 \<Longrightarrow> fi_state (fi_slots st' ! i) = Replied \<Longrightarrow> fi_slots st' ! i = fi_slots st ! i"
  shows "answered_in st' c h \<Longrightarrow> answered_in st c h"
  using assms by (auto simp: answered_in_def fast_handle_def)

lemma answered_put:
  assumes "fi_slots st' = (fi_slots st)[i := s]" "fi_state s \<noteq> Replied" "length (fi_slots st) = 64" "answered_in st' c h"
  shows "answered_in st c h"
  using assms(4)
proof (rule answered_only [rotated])
  show "fi_slots st' ! j = fi_slots st ! j" if "j < 64" "fi_state (fi_slots st' ! j) = Replied" for j
    using that assms(1-3) by (cases "i = j") auto
qed

lemma wake_inv_call:
  assumes "wake_inv sys" "fs_tasks sys tid = Some t" "running t"
  shows "wake_inv (sys_fast_call tid t server words sys)"
proof (cases "fast_ipc_call (\<lambda>tid. fs_tasks sys tid \<noteq> None) tid server words (fs_ipc sys)")
  case (Pair r ipc)
  note inv = wake_invD(1) [OF assms(1)]
  show ?thesis
  proof (cases r)
    case None
    then show ?thesis
      using Pair fast_call_none [OF Pair [unfolded None]] assms(1) by (simp add: sys_fast_call_def)
  next
    case (Some h)
    obtain i where i: "i < 64" "fi_state (fi_slots (fs_ipc sys) ! i) = Free" "fast_ipc_inv ipc" "h = fast_handle (fs_ipc sys) i"
        "fi_slots ipc = (fi_slots (fs_ipc sys))[i := \<lparr>fi_caller = tid, fi_server = server, fi_words = words, fi_state = Pending,
          fi_generation = fi_generation (fi_slots (fs_ipc sys) ! i)\<rparr>]"
      using fast_call_effect [OF inv Pair [unfolded Some]] .
    note a = answered_call [OF inv i(1,2,5)]
    show ?thesis
      by (rule wake_inv_step [OF assms(1), where tid = tid])
        (use Pair Some i(3) a i(4) task_fine_phase(1) [OF wake_invD(2) [OF assms(1,2)] assms(3)] in \<open>auto simp: sys_fast_call_def heeded_def\<close>)
  qed
qed

lemma wake_inv_accept:
  assumes "wake_inv sys" "fs_tasks sys tid = Some t" "running t" "call_handle ph = None"
  shows "wake_inv (fast_accept_try tid t ph sys)"
proof (cases "fast_ipc_accept tid (fs_ipc sys)")
  case (Pair r ipc)
  note inv = wake_invD(1) [OF assms(1)] and fine = task_fine_phase(1) [OF wake_invD(2) [OF assms(1,2)] assms(3)]
  show ?thesis
  proof (cases r)
    case None
    show ?thesis
      by (rule wake_inv_step [OF assms(1), where tid = tid])
        (use Pair None fast_accept_none [OF Pair [unfolded None]] inv fine assms(4) in \<open>auto simp: fast_accept_try_def heeded_idle\<close>)
  next
    case (Some x)
    obtain h caller words where x: "x = (h, caller, words)"
      by (metis prod_cases3)
    obtain i where i: "i < 64" "fast_ipc_inv ipc" "fi_slots ipc = (fi_slots (fs_ipc sys))[i := (fi_slots (fs_ipc sys) ! i)\<lparr>fi_state := Accepted\<rparr>]"
      using fast_accept_effect [OF inv Pair [unfolded Some x]] by metis
    have a: "answered_in ipc c h \<Longrightarrow> answered_in (fs_ipc sys) c h" for c h
      by (rule answered_put [OF i(3) _ fast_ipc_invD(1) [OF inv]]) simp
    show ?thesis
      by (rule wake_inv_step [OF assms(1), where tid = tid])
        (use Pair Some x i(2) a fine assms(4) in \<open>auto simp: fast_accept_try_def heeded_idle\<close>)
  qed
qed

lemma wake_inv_reply:
  assumes "wake_inv sys"
  shows "wake_inv (sys_fast_reply tid t h words sys)"
proof (cases "fast_ipc_reply h tid (ft_kernel t) words (fs_ipc sys)")
  case (Pair r ipc)
  note inv = wake_invD(1) [OF assms]
  show ?thesis
  proof (cases r)
    case (Woke caller i)
    note i = fast_reply_effect [OF inv Pair [unfolded Woke]]
    let ?sys = "sys_fast_reply tid t h words sys"
    have e: "fs_ipc ?sys = ipc" "fs_tasks ?sys = fs_tasks sys" "fs_flights ?sys = fs_flights sys @ [ToTid caller (fast_ipc_client_tid h)]"
      using Pair Woke by (simp_all add: sys_fast_reply_def)
    have len: "length (fi_slots (fs_ipc sys)) = 64"
      by (rule fast_ipc_invD(1) [OF inv])
    have hs: "fast_handle ipc j = fast_handle (fs_ipc sys) j" for j
      using len i(1) by (cases "j = i") (simp_all add: fast_handle_def i(7))
    have a: "answered_in (fs_ipc sys) c h' \<or> c = caller \<and> h' = h" if "answered_in ipc c h'" for c h'
      using that len i(1,2,5) unfolding answered_in_def hs by (auto simp: i(7) nth_list_update split: if_splits)
    then have "heeded ?sys c u" if "fs_tasks sys c = Some u" for c u
      using wake_invD(3) [OF assms that] unfolding heeded_def e by auto
    then show ?thesis
      using wake_invD(2) [OF assms] i(6) by (simp add: wake_inv_def e)
  qed (use Pair fast_reply_refused [OF Pair] assms in \<open>simp_all add: sys_fast_reply_def\<close>)
qed

lemma wake_inv_exit:
  assumes "wake_inv sys"
  shows "wake_inv (fast_exit tid sys)"
proof -
  obtain ipc orphaned k where r: "fast_ipc_release_all tid (fs_ipc sys) = (ipc, orphaned, k)"
    by (metis prod_cases3)
  note e = release_all_effect [OF wake_invD(1) [OF assms] r]
  have a: "answered_in ipc c h \<Longrightarrow> answered_in (fs_ipc sys) c h" for c h
    by (erule answered_only [rotated]) (use e(2) in \<open>auto simp: freed_def fast_slot_empty_def split: if_splits\<close>)
  show ?thesis
    by (rule wake_inv_step [OF assms, where tid = tid]) (use r e(1) a in \<open>auto simp: fast_exit_def\<close>)
qed

lemma wake_inv_collect:
  assumes "wake_inv sys" "fs_tasks sys tid = Some t" "running t" "ft_phase t = CallWaiting h n"
  shows "wake_inv (fast_call_collect tid t h n sys)"
proof (cases "fast_ipc_collect tid (fs_ipc sys)")
  case (Pair r ipc)
  note inv = wake_invD(1) [OF assms(1)] and fine = task_fine_phase(1) [OF wake_invD(2) [OF assms(1,2)] assms(3)]
  show ?thesis
  proof (cases r)
    case None
    note n = fast_collect_none [OF inv Pair [unfolded None]]
    have "\<not> answered_in ipc tid h" for h
      using n by (auto simp: answered_in_def)
    then show ?thesis
      by (intro wake_inv_step [OF assms(1), where tid = tid])
        (use Pair None n(1) inv fine in \<open>auto simp: fast_call_collect_def heeded_def\<close>)
  next
    case (Some reply)
    obtain i where i: "fast_ipc_inv ipc" "fi_slots ipc = (fi_slots (fs_ipc sys))[i := freed (fi_slots (fs_ipc sys) ! i)]"
      using fast_collect_effect [OF inv Pair [unfolded Some]] by (metis freed_def)
    have a: "answered_in ipc c h \<Longrightarrow> answered_in (fs_ipc sys) c h" for c h
      by (rule answered_put [OF i(2) _ fast_ipc_invD(1) [OF inv]]) (simp add: freed_def fast_slot_empty_def)
    show ?thesis
      by (rule wake_inv_step [OF assms(1), where tid = tid])
        (use Pair Some i(1) a fine in \<open>auto simp: fast_call_collect_def heeded_idle\<close>)
  qed
qed

lemma wake_inv_own:
  assumes "wake_inv sys" "fs_ipc sys' = fs_ipc sys" "fs_flights sys' = fs_flights sys" "fs_tasks sys' = (fs_tasks sys)(tid \<mapsto> t')" "task_fine t'"
    "call_handle (ft_phase t') = None \<or> (\<exists>t. fs_tasks sys tid = Some t \<and> call_handle (ft_phase t') = call_handle (ft_phase t) \<and> (will_look t \<longrightarrow> will_look t'))"
  shows "wake_inv sys'"
proof (rule wake_inv_step [OF assms(1), where tid = tid])
  show "task_fine u \<and> heeded sys' tid u" if "fs_tasks sys' tid = Some u" for u
    using that assms(4,5,6) wake_invD(3) [OF assms(1), of tid] by (auto simp: heeded_def assms(2,3))
qed (use assms wake_invD(1) [OF assms(1)] in auto)

lemma wake_inv_land:
  assumes "wake_inv sys" "\<And>c h. f \<noteq> ToTid c (fast_ipc_client_tid h) \<Longrightarrow> ToTid c (fast_ipc_client_tid h) \<in> set (fs_flights sys) \<Longrightarrow>
      ToTid c (fast_ipc_client_tid h) \<in> set fl"
  shows "wake_inv (sys\<lparr>fs_tasks := land_wake f (fs_tasks sys), fs_flights := fl\<rparr>)"
proof -
  let ?sys = "sys\<lparr>fs_tasks := land_wake f (fs_tasks sys), fs_flights := fl\<rparr>"
  have "task_fine t' \<and> heeded ?sys c t'" if t': "land_wake f (fs_tasks sys) c = Some t'" for c t'
  proof -
    obtain t where t: "fs_tasks sys c = Some t" "t' = t \<or> (\<exists>w. t' = wake_ftask w t)" "\<And>w. f = ToTid c w \<Longrightarrow> t' = wake_ftask w t"
      using t' by (cases f) (auto split: if_splits)
    note fine = wake_invD(2) [OF assms(1) t(1)]
    have "will_look t'" if "call_handle (ft_phase t) = Some h" "answered_in (fs_ipc sys) c h" "ToTid c (fast_ipc_client_tid h) \<notin> set fl" for h
    proof (cases "f = ToTid c (fast_ipc_client_tid h)")
      case True
      then show ?thesis
        using wake_fine(3) [OF fine that(1)] t(3) by simp
    next
      case False
      then have "will_look t"
        using wake_invD(3) [OF assms(1) t(1)] that assms(2) by (auto simp: heeded_def)
      then show ?thesis
        using t(2) wake_fine(2) [OF fine] by auto
    qed
    moreover have "ft_phase t' = ft_phase t"
      using t(2) by auto
    ultimately have "heeded ?sys c t'"
      by (auto simp: heeded_def)
    then show ?thesis
      using t(2) fine wake_fine(1) [OF fine] by auto
  qed
  then show ?thesis
    using wake_invD(1) [OF assms(1)] by (simp add: wake_inv_def)
qed


lemma wake_inv_task:
  assumes "wake_inv sys" "fs_tasks sys tid = Some t" "running t" "task_step x tid t sys = Some sys'"
  shows "wake_inv sys'"
proof -
  note fine = wake_invD(2) [OF assms(1,2)]
  note phase = task_fine_phase [OF fine assms(3)] and block = block_fine [OF fine assms(3)] and own = wake_inv_own [OF assms(1)]
  show ?thesis
  proof (cases x)
    case (TaskBlock c)
    show ?thesis
    proof (cases "ft_phase t")
      case (CallBlocking h n)
      then have "sys' = put_phase tid (block_ftask (FastIpcClient h) t) (CallWaiting h n) sys" "will_look t \<longleftrightarrow> stamped (ft_word t)"
        using assms(4) TaskBlock by (simp_all add: will_look_def)
      then show ?thesis
        using block [of "CallWaiting h n" h n "FastIpcClient h"] assms(2) CallBlocking by (intro own [where tid = tid]) auto
    next
      case (AcceptBlocking n)
      then show ?thesis
        using assms(4) TaskBlock block(1) [of "AcceptWaiting n"] by (intro own [where tid = tid]) auto
    qed (use assms(4) TaskBlock in simp_all)
  next
    case (Probe c)
    then obtain h n where h: "ft_phase t = CallProbing h n" "sys' = fast_call_probe tid t h n sys"
      using assms(4) by (auto split: phase.splits)
    then have "fs_ipc sys' = fs_ipc sys" "fs_flights sys' = fs_flights sys"
        "fs_tasks sys' = (fs_tasks sys)(tid \<mapsto> t\<lparr>ft_phase := Idle\<rparr>) \<or> fs_tasks sys' = (fs_tasks sys)(tid \<mapsto> t\<lparr>ft_phase := CallBlocking h (n + 1)\<rparr>)"
      by (auto simp: fast_call_probe_def split: FastIpcWait.splits if_splits)
    moreover have "will_look t \<longrightarrow> will_look (t\<lparr>ft_phase := CallBlocking h (n + 1)\<rparr>)"
      using h(1) by (simp add: will_look_def)
    ultimately show ?thesis
      using own [of sys' tid] phase(1) assms(2) h(1) by auto
  next
    case (Preempt c)
    have "will_look t \<longrightarrow> will_look (t\<lparr>ft_word := set_state (ft_word t) Ready\<rparr>)"
      using phase(3,4) by (auto simp: will_look_def split: phase.splits)
    then show ?thesis
      using assms(2,4) phase(2) Preempt by (intro own [where tid = tid]) auto
  next
    case (FastCall c server words)
    then show ?thesis
      using assms wake_inv_call by (auto split: if_splits)
  next
    case (Collect c)
    then show ?thesis
      using assms wake_inv_collect by (auto split: phase.splits)
  next
    case (FastAccept c)
    then show ?thesis
      using assms wake_inv_accept by (auto simp: sys_fast_accept_def split: if_splits)
  next
    case (AcceptAgain c)
    then show ?thesis
      using assms wake_inv_accept [OF assms(1-3)] by (auto simp: fast_accept_again_def split: phase.splits)
  next
    case (FastReply c h words)
    then show ?thesis
      using assms wake_inv_reply by (auto split: if_splits)
  next
    case (TaskExit c)
    then show ?thesis
      using assms wake_inv_exit by auto
  qed (use assms(4) in simp_all)
qed


lemma wake_inv_fstep:
  assumes "wake_inv sys" "fstep x sys = Some sys'"
  shows "wake_inv sys'"
  using assms(2)
proof (cases rule: fstep_cases)
  case (task tid t)
  then show ?thesis
    using wake_inv_task [OF assms(1)] by blast
next
  case (spawn tid k)
  then show ?thesis
    by (intro wake_inv_own [OF assms(1), where tid = tid]) (auto simp: task_fine_def pack_state_word)
next
  case (dispatch tid t)
  obtain b where b: "ft_word t = state_word Ready b"
    using wake_invD(2) [OF assms(1) dispatch(2)] dispatch(3) by (auto elim!: task_fineE)
  have "will_look t \<longrightarrow> will_look (t\<lparr>ft_word := set_state (ft_word t) Running\<rparr>)"
    by (auto simp: will_look_def b split: phase.splits)
  then show ?thesis
    using dispatch by (intro wake_inv_own [OF assms(1), where tid = tid]) (auto simp: task_fine_def b)
next
  case (land k)
  have "a \<in> set (take k xs @ drop (Suc k) xs)" if "a \<in> set xs" "xs ! k \<noteq> a" "k < length xs" for a and xs :: "flight list"
    using that id_take_nth_drop [OF that(3)] by (metis Un_iff set_ConsD set_append)
  then show ?thesis
    unfolding land(3) using land(2) by (intro wake_inv_land [OF assms(1)])
next
  case (stray tid w)
  have "ToTid tid w \<noteq> ToTid c (fast_ipc_client_tid h)" for c h
    using stray(2) by auto
  then show ?thesis
    using wake_inv_land [OF assms(1), of "ToTid tid w" "fs_flights sys"] stray(3) by simp
qed

lemma wake_inv_reach:
  assumes "freach fsys_init sys"
  shows "wake_inv sys"
  using assms
proof (induction fsys_init sys rule: freach.induct)
  case freach_refl
  then show ?case
    using fast_ipc_inv_new by (simp add: wake_inv_def fsys_init_def)
qed (use wake_inv_fstep in blast)

lemma ready_reply_answered:
  assumes "fast_ipc_inv ipc" "fast_ipc_wait_state h c ipc = Ready_reply"
  shows "answered_in ipc c h"
proof -
  obtain i where i: "fast_ipc_handle_slot h = Some i" "fi_state (fi_slots ipc ! i) = Replied" "fi_caller (fi_slots ipc ! i) = c"
      "fi_generation (fi_slots ipc ! i) = fast_handle_generation h"
    using assms(2) by (auto simp: fast_ipc_wait_state_def Let_def split: option.splits if_splits SlotState.splits)
  then have "h = fast_handle ipc i"
    using make_handle_of [OF i(1)] by (simp add: fast_handle_def)
  then show ?thesis
    using i(2,3) handle_slot_bound [OF i(1)] by (auto simp: answered_in_def)
qed


definition demo_answered :: "fop list" where
  "demo_answered = [Spawn 1 False, Dispatch 1, Spawn 2 False, Dispatch 2, FastCall 1 2 [10, 20, 30, 40], LandWake 0, FastAccept 2,
     TaskBlock 1, FastReply 2 0 [7, 8, 9, 10]]"

lemma demo_answered_state:
  "map_option (\<lambda>sys. (map_option (\<lambda>t. (state_of (ft_word t), ft_phase t)) (fs_tasks sys 1), fast_ipc_wait_state 0 1 (fs_ipc sys)))
     (fpath demo_answered fsys_init) = Some (Some (Blocked, CallWaiting 0 0), Ready_reply)"
  by code_simp


section \<open>A client whose server exits before it sleeps\<close>

definition handle_live :: "FastIpcState \<Rightarrow> u64 \<Rightarrow> bool" where
  "handle_live ipc h \<longleftrightarrow> (\<exists>i\<in>set [0..<64]. occupied (fi_slots ipc ! i) \<and> fast_handle ipc i = h)"

fun wakes_handle :: "u64 \<Rightarrow> flight \<Rightarrow> bool" where
  "wakes_handle h (ToTid _ w) \<longleftrightarrow> w = fast_ipc_client_tid h \<or> w = fast_ipc_client h"
| "wakes_handle h (Sweep w) \<longleftrightarrow> w = fast_ipc_client_tid h \<or> w = fast_ipc_client h"

definition sleeps_on :: "u32 \<Rightarrow> u64 \<Rightarrow> fsys \<Rightarrow> bool" where
  "sleeps_on c h sys \<longleftrightarrow>
     (case fs_tasks sys c of None \<Rightarrow> False | Some t \<Rightarrow> word_ok (ft_word t) \<and> state_of (ft_word t) = Blocked \<and> ft_reason t = FastIpcClient h)"

definition forgotten :: "u32 \<Rightarrow> u64 \<Rightarrow> fsys \<Rightarrow> bool" where
  "forgotten c h sys \<longleftrightarrow> fast_ipc_inv (fs_ipc sys) \<and> sleeps_on c h sys \<and> \<not> handle_live (fs_ipc sys) h
     \<and> (\<forall>f\<in>set (fs_flights sys). \<not> wakes_handle h f)"

lemma handle_live_step:
  assumes "\<And>i. i < 64 \<Longrightarrow> occupied (fi_slots ipc' ! i) \<Longrightarrow> fast_handle ipc' i \<noteq> h \<or> occupied (fi_slots ipc ! i) \<and> fast_handle ipc i = h"
  shows "handle_live ipc' h \<Longrightarrow> handle_live ipc h"
  using assms unfolding handle_live_def by fastforce

lemma sleeps_on_wake:
  assumes "sleeps_on c h sys" "\<not> wakes_handle h f"
  shows "sleeps_on c h (sys\<lparr>fs_tasks := land_wake f (fs_tasks sys), fs_flights := fl\<rparr>)"
proof -
  obtain t where t: "fs_tasks sys c = Some t" "ft_word t = state_word Blocked (stamped (ft_word t))" "ft_reason t = FastIpcClient h"
    using assms(1) by (auto simp: sleeps_on_def word_ok_def split: option.splits)
  have "wake_ftask w t = t" if "\<not> wake_pred w (FastIpcClient h)" for w
    using t(2,3) that wake_word [of Blocked "stamped (ft_word t)" "wake_pred w (ft_reason t)" "wake_stamps w" True]
    by (simp add: wake_ftask_def)
  moreover have "\<not> wake_pred w (FastIpcClient h)" if "\<not> (w = fast_ipc_client_tid h \<or> w = fast_ipc_client h)" for w
    using that by (cases w) (auto simp: wake_pred_def)
  ultimately have "land_wake f (fs_tasks sys) c = Some t"
    using t(1) assms(2) by (cases f) auto
  then show ?thesis
    using assms(1) t(1) by (simp add: sleeps_on_def)
qed


lemma forgotten_frame:
  assumes "forgotten c h sys" "fast_ipc_inv (fs_ipc sys')" "fs_tasks sys' c = fs_tasks sys c"
    "\<And>i. i < 64 \<Longrightarrow> occupied (fi_slots (fs_ipc sys') ! i) \<Longrightarrow>
       fast_handle (fs_ipc sys') i \<noteq> h \<or> occupied (fi_slots (fs_ipc sys) ! i) \<and> fast_handle (fs_ipc sys) i = h"
    "\<And>f. f \<in> set (fs_flights sys') \<Longrightarrow> f \<in> set (fs_flights sys) \<or> \<not> wakes_handle h f"
  shows "forgotten c h sys'"
  using assms(1-3,5) handle_live_step [OF assms(4)] by (auto simp: forgotten_def sleeps_on_def)

lemma live_slot:
  assumes "forgotten c h sys" "i < 64" "occupied (fi_slots (fs_ipc sys) ! i)"
  shows "fast_handle (fs_ipc sys) i \<noteq> h"
  using assms by (auto simp: forgotten_def handle_live_def)

lemma forgotten_call:
  assumes "forgotten c h sys" "tid \<noteq> c" "fs_log (sys_fast_call tid t server words sys) = fs_log sys @ new"
    "\<And>c' s w. Called c' s h w \<notin> set new"
  shows "forgotten c h (sys_fast_call tid t server words sys)"
proof (cases "fast_ipc_call (\<lambda>tid. fs_tasks sys tid \<noteq> None) tid server words (fs_ipc sys)")
  case (Pair r ipc)
  have inv: "fast_ipc_inv (fs_ipc sys)"
    using assms(1) by (simp add: forgotten_def)
  show ?thesis
  proof (cases r)
    case None
    then show ?thesis
      using Pair fast_call_none [OF Pair [unfolded None]] assms(1) by (simp add: sys_fast_call_def)
  next
    case (Some h')
    obtain i where i: "i < 64" "fast_ipc_inv ipc" "h' = fast_handle (fs_ipc sys) i"
        "fi_slots ipc = (fi_slots (fs_ipc sys))[i := \<lparr>fi_caller = tid, fi_server = server, fi_words = words, fi_state = Pending,
          fi_generation = fi_generation (fi_slots (fs_ipc sys) ! i)\<rparr>]"
      using fast_call_effect [OF inv Pair [unfolded Some]] by metis
    have hs: "fast_handle ipc j = fast_handle (fs_ipc sys) j" for j
      using fast_ipc_invD(1) [OF inv] i(1) by (cases "j = i") (simp_all add: fast_handle_def i(4))
    have "new = [Called tid server h' words]"
      using assms(3) Pair Some by (simp add: sys_fast_call_def)
    then have h': "fast_handle (fs_ipc sys) i \<noteq> h"
      using assms(4) i(3) by auto
    have "fast_handle ipc j \<noteq> h" if "j < 64" "occupied (fi_slots ipc ! j)" for j
      using live_slot [OF assms(1) that(1)] that(2) h' hs by (cases "j = i") (auto simp: i(4))
    then show ?thesis
      using Pair Some i(2) assms(2) by (intro forgotten_frame [OF assms(1)]) (auto simp: sys_fast_call_def)
  qed
qed

lemma forgotten_put:
  assumes "forgotten c h sys" "fs_ipc sys' = ipc" "fs_tasks sys' c = fs_tasks sys c" "\<And>f. f \<in> set (fs_flights sys') \<Longrightarrow> f \<in> set (fs_flights sys) \<or> \<not> wakes_handle h f"
    "fast_ipc_inv ipc" "fi_slots ipc = (fi_slots (fs_ipc sys))[i := s]"
    "occupied s \<Longrightarrow> occupied (fi_slots (fs_ipc sys) ! i) \<and> fi_generation s = fi_generation (fi_slots (fs_ipc sys) ! i)"
  shows "forgotten c h sys'"
proof (rule forgotten_frame [OF assms(1)])
  fix j
  assume j: "j < 64" "occupied (fi_slots (fs_ipc sys') ! j)"
  have "length (fi_slots (fs_ipc sys)) = 64"
    using fast_ipc_invD(1) [OF assms(5)] assms(6) by simp
  then show "fast_handle (fs_ipc sys') j \<noteq> h \<or> occupied (fi_slots (fs_ipc sys) ! j) \<and> fast_handle (fs_ipc sys) j = h"
    using j assms(2,6,7) by (cases "i = j") (auto simp: fast_handle_def)
qed (use assms in auto)

lemma forgotten_same:
  assumes "forgotten c h sys" "fs_ipc sys' = fs_ipc sys" "fs_tasks sys' c = fs_tasks sys c" "fs_flights sys' = fs_flights sys"
  shows "forgotten c h sys'"
  using assms by (simp add: forgotten_def sleeps_on_def)

lemma forgotten_accept:
  assumes "forgotten c h sys" "tid \<noteq> c"
  shows "forgotten c h (fast_accept_try tid t ph sys)"
proof (cases "fast_ipc_accept tid (fs_ipc sys)")
  case (Pair r ipc)
  show ?thesis
  proof (cases r)
    case None
    then show ?thesis
      using Pair fast_accept_none [OF Pair [unfolded None]] assms(2) by (intro forgotten_same [OF assms(1)]) (simp_all add: fast_accept_try_def)
  next
    case (Some x)
    obtain h' caller words where x: "x = (h', caller, words)"
      by (metis prod_cases3)
    obtain i where i: "fi_state (fi_slots (fs_ipc sys) ! i) = Pending" "fast_ipc_inv ipc"
        "fi_slots ipc = (fi_slots (fs_ipc sys))[i := (fi_slots (fs_ipc sys) ! i)\<lparr>fi_state := Accepted\<rparr>]"
      using fast_accept_effect [OF _ Pair [unfolded Some x]] assms(1) by (metis forgotten_def)
    show ?thesis
      by (rule forgotten_put [OF assms(1) _ _ _ i(2,3)]) (use Pair Some x assms(2) i(1) in \<open>auto simp: fast_accept_try_def occupied_def\<close>)
  qed
qed

lemma forgotten_collect:
  assumes "forgotten c h sys" "tid \<noteq> c"
  shows "forgotten c h (fast_call_collect tid t h' n sys)"
proof (cases "fast_ipc_collect tid (fs_ipc sys)")
  case (Pair r ipc)
  have inv: "fast_ipc_inv (fs_ipc sys)"
    using assms(1) by (simp add: forgotten_def)
  show ?thesis
  proof (cases r)
    case None
    then show ?thesis
      using Pair fast_collect_none(1) [OF inv Pair [unfolded None]] assms(2) by (intro forgotten_same [OF assms(1)]) (simp_all add: fast_call_collect_def)
  next
    case (Some reply)
    obtain i where i: "fast_ipc_inv ipc" "fi_slots ipc = (fi_slots (fs_ipc sys))[i := freed (fi_slots (fs_ipc sys) ! i)]"
      using fast_collect_effect [OF inv Pair [unfolded Some]] by (metis freed_def)
    show ?thesis
      by (rule forgotten_put [OF assms(1) _ _ _ i])
        (use Pair Some assms(2) in \<open>auto simp: fast_call_collect_def occupied_def freed_def fast_slot_empty_def\<close>)
  qed
qed

lemma forgotten_reply:
  assumes "forgotten c h sys"
  shows "forgotten c h (sys_fast_reply tid t h' words sys)"
proof (cases "fast_ipc_reply h' tid (ft_kernel t) words (fs_ipc sys)")
  case (Pair r ipc)
  show ?thesis
  proof (cases r)
    case (Woke caller i)
    have inv: "fast_ipc_inv (fs_ipc sys)"
      using assms by (simp add: forgotten_def)
    note i = fast_reply_effect [OF inv Pair [unfolded Woke]]
    have "h' \<noteq> h"
      using live_slot [OF assms i(1)] i(2,3) by (simp add: occupied_def)
    then show ?thesis
      using Pair Woke i(3) by (intro forgotten_put [OF assms _ _ _ i(6,7)]) (auto simp: sys_fast_reply_def occupied_def)
  qed (use Pair fast_reply_refused [OF Pair] assms in \<open>simp_all add: sys_fast_reply_def\<close>)
qed

lemma forgotten_exit:
  assumes "forgotten c h sys" "tid \<noteq> c"
  shows "forgotten c h (fast_exit tid sys)"
proof -
  obtain ipc orphaned k where r: "fast_ipc_release_all tid (fs_ipc sys) = (ipc, orphaned, k)"
    by (metis prod_cases3)
  have inv: "fast_ipc_inv (fs_ipc sys)"
    using assms(1) by (simp add: forgotten_def)
  note e = release_all_effect [OF inv r]
  have f: "fs_ipc (fast_exit tid sys) = ipc" "fs_tasks (fast_exit tid sys) c = fs_tasks sys c"
      "fs_flights (fast_exit tid sys) = fs_flights sys @ map (\<lambda>h. Sweep (fast_ipc_client h)) orphaned"
    using r assms(2) by (simp_all add: fast_exit_def)
  have "h' \<noteq> h" if "h' \<in> set orphaned" for h'
    using that live_slot [OF assms(1)] by (auto simp: e(3) exit_orphans_def exit_frees_def occupied_def)
  then have fl: "\<not> wakes_handle h x" if "x \<in> set (map (\<lambda>h. Sweep (fast_ipc_client h)) orphaned)" for x
    using that by auto
  show ?thesis
  proof (rule forgotten_frame [OF assms(1)])
    fix j
    assume "j < 64" "occupied (fi_slots (fs_ipc (fast_exit tid sys)) ! j)"
    then show "fast_handle (fs_ipc (fast_exit tid sys)) j \<noteq> h \<or> occupied (fi_slots (fs_ipc sys) ! j) \<and> fast_handle (fs_ipc sys) j = h"
      using e(2) [of j] by (auto simp: f fast_handle_def occupied_def freed_def fast_slot_empty_def split: if_splits)
  qed (use f fl e(1) in \<open>auto simp del: wakes_handle.simps\<close>)
qed

lemma forgotten_task:
  assumes "forgotten c h sys" "tid \<noteq> c" "task_step x tid t sys = Some sys'" "fs_log sys' = fs_log sys @ new"
    "\<And>c' s w. Called c' s h w \<notin> set new"
  shows "forgotten c h sys'"
proof (cases x)
  case (FastCall c' server words)
  then show ?thesis
    using assms forgotten_call by (auto split: if_splits)
next
  case (Probe c')
  then show ?thesis
    using assms(2,3) by (intro forgotten_same [OF assms(1)]) (auto simp: fast_call_probe_def split: phase.splits FastIpcWait.splits if_splits)
next
  case (TaskBlock c')
  then show ?thesis
    using assms(2,3) by (intro forgotten_same [OF assms(1)]) (auto split: phase.splits)
next
  case (Preempt c')
  then show ?thesis
    using assms(2,3) by (intro forgotten_same [OF assms(1)]) auto
qed (use assms(3) forgotten_accept [OF assms(1,2)] forgotten_collect [OF assms(1,2)] forgotten_reply [OF assms(1)] forgotten_exit [OF assms(1,2)]
  in \<open>auto simp: sys_fast_accept_def fast_accept_again_def split: phase.splits if_splits\<close>)

lemma forgotten_step:
  assumes "forgotten c h sys" "fstep x sys = Some sys'" "fs_log sys' = fs_log sys @ new" "\<And>c' s w. Called c' s h w \<notin> set new"
  shows "forgotten c h sys'"
  using assms(2)
proof (cases rule: fstep_cases)
  case (task tid t)
  then have "tid \<noteq> c"
    using assms(1) by (auto simp: forgotten_def sleeps_on_def running_def)
  then show ?thesis
    using forgotten_task [OF assms(1) _ task(4) assms(3,4)] by blast
next
  case (land k)
  then have "\<not> wakes_handle h (fs_flights sys ! k)" "set (take k (fs_flights sys) @ drop (Suc k) (fs_flights sys)) \<subseteq> set (fs_flights sys)"
    using assms(1) set_take_subset [of k "fs_flights sys"] set_drop_subset [of "Suc k" "fs_flights sys"] by (auto simp: forgotten_def)
  then show ?thesis
    using assms(1) sleeps_on_wake unfolding land(3) forgotten_def by auto
next
  case (stray tid w)
  then have "\<not> wakes_handle h (ToTid tid w)"
    by auto
  then show ?thesis
    using assms(1) sleeps_on_wake [of c h sys "ToTid tid w" "fs_flights sys"] stray(3) by (simp add: forgotten_def del: land_wake.simps)
qed (use assms(1) in \<open>auto simp: forgotten_def sleeps_on_def split: option.splits\<close>)

lemma fstep_log_append:
  assumes "fstep x sys = Some sys'"
  shows "\<exists>new. fs_log sys' = fs_log sys @ new"
  using assms
proof (cases rule: fstep_cases)
  case (task tid t)
  then show ?thesis
    by (cases x) (auto simp: sys_fast_call_def fast_call_collect_def fast_call_probe_def sys_fast_accept_def fast_accept_again_def
        fast_accept_try_def sys_fast_reply_def fast_exit_def
        split: if_splits phase.splits option.splits prod.splits FastIpcWait.splits FastIpcReply.splits)
qed auto

lemma fpath_log_append:
  "fpath xs sys = Some sys' \<Longrightarrow> \<exists>new. fs_log sys' = fs_log sys @ new"
proof (induction xs arbitrary: sys)
  case (Cons x xs)
  then obtain u where u: "fstep x sys = Some u" "fpath xs u = Some sys'"
    by (auto split: option.splits)
  then show ?case
    using fstep_log_append [OF u(1)] Cons.IH [OF u(2)] by auto
qed simp

lemma forgotten_path:
  assumes "fpath xs sys = Some sys'" "forgotten c h sys" "fs_log sys' = fs_log sys @ new" "\<And>c' s w. Called c' s h w \<notin> set new"
  shows "forgotten c h sys'"
  using assms
proof (induction xs arbitrary: sys new)
  case (Cons x xs)
  obtain u where u: "fstep x sys = Some u" "fpath xs u = Some sys'"
    using Cons.prems(1) by (auto split: option.splits)
  obtain a b where ab: "fs_log u = fs_log sys @ a" "fs_log sys' = fs_log u @ b"
    using fstep_log_append [OF u(1)] fpath_log_append [OF u(2)] by blast
  then have "new = a @ b"
    using Cons.prems(3) by simp
  then have "Called c' s h w \<notin> set a" "Called c' s h w \<notin> set b" for c' s w
    using Cons.prems(4) by simp_all
  then show ?case
    using Cons.IH [OF u(2) forgotten_step [OF Cons.prems(2) u(1) ab(1)] ab(2)] by blast
qed simp


definition demo_orphan :: "fop list" where
  "demo_orphan = [Spawn 1 False, Dispatch 1, Spawn 2 False, Dispatch 2, FastCall 1 2 [10, 20, 30, 40], LandWake 0,
     TaskExit 2, LandWake 0, TaskBlock 1]"

definition demo_after :: "fop list" where
  "demo_after = [Spawn 2 False, Spawn 3 False, Dispatch 2, Dispatch 3, FastCall 3 2 [1, 2, 3, 4], LandWake 0, FastAccept 2,
     FastReply 2 64 [5, 6, 7, 8], LandWake 0, TaskExit 2]"

lemma demo_orphan_state:
  "map_option (\<lambda>sys. (map_option (\<lambda>t. (state_of (ft_word t), ft_phase t)) (fs_tasks sys 1), handle_live (fs_ipc sys) 0, fs_flights sys, fs_log sys))
     (fpath demo_orphan fsys_init) =
   Some (Some (Blocked, CallWaiting 0 0), False, [], [Called 1 2 0 [10, 20, 30, 40]])"
  by code_simp

lemma demo_after_state:
  "map_option fs_log (fpath (demo_orphan @ demo_after) fsys_init) =
   Some [Called 1 2 0 [10, 20, 30, 40], Called 3 2 64 [1, 2, 3, 4], Taken 2 64 3 [1, 2, 3, 4], Answered 2 False 64 [5, 6, 7, 8]]"
  by code_simp

lemma fpath_append: "fpath (xs @ ys) sys = (case fpath xs sys of None \<Rightarrow> None | Some u \<Rightarrow> fpath ys u)"
  by (induction xs arbitrary: sys) (auto split: option.splits)


section \<open>A late reply answers another call\<close>

definition demo_late :: "fop list" where
  "demo_late = [Spawn 1 False, Dispatch 1, Spawn 2 False, Dispatch 2, Spawn 3 False, Dispatch 3, FastCall 1 2 [10, 20, 30, 40], LandWake 0,
     FastAccept 2]
     @ concat (replicate 8 [StrayWake 1 by_wait_queue, TaskBlock 1, Collect 1, Probe 1])
     @ [FastCall 1 3 [50, 60, 70, 80], LandWake 0, FastReply 2 0 [7, 8, 9, 10], LandWake 0, TaskBlock 1, Collect 1]"


end
