(* ===== verification/Spec2Isabelle.thy ===== *)
theory Spec2Isabelle
  imports Channels Pipes Handles Ports Signals Motor_Pid Ota_Update Sched_Deadline Fast_Wake
begin

text \<open>
  A verification development for the robot-os kernel.

  Plan of the library: the shared prelude (\<^verbatim>\<open>Rust_Prelude\<close>), the capability system
  (\<^verbatim>\<open>Cap_Wire\<close>, \<^verbatim>\<open>Cap_Table\<close>, \<^verbatim>\<open>Cap_Store\<close>), the IPC objects, the scheduler,
  the update path, and the USB gadget protocols.
\<close>

end
